(* ===== verification/KV_Prelude.thy ===== *)
theory KV_Prelude
  imports Main "HOL-Library.Word" "HOL-Library.Multiset"
begin

text \<open>
  Shared vocabulary of the development: bytes and little-endian integers as the C++ objects
  lay them out in memory, the outcome of running a member function (return, exception, failed
  \<^verbatim>\<open>assert\<close>, blocked thread, loop that does not end), sequencing of such runs with a
  weakest-precondition style predicate, and the list lemmas the components share.
\<close>

named_theorems run_simps \<open>equations that push a run of a member function through its steps\<close>

subsection \<open>Runs of member functions\<close>

text \<open>
  A member function of the cache takes the state of the object and ends in one of five ways:
  \<open>Ret\<close> (it returns a value), \<open>Exc\<close> (it throws; the object keeps the changes made so far),
  \<open>Abort\<close> (an \<^verbatim>\<open>assert\<close> fails and the process stops), \<open>Wait\<close> (the calling thread is blocked on
  a condition variable or a mutex, in the given state) and \<open>Hang\<close> (a loop or recursion that
  never ends).
\<close>

datatype ('a, 's) outcome =
    Ret 'a 's
  | Exc string 's
  | Abort string
  | Wait string 's
  | Hang

primrec seq :: "('a, 's) outcome \<Rightarrow> ('a \<Rightarrow> 's \<Rightarrow> ('b, 's) outcome) \<Rightarrow> ('b, 's) outcome" where
  "seq (Ret a s) f = f a s"
| "seq (Exc e s) f = Exc e s"
| "seq (Abort m) f = Abort m"
| "seq (Wait w s) f = Wait w s"
| "seq Hang f = Hang"

text \<open>The \<^verbatim>\<open>assert\<close> macro of a debug build.\<close>

definition check :: "bool \<Rightarrow> string \<Rightarrow> 's \<Rightarrow> (unit, 's) outcome" where
  "check b what s = (if b then Ret () s else Abort what)"

text \<open>
  \<open>safe I Q m\<close>: the run \<open>m\<close> fails no assertion, every state it leaves behind by an exception
  or while blocked satisfies \<open>I\<close>, and when it returns then \<open>Q\<close> holds of the value and the state.
  \<open>total Q m\<close>: the run returns, with \<open>Q\<close>.
\<close>

primrec safe :: "('s \<Rightarrow> bool) \<Rightarrow> ('a \<Rightarrow> 's \<Rightarrow> bool) \<Rightarrow> ('a, 's) outcome \<Rightarrow> bool" where
  "safe I Q (Ret a s) = Q a s"
| "safe I Q (Exc e s) = I s"
| "safe I Q (Abort m) = False"
| "safe I Q (Wait w s) = I s"
| "safe I Q Hang = True"

primrec total :: "('a \<Rightarrow> 's \<Rightarrow> bool) \<Rightarrow> ('a, 's) outcome \<Rightarrow> bool" where
  "total Q (Ret a s) = Q a s"
| "total Q (Exc e s) = False"
| "total Q (Abort m) = False"
| "total Q (Wait w s) = False"
| "total Q Hang = False"

lemma safe_seq [simp]: "safe I Q (seq m f) = safe I (\<lambda>a s. safe I Q (f a s)) m"
  by (cases m) simp_all

lemma total_seq [simp]: "total Q (seq m f) = total (\<lambda>a s. total Q (f a s)) m"
  by (cases m) simp_all

lemma safe_check [simp]: "safe I Q (check b w s) = (b \<and> Q () s)"
  by (simp add: check_def)

lemma total_check [simp]: "total Q (check b w s) = (b \<and> Q () s)"
  by (simp add: check_def)

lemma check_True [simp]: "b \<Longrightarrow> check b w s = Ret () s"
  by (simp add: check_def)

lemma safe_mono:
  "safe I Q m \<Longrightarrow> (\<And>s. I s \<Longrightarrow> I' s) \<Longrightarrow> (\<And>a s. Q a s \<Longrightarrow> Q' a s) \<Longrightarrow> safe I' Q' m"
  by (cases m) auto

lemma safe_weaken: "safe I Q m \<Longrightarrow> (\<And>a s. Q a s \<Longrightarrow> Q' a s) \<Longrightarrow> safe I Q' m"
  by (rule safe_mono)

text \<open>Three runs in a row.\<close>

lemma safe_mono3:
  assumes m: "safe I (\<lambda>_ s. safe I (\<lambda>_ t. safe I (\<lambda>_ u. Q u) (h t)) (g s)) m"
    and I: "\<And>s. I s \<Longrightarrow> I' s" and Q: "\<And>u. Q u \<Longrightarrow> Q' u"
  shows "safe I' (\<lambda>_ s. safe I' (\<lambda>_ t. safe I' (\<lambda>_ u. Q' u) (h t)) (g s)) m"
proof -
  have 1: "safe I' (\<lambda>_ u. Q' u) x" if "safe I (\<lambda>_ u. Q u) x" for x
    using that I Q by (rule safe_mono)
  have 2: "safe I' (\<lambda>_ t. safe I' (\<lambda>_ u. Q' u) (h t)) x"
    if "safe I (\<lambda>_ t. safe I (\<lambda>_ u. Q u) (h t)) x" for x
    using that I 1 by (rule safe_mono)
  show ?thesis using m I 2 by (rule safe_mono)
qed

lemma total_mono: "total Q m \<Longrightarrow> (\<And>a s. Q a s \<Longrightarrow> Q' a s) \<Longrightarrow> total Q' m"
  by (cases m) auto

text \<open>\<open>settles m\<close>: the run neither throws nor blocks nor goes on for ever.\<close>

primrec settles :: "('a, 's) outcome \<Rightarrow> bool" where
  "settles (Ret a s) = True"
| "settles (Exc e s) = False"
| "settles (Abort m) = True"
| "settles (Wait w s) = False"
| "settles Hang = False"

lemma settles_seq:
  assumes "settles m" and "\<And>a s. m = Ret a s \<Longrightarrow> settles (f a s)"
  shows "settles (seq m f)"
  using assms by (cases m) simp_all

lemma settles_check [simp]: "settles (check b what s)"
  by (simp add: check_def)

text \<open>A safe run that settles returns.\<close>

lemma safe_settles: "safe I Q m \<Longrightarrow> settles m \<Longrightarrow> total Q m"
  by (cases m) simp_all

lemma distinct_countI: "(\<And>x. count (mset xs) x \<le> 1) \<Longrightarrow> distinct xs"
  unfolding distinct_count_atmost_1 by (metis One_nat_def count_mset_0_iff le_0_eq le_Suc_eq)

lemma total_iff: "total Q m \<longleftrightarrow> (\<exists>a s. m = Ret a s \<and> Q a s)"
  by (cases m) auto

lemma seq_assoc: "seq (seq m f) g = seq m (\<lambda>a s. seq (f a s) g)"
  by (cases m) simp_all

lemma seq_Ret_iff: "seq m f = Ret b t \<longleftrightarrow> (\<exists>a s. m = Ret a s \<and> f a s = Ret b t)"
  by (cases m) simp_all

lemma check_Ret_iff [simp]: "check b w s = Ret u t \<longleftrightarrow> b \<and> t = s"
  by (auto simp: check_def)

subsection \<open>Bytes and little-endian integers\<close>

type_synonym byte = "8 word"
type_synonym bytes = "byte list"

text \<open>An integer stored in \<open>n\<close> bytes, lowest byte first, and read back.\<close>

primrec le_enc :: "nat \<Rightarrow> int \<Rightarrow> bytes" where
  "le_enc 0 x = []"
| "le_enc (Suc n) x = word_of_int x # le_enc n (x div 256)"

primrec le_dec :: "bytes \<Rightarrow> int" where
  "le_dec [] = 0"
| "le_dec (b # bs) = uint b + 256 * le_dec bs"

text \<open>A 32-bit \<^verbatim>\<open>int\<close> in memory, and the wrap-around of 32-bit signed arithmetic.\<close>

definition s32 :: "int \<Rightarrow> int" where
  "s32 x = (x + 2 ^ 31) mod 2 ^ 32 - 2 ^ 31"

definition int32_dec :: "bytes \<Rightarrow> int" where
  "int32_dec bs = s32 (le_dec bs)"

lemma length_le_enc [simp]: "length (le_enc n x) = n"
  by (induction n arbitrary: x) simp_all

lemma le_dec_enc: "le_dec (le_enc n x) = x mod 256 ^ n"
proof (induction n arbitrary: x)
  case 0
  show ?case by simp
next
  case (Suc n)
  have "x mod (256 * 256 ^ n) = x mod 256 + 256 * (x div 256 mod 256 ^ n)"
    by (subst zmod_zmult2_eq) simp_all
  then show ?case
    using Suc by (simp add: uint_word_of_int)
qed

lemma s32_id [simp]: "- (2 ^ 31) \<le> x \<Longrightarrow> x < 2 ^ 31 \<Longrightarrow> s32 x = x"
  by (simp add: s32_def)

lemma s32_mod [simp]: "s32 (x mod 4294967296) = s32 x"
  by (simp add: s32_def mod_simps)

lemma int32_dec_enc [simp]:
  "- (2 ^ 31) \<le> x \<Longrightarrow> x < 2 ^ 31 \<Longrightarrow> int32_dec (le_enc 4 x) = x"
  by (simp add: int32_dec_def le_dec_enc)

subsection \<open>Reading and writing a run of bytes\<close>

text \<open>\<open>bread off n d\<close> is \<^verbatim>\<open>memcpy\<close> out of a buffer, \<open>bwrite off w d\<close> is \<^verbatim>\<open>memcpy\<close> into it.\<close>

definition bread :: "nat \<Rightarrow> nat \<Rightarrow> bytes \<Rightarrow> bytes" where
  "bread off n d = take n (drop off d)"

definition bwrite :: "nat \<Rightarrow> bytes \<Rightarrow> bytes \<Rightarrow> bytes" where
  "bwrite off w d = take off d @ w @ drop (off + length w) d"

lemma length_bwrite [simp]: "off + length w \<le> length d \<Longrightarrow> length (bwrite off w d) = length d"
  by (simp add: bwrite_def)

lemma length_bread [simp]: "off + n \<le> length d \<Longrightarrow> length (bread off n d) = n"
  by (simp add: bread_def)

lemma bread_bwrite_same: "off + length w \<le> length d \<Longrightarrow> bread off (length w) (bwrite off w d) = w"
  by (simp add: bread_def bwrite_def)

lemma bread_bwrite_after:
  "off + length w \<le> off' \<Longrightarrow> off + length w \<le> length d \<Longrightarrow>
   bread off' n (bwrite off w d) = bread off' n d"
  by (simp add: bread_def bwrite_def)

lemma bread_bwrite_before:
  "off' + n \<le> off \<Longrightarrow> off \<le> length d \<Longrightarrow> bread off' n (bwrite off w d) = bread off' n d"
proof -
  assume "off' + n \<le> off" and "off \<le> length d"
  then have "n \<le> length (drop off' (take off d))" by simp
  then have "take n (drop off' (take off d) @ X) = take n (drop off' (take off d))" for X
    by simp
  then show "bread off' n (bwrite off w d) = bread off' n d"
    using \<open>off' + n \<le> off\<close> \<open>off \<le> length d\<close>
    by (simp add: bread_def bwrite_def drop_take min_absorb1)
qed

lemma bread_bread: "off' + m \<le> n \<Longrightarrow> bread off' m (bread off n d) = bread (off + off') m d"
  by (simp add: bread_def drop_take add.commute min_def)

subsection \<open>Lists\<close>

lemma nth_list_update_if: "i < length xs \<Longrightarrow> xs[i := x] ! j = (if i = j then x else xs ! j)"
  by (simp add: nth_list_update)

lemma distinct_concat_nth_disjoint:
  "distinct (concat xss) \<Longrightarrow> i < length xss \<Longrightarrow> j < length xss \<Longrightarrow> i \<noteq> j \<Longrightarrow>
   set (xss ! i) \<inter> set (xss ! j) = {}"
proof (induction xss arbitrary: i j)
  case Nil
  then show ?case by simp
next
  case (Cons xs xss)
  have out: "set xs \<inter> set (xss ! k) = {}" if "k < length xss" for k
    using Cons.prems(1) nth_mem [OF that] by auto
  show ?case
    using Cons.prems Cons.IH [of "i - 1" "j - 1"] out
    by (cases i; cases j) auto
qed

lemma sum_list_update_int:
  fixes f :: "'a \<Rightarrow> int"
  shows "i < length xs \<Longrightarrow>
    (\<Sum>x \<leftarrow> xs[i := y]. f x) = (\<Sum>x \<leftarrow> xs. f x) - f (xs ! i) + f y"
  by (induction xs arbitrary: i) (auto split: nat.splits)

lemma sum_list_update_nat:
  fixes f :: "'a \<Rightarrow> nat"
  shows "i < length xs \<Longrightarrow>
    (\<Sum>x \<leftarrow> xs[i := y]. f x) + f (xs ! i) = (\<Sum>x \<leftarrow> xs. f x) + f y"
  by (induction xs arbitrary: i) (auto split: nat.splits)

lemma mset_concat_update:
  "i < length xss \<Longrightarrow>
   (\<exists>A. mset (concat xss) = A + mset (xss ! i) \<and> mset (concat (xss[i := ys])) = A + mset ys)"
proof (induction xss arbitrary: i)
  case Nil
  then show ?case by simp
next
  case (Cons xs xss)
  show ?case
  proof (cases i)
    case 0
    then show ?thesis
      by (intro exI [of _ "mset (concat xss)"]) (simp add: add.commute)
  next
    case (Suc i')
    then obtain A where "mset (concat xss) = A + mset (xss ! i')"
      and "mset (concat (xss[i' := ys])) = A + mset ys"
      using Cons.IH [of i'] Cons.prems by auto
    then show ?thesis
      using Suc by (intro exI [of _ "A + mset xs"]) (simp add: ac_simps)
  qed
qed

end
