(* ===== verification/Intrusive_List.thy ===== *)
theory Intrusive_List
  imports KV_Prelude "HOL-Library.Monad_Syntax"
begin

text \<open>
  The intrusive doubly linked list of \<^verbatim>\<open>include/list.h\<close>: nodes embedded in slabs and index
  entries, linked in a ring through a list head. The heap maps the address of a node to its
  \<^verbatim>\<open>next\<close> and \<^verbatim>\<open>prev\<close> pointers; every function is the sequence of pointer writes of the source.
  \<open>ring h head xs\<close> says that the ring at \<open>head\<close> links exactly the nodes \<open>xs\<close>, in order; the
  locale \<open>list_ops\<close> states what the cache relies on, and the interpretation proves that the
  pointer code provides it. The other theories use lists of slab and entry numbers, with
  \<open>x # xs\<close> for \<^verbatim>\<open>list_add\<close>, \<open>hd\<close> for \<^verbatim>\<open>list_first_entry\<close> and removal for \<^verbatim>\<open>list_del\<close>, as
  justified here.
\<close>

record list_head =
  next_ptr :: nat
  prev_ptr :: nat

type_synonym heap = "nat \<Rightarrow> list_head"

definition set_next :: "nat \<Rightarrow> nat \<Rightarrow> heap \<Rightarrow> heap" where
  "set_next p v h = h(p := (h p)\<lparr>next_ptr := v\<rparr>)"

definition set_prev :: "nat \<Rightarrow> nat \<Rightarrow> heap \<Rightarrow> heap" where
  "set_prev p v h = h(p := (h p)\<lparr>prev_ptr := v\<rparr>)"

definition INIT_LIST_HEAD :: "nat \<Rightarrow> heap \<Rightarrow> heap" where
  "INIT_LIST_HEAD l h = (let h = set_next l l h; h = set_prev l l h in h)"

definition list_first_entry :: "nat \<Rightarrow> heap \<Rightarrow> nat" where
  "list_first_entry head h = next_ptr (h head)"

definition list_empty :: "nat \<Rightarrow> heap \<Rightarrow> bool" where
  "list_empty head h \<longleftrightarrow> next_ptr (h head) = head"

definition list_add :: "nat \<Rightarrow> nat \<Rightarrow> heap \<Rightarrow> heap" where
  "list_add newh head h =
     (let h = set_next newh (next_ptr (h head)) h;
          h = set_prev newh head h;
          h = set_prev (next_ptr (h head)) newh h
      in set_next head newh h)"

definition list_del :: "nat \<Rightarrow> heap \<Rightarrow> heap" where
  "list_del entry h =
     (let h = set_next (prev_ptr (h entry)) (next_ptr (h entry)) h;
          h = set_prev (next_ptr (h entry)) (prev_ptr (h entry)) h;
          h = set_prev entry entry h
      in set_next entry entry h)"

text \<open>
  The loops \<^verbatim>\<open>list_for_each\<close> and \<^verbatim>\<open>list_for_each_with_entry\<close>: the positions they visit. A ring
  that does not lead back to \<open>head\<close> is a loop that never ends, the value \<open>None\<close>.
\<close>

partial_function (option) list_positions :: "heap \<Rightarrow> nat \<Rightarrow> nat \<Rightarrow> nat list option" where
  "list_positions h pos head =
     (if pos = head then Some []
      else do { ps \<leftarrow> list_positions h (next_ptr (h pos)) head; Some (pos # ps) })"

definition list_for_each :: "nat \<Rightarrow> heap \<Rightarrow> nat list option" where
  "list_for_each head h = list_positions h (next_ptr (h head)) head"

subsection \<open>Rings\<close>

fun linked :: "heap \<Rightarrow> nat list \<Rightarrow> bool" where
  "linked h (a # b # cs) \<longleftrightarrow> next_ptr (h a) = b \<and> prev_ptr (h b) = a \<and> linked h (b # cs)"
| "linked h _ \<longleftrightarrow> True"

definition ring :: "heap \<Rightarrow> nat \<Rightarrow> nat list \<Rightarrow> bool" where
  "ring h head xs \<longleftrightarrow> distinct (head # xs) \<and> linked h (head # xs @ [head])"

lemmas pointer_defs =
  set_next_def set_prev_def INIT_LIST_HEAD_def list_add_def list_del_def Let_def

lemma linked_append: "linked h (as @ b # cs) \<longleftrightarrow> linked h (as @ [b]) \<and> linked h (b # cs)"
proof (induction as)
  case Nil
  show ?case by (cases cs) auto
next
  case (Cons a as)
  then show ?case by (cases as) auto
qed

lemma linked_bridge: "linked h (as @ a # b # bs) \<longleftrightarrow>
    linked h (as @ [a]) \<and> next_ptr (h a) = b \<and> prev_ptr (h b) = a \<and> linked h (b # bs)"
  using linked_append [of h as a "b # bs"] by simp

text \<open>Only the \<^verbatim>\<open>next\<close> of all but the last node and the \<^verbatim>\<open>prev\<close> of all but the first matter.\<close>

lemma linked_cong:
  "(\<And>a. a \<in> set (butlast xs) \<Longrightarrow> next_ptr (h' a) = next_ptr (h a)) \<Longrightarrow>
   (\<And>a. a \<in> set (tl xs) \<Longrightarrow> prev_ptr (h' a) = prev_ptr (h a)) \<Longrightarrow>
   linked h' xs = linked h xs"
proof (induction xs)
  case Nil
  show ?case by simp
next
  case (Cons x xs)
  have "linked h' xs = linked h xs"
  proof (rule Cons.IH)
    fix a assume "a \<in> set (butlast xs)"
    then show "next_ptr (h' a) = next_ptr (h a)"
      by (intro Cons.prems(1)) (auto split: if_splits)
  next
    fix a assume "a \<in> set (tl xs)"
    then show "prev_ptr (h' a) = prev_ptr (h a)"
      by (intro Cons.prems(2)) (cases xs, auto)
  qed
  then show ?case
    using Cons.prems by (cases xs) auto
qed

lemma ring_distinct: "ring h head xs \<Longrightarrow> distinct (head # xs)"
  by (simp add: ring_def)

lemma ring_Nil: "ring h head [] \<longleftrightarrow> next_ptr (h head) = head \<and> prev_ptr (h head) = head"
  by (simp add: ring_def)

lemma ring_Cons:
  "ring h head (x # xs) \<Longrightarrow> next_ptr (h head) = x \<and> prev_ptr (h x) = head"
  by (simp add: ring_def)

lemma ring_cong:
  assumes "\<And>a. a \<in> set (head # xs) \<Longrightarrow> h' a = h a"
  shows "ring h' head xs = ring h head xs"
proof -
  have "linked h' (head # xs @ [head]) = linked h (head # xs @ [head])"
    using assms by (intro linked_cong) (auto simp: butlast_append)
  then show ?thesis by (simp add: ring_def)
qed

lemma INIT_LIST_HEAD_ring: "ring (INIT_LIST_HEAD l h) l []"
  by (simp add: ring_Nil pointer_defs)

lemma list_empty_ring: "ring h head xs \<Longrightarrow> list_empty head h \<longleftrightarrow> xs = []"
  by (cases xs) (auto simp: list_empty_def ring_def)

lemma list_first_entry_ring: "ring h head (x # xs) \<Longrightarrow> list_first_entry head h = x"
  by (simp add: list_first_entry_def ring_Cons)

lemma list_positions_linked:
  "linked h (pos # xs @ [head]) \<Longrightarrow> head \<notin> set (pos # xs) \<Longrightarrow>
   list_positions h pos head = Some (pos # xs)"
proof (induction xs arbitrary: pos)
  case Nil
  then show ?case by (simp add: list_positions.simps)
next
  case (Cons x xs)
  then have "list_positions h x head = Some (x # xs)" by simp
  with Cons.prems show ?case by (subst list_positions.simps) simp
qed

lemma list_for_each_ring:
  assumes "ring h head xs"
  shows "list_for_each head h = Some xs"
proof (cases xs)
  case Nil
  with assms show ?thesis by (simp add: list_for_each_def ring_Nil list_positions.simps)
next
  case (Cons x ys)
  with assms have "next_ptr (h head) = x" and "linked h (x # ys @ [head])" and "head \<notin> set (x # ys)"
    by (auto simp: ring_def)
  then show ?thesis
    using list_positions_linked [of h x ys head] Cons by (simp add: list_for_each_def)
qed

lemma ring_split: "ring h head (xs @ e # ys) \<longleftrightarrow>
    distinct (head # xs @ e # ys) \<and> linked h (head # xs @ [e]) \<and> linked h (e # ys @ [head])"
  using linked_append [of h "head # xs" e "ys @ [head]"] by (auto simp: ring_def)

lemma list_add_ring:
  assumes r: "ring h head xs" and n: "n \<notin> set (head # xs)"
  shows "ring (list_add n head h) head (n # xs)"
proof (cases xs)
  case Nil
  with assms show ?thesis
    by (auto simp: ring_def pointer_defs)
next
  case (Cons x ys)
  let ?h = "list_add n head h"
  have d: "distinct (head # x # ys)" and l: "linked h (x # ys @ [head])"
    and nx: "next_ptr (h head) = x" and px: "prev_ptr (h x) = head"
    using r Cons by (auto simp: ring_def)
  have "linked ?h (x # ys @ [head]) = linked h (x # ys @ [head])"
    using d n Cons nx by (intro linked_cong) (auto simp: pointer_defs butlast_append)
  then show ?thesis
    using l d n Cons nx by (auto simp: ring_def pointer_defs)
qed

lemma list_add_other:
  assumes "ring h head xs" and "a \<notin> set (n # head # xs)"
  shows "list_add n head h a = h a"
proof -
  have "next_ptr (h head) \<in> set (head # xs)"
    using assms(1) by (cases xs) (auto simp: ring_def)
  with assms(2) show ?thesis by (auto simp: pointer_defs)
qed

text \<open>
  Removing \<open>e\<close> between its neighbours \<open>p\<close> and \<open>n\<close> changes \<^verbatim>\<open>next\<close> at \<open>p\<close> and \<open>e\<close>, and
  \<^verbatim>\<open>prev\<close> at \<open>n\<close> and \<open>e\<close>.
\<close>

lemma list_del_fields:
  assumes "prev_ptr (h e) = p" and "next_ptr (h e) = n" and "p \<noteq> e" and "n \<noteq> e"
  shows "next_ptr (list_del e h a) = (if a = e then e else if a = p then n else next_ptr (h a))"
    and "prev_ptr (list_del e h a) = (if a = e then e else if a = n then p else prev_ptr (h a))"
  using assms by (simp_all add: pointer_defs)

lemma list_del_ring:
  assumes r: "ring h head (xs @ e # ys)"
  shows "ring (list_del e h) head (xs @ ys)" and "ring (list_del e h) e []"
    and "a \<notin> set (head # xs @ e # ys) \<Longrightarrow> list_del e h a = h a"
proof -
  let ?h = "list_del e h"
  obtain A p where A: "head # xs = A @ [p]" by (metis append_butlast_last_id list.discI)
  obtain n B where B: "ys @ [head] = n # B" by (cases ys) auto
  have d: "distinct (head # xs @ e # ys)" and l: "linked h (A @ p # e # n # B)"
    using r A B by (auto simp: ring_def) (metis append.assoc append_Cons append_Nil)
  have lA: "linked h (A @ [p])" and lB: "linked h (n # B)" and "prev_ptr (h e) = p"
    and "next_ptr (h e) = n"
    using l by (auto simp: linked_bridge)
  have sets: "set (A @ [p]) = insert head (set xs)" "set (n # B) = insert head (set ys)"
    "set (tl (A @ [p])) = set xs" "set (butlast (n # B)) = set ys" "distinct (A @ [p])"
    using d by (simp_all flip: A B)
  have dB: "distinct (n # B)" using d by (simp flip: B)
  have neq: "p \<noteq> e" "n \<noteq> e" using sets d by auto
  note fields = list_del_fields [of h e p n, OF \<open>prev_ptr (h e) = p\<close> \<open>next_ptr (h e) = n\<close> neq]
  show "ring ?h e []" by (simp add: ring_Nil fields)
  have "linked ?h (A @ [p])"
    using lA
  proof (rule linked_cong [THEN iffD2, rotated 2])
    fix a assume "a \<in> set (butlast (A @ [p]))"
    then show "next_ptr (?h a) = next_ptr (h a)" using sets d by (auto simp: fields)
  next
    fix a assume "a \<in> set (tl (A @ [p]))"
    then show "prev_ptr (?h a) = prev_ptr (h a)"
      using sets d by (auto simp: fields)
  qed
  moreover have "linked ?h (n # B)"
    using lB
  proof (rule linked_cong [THEN iffD2, rotated 2])
    fix a assume "a \<in> set (butlast (n # B))"
    then show "next_ptr (?h a) = next_ptr (h a)" using sets d by (auto simp: fields)
  next
    fix a assume "a \<in> set (tl (n # B))"
    then show "prev_ptr (?h a) = prev_ptr (h a)"
      using sets d dB by (auto simp: fields)
  qed
  ultimately have "linked ?h (A @ p # n # B)"
    using neq by (auto simp: linked_bridge fields)
  then have "linked ?h (head # xs @ ys @ [head])"
    using A B by (metis append.assoc append_Cons append_Nil)
  then show "ring ?h head (xs @ ys)" using d by (simp add: ring_def)
  show "a \<notin> set (head # xs @ e # ys) \<Longrightarrow> ?h a = h a"
    using sets neq by (intro list_head.equality) (auto simp: fields)
qed

subsection \<open>What the cache relies on\<close>

text \<open>
  The contract of the list operations: \<open>rep h head xs\<close> abstracts the ring at \<open>head\<close> to the
  sequence \<open>xs\<close>; adding puts a node in front, deleting takes it out and leaves it as a ring of
  its own, and rings that share no node with the one operated on keep their contents.
\<close>

locale list_ops =
  fixes init :: "'a \<Rightarrow> 'h \<Rightarrow> 'h"
    and add :: "'a \<Rightarrow> 'a \<Rightarrow> 'h \<Rightarrow> 'h"
    and del :: "'a \<Rightarrow> 'h \<Rightarrow> 'h"
    and first :: "'a \<Rightarrow> 'h \<Rightarrow> 'a"
    and is_empty :: "'a \<Rightarrow> 'h \<Rightarrow> bool"
    and rep :: "'h \<Rightarrow> 'a \<Rightarrow> 'a list \<Rightarrow> bool"
  assumes rep_init: "rep (init l h) l []"
    and rep_distinct: "rep h l xs \<Longrightarrow> distinct (l # xs)"
    and rep_empty: "rep h l xs \<Longrightarrow> is_empty l h \<longleftrightarrow> xs = []"
    and rep_first: "rep h l (x # xs) \<Longrightarrow> first l h = x"
    and rep_add: "rep h l xs \<Longrightarrow> n \<notin> set (l # xs) \<Longrightarrow> rep (add n l h) l (n # xs)"
    and rep_add_frame: "rep h l xs \<Longrightarrow> rep h m ys \<Longrightarrow>
      set (m # ys) \<inter> set (n # l # xs) = {} \<Longrightarrow> rep (add n l h) m ys"
    and rep_del: "rep h l (xs @ e # ys) \<Longrightarrow> rep (del e h) l (xs @ ys) \<and> rep (del e h) e []"
    and rep_del_frame: "rep h l (xs @ e # ys) \<Longrightarrow> rep h m zs \<Longrightarrow>
      set (m # zs) \<inter> set (l # xs @ e # ys) = {} \<Longrightarrow> rep (del e h) m zs"
begin

text \<open>
  The idiom the cache repeats for every hand-over of a slab: take the first entry off one list
  and add it to another.
\<close>

lemma move_first:
  assumes a: "rep h a (x # xs)" and b: "rep h b ys"
    and disj: "set (a # x # xs) \<inter> set (b # ys) = {}"
  shows "rep (add (first a h) b (del (first a h) h)) a xs"
    and "rep (add (first a h) b (del (first a h) h)) b (x # ys)"
proof -
  have x: "first a h = x" using a by (rule rep_first)
  have del_a: "rep (del x h) a xs" using rep_del [of h a "[]" x xs] a by simp
  have del_b: "rep (del x h) b ys" using rep_del_frame [of h a "[]" x xs b ys] a b disj by auto
  have "distinct (a # x # xs)" using a by (rule rep_distinct)
  then have "set (a # xs) \<inter> set (x # b # ys) = {}" using disj by auto
  with del_a del_b show "rep (add (first a h) b (del (first a h) h)) a xs"
    unfolding x by (intro rep_add_frame [of _ b ys]) auto
  show "rep (add (first a h) b (del (first a h) h)) b (x # ys)"
    unfolding x using del_b disj by (intro rep_add) auto
qed

text \<open>Unlinking any node of a list and pushing it on another, as garbage collection does.\<close>

lemma move_any:
  assumes a: "rep h a (xs @ e # zs)" and b: "rep h b ys"
    and disj: "set (a # xs @ e # zs) \<inter> set (b # ys) = {}"
  shows "rep (add e b (del e h)) a (xs @ zs) \<and> rep (add e b (del e h)) b (e # ys)"
proof -
  have del_a: "rep (del e h) a (xs @ zs)" using rep_del [OF a] by simp
  have del_b: "rep (del e h) b ys" using rep_del_frame [OF a b] disj by auto
  have "distinct (a # xs @ e # zs)" using a by (rule rep_distinct)
  then have "set (a # xs @ zs) \<inter> set (e # b # ys) = {}" using disj by auto
  with del_a del_b have "rep (add e b (del e h)) a (xs @ zs)"
    by (intro rep_add_frame [of _ b ys]) auto
  moreover have "rep (add e b (del e h)) b (e # ys)"
    using del_b disj by (intro rep_add) auto
  ultimately show ?thesis by simp
qed

end

interpretation lh: list_ops INIT_LIST_HEAD list_add list_del list_first_entry list_empty ring
proof unfold_locales
  fix h :: heap and l m n :: nat and xs ys :: "nat list"
  assume "ring h l xs" and "ring h m ys" and disj: "set (m # ys) \<inter> set (n # l # xs) = {}"
  then have "list_add n l h a = h a" if "a \<in> set (m # ys)" for a
    using that by (intro list_add_other) auto
  with \<open>ring h m ys\<close> show "ring (list_add n l h) m ys" by (metis ring_cong)
next
  fix h :: heap and l e m :: nat and xs ys zs :: "nat list"
  assume r: "ring h l (xs @ e # ys)" and "ring h m zs"
    and disj: "set (m # zs) \<inter> set (l # xs @ e # ys) = {}"
  have "list_del e h a = h a" if "a \<in> set (m # zs)" for a
    using that disj by (intro list_del_ring(3) [OF r]) auto
  with \<open>ring h m zs\<close> show "ring (list_del e h) m zs" by (metis ring_cong)
qed (auto simp: INIT_LIST_HEAD_ring list_empty_ring list_first_entry_ring list_add_ring
      list_del_ring dest: ring_distinct)

subsection \<open>Properties\<close>

text \<open>
  C30: the hand-over of a slab from one list to another, as the source writes it
  (\<^verbatim>\<open>list_first_entry\<close>, \<^verbatim>\<open>list_del\<close>, \<^verbatim>\<open>list_add\<close>): the first node of list \<open>a\<close> becomes the first
  node of list \<open>b\<close>, and both loops over the lists see exactly the expected nodes.
\<close>

theorem slab_handover:
  assumes "ring h a (x # xs)" and "ring h b ys" and "set (a # x # xs) \<inter> set (b # ys) = {}"
  shows "let e = list_first_entry a h; h' = list_add e b (list_del e h)
    in e = x \<and> ring h' a xs \<and> ring h' b (x # ys) \<and>
       list_for_each a h' = Some xs \<and> list_for_each b h' = Some (x # ys)"
  using lh.move_first [OF assms] list_first_entry_ring [OF assms(1)]
  by (simp add: Let_def list_for_each_ring)

theorem slab_handover_witness:
  "let h = list_add 3 1 (list_add 4 1 (INIT_LIST_HEAD 2 (INIT_LIST_HEAD 1 (\<lambda>_. \<lparr>next_ptr = 0, prev_ptr = 0\<rparr>))));
       e = list_first_entry 1 h; h' = list_add e 2 (list_del e h)
   in e = 3 \<and> ring h' 1 [4] \<and> ring h' 2 [3] \<and> list_for_each 1 h' = Some [4] \<and> list_for_each 2 h' = Some [3]"
proof -
  let ?h = "list_add 3 1 (list_add 4 1 (INIT_LIST_HEAD 2 (INIT_LIST_HEAD 1 (\<lambda>_. \<lparr>next_ptr = 0, prev_ptr = 0\<rparr>))))"
  have "ring ?h 1 [3, 4]" "ring ?h 2 []" "set [1, 3, 4] \<inter> set [2] = ({} :: nat set)"
    by (simp_all add: ring_def pointer_defs)
  from slab_handover [OF this] show ?thesis unfolding Let_def .
qed

end
