(* ===== verification/KV_Slab.thy ===== *)
theory KV_Slab
  imports KV_Prelude
begin

text \<open>
  Slots and slabs (\<^verbatim>\<open>Slot\<close>, \<^verbatim>\<open>Slab\<close>, \<^verbatim>\<open>SlabClass\<close> of \<^verbatim>\<open>include/kvcache.h\<close>) at the level of
  bytes: a slab is a header of 44 bytes and a data area cut into slots of equal size; a slot is
  two 32-bit lengths, the key and the value. The address computations of
  \<^verbatim>\<open>src/kvcache.cpp\<close> (\<^verbatim>\<open>align_ptr_up\<close>, \<^verbatim>\<open>align_ptr_down\<close>, \<^verbatim>\<open>slot_to_slab\<close>, \<^verbatim>\<open>slot_id\<close>,
  \<^verbatim>\<open>slab_by_sid\<close>) are here too. Sizes are those of the x86-64 ABI.
\<close>

subsection \<open>Slots\<close>

definition slot_header_size :: nat where
  "slot_header_size = 8"

text \<open>\<^verbatim>\<open>Slot::Write\<close>, for a slot that starts at offset \<open>off\<close> of the data area \<open>d\<close>.\<close>

definition slot_Write :: "bytes \<Rightarrow> nat \<Rightarrow> bytes \<Rightarrow> bytes \<Rightarrow> bytes" where
  "slot_Write d off key value =
     (let d = bwrite off (le_enc 4 (int (length key))) d;
          d = bwrite (off + 4) (le_enc 4 (int (length value))) d;
          d = bwrite (off + slot_header_size) key d
      in bwrite (off + slot_header_size + length key) value d)"

definition slot_key_len :: "bytes \<Rightarrow> nat \<Rightarrow> nat" where
  "slot_key_len d off = nat (int32_dec (bread off 4 d))"

definition slot_value_len :: "bytes \<Rightarrow> nat \<Rightarrow> nat" where
  "slot_value_len d off = nat (int32_dec (bread (off + 4) 4 d))"

definition slot_key :: "bytes \<Rightarrow> nat \<Rightarrow> bytes" where
  "slot_key d off = bread (off + slot_header_size) (slot_key_len d off) d"

definition slot_value :: "bytes \<Rightarrow> nat \<Rightarrow> bytes" where
  "slot_value d off =
     bread (off + slot_header_size + slot_key_len d off) (slot_value_len d off) d"

definition slot_kv :: "bytes \<Rightarrow> nat \<Rightarrow> bytes \<times> bytes" where
  "slot_kv d off = (slot_key d off, slot_value d off)"

text \<open>\<^verbatim>\<open>KVCache::slot_size\<close>: the room an object needs.\<close>

definition slot_size_of :: "bytes \<Rightarrow> bytes \<Rightarrow> nat" where
  "slot_size_of key value = slot_header_size + length key + length value"

text \<open>What a slot holds stays inside the slot.\<close>

definition slot_fits :: "nat \<Rightarrow> bytes \<Rightarrow> nat \<Rightarrow> bool" where
  "slot_fits sz d off \<longleftrightarrow> slot_header_size + slot_key_len d off + slot_value_len d off \<le> sz"

subsection \<open>Slabs\<close>

definition slab_header_size :: nat where
  "slab_header_size = 44"

record slab =
  sid :: nat
  cid :: int
  nr_alloc :: nat
  slot_size :: nat
  nr_slots :: nat
  nr_used :: int
  block_id :: int
  data :: bytes

record slab_class =
  sc_cid :: int
  sc_slot_size :: nat
  sc_slots_per_slab :: nat
  slab_partial :: "nat list"

definition is_full :: "slab \<Rightarrow> bool" where
  "is_full sl \<longleftrightarrow> nr_alloc sl = nr_slots sl"

definition im_memory :: "slab \<Rightarrow> bool" where
  "im_memory sl \<longleftrightarrow> block_id sl = -1"

text \<open>\<^verbatim>\<open>Slab::slot(i)\<close> is the offset of slot \<open>i\<close> in the data area.\<close>

definition slab_slot :: "slab \<Rightarrow> nat \<Rightarrow> nat" where
  "slab_slot sl i = slot_size sl * i"

text \<open>\<^verbatim>\<open>Slab::slot_alloc\<close> returns the new slot and counts it as allocated and used.\<close>

definition slab_slot_alloc :: "slab \<Rightarrow> (nat, slab) outcome" where
  "slab_slot_alloc sl =
     (if is_full sl then Abort ''!is_full()''
      else Ret (slab_slot sl (nr_alloc sl))
             (sl\<lparr>nr_alloc := nr_alloc sl + 1, nr_used := nr_used sl + 1\<rparr>))"

definition slab_reset :: "slab \<Rightarrow> slab" where
  "slab_reset sl = sl\<lparr>cid := -1, nr_alloc := 0, slot_size := 0, nr_slots := 0, nr_used := 0\<rparr>"

text \<open>\<^verbatim>\<open>Slab::operator=\<close>: the header of \<open>other\<close>, the data area stays.\<close>

definition slab_assign :: "slab \<Rightarrow> slab \<Rightarrow> slab" where
  "slab_assign sl other =
     sl\<lparr>sid := sid other, cid := cid other, nr_alloc := nr_alloc other,
        slot_size := slot_size other, nr_slots := nr_slots other, nr_used := nr_used other,
        block_id := block_id other\<rparr>"

text \<open>
  \<^verbatim>\<open>Slab::for_each_slot\<close>: visit the allocated slots in order until the callback returns false.
\<close>

primrec visit_slots :: "(nat \<Rightarrow> 's \<Rightarrow> (bool, 's) outcome) \<Rightarrow> nat list \<Rightarrow> 's \<Rightarrow> (unit, 's) outcome" where
  "visit_slots func [] s = Ret () s"
| "visit_slots func (i # is) s =
     seq (func i s) (\<lambda>go s. if go then visit_slots func is s else Ret () s)"

definition for_each_slot :: "slab \<Rightarrow> (nat \<Rightarrow> 's \<Rightarrow> (bool, 's) outcome) \<Rightarrow> 's \<Rightarrow> (unit, 's) outcome" where
  "for_each_slot sl func s = visit_slots func [0..<nr_alloc sl] s"

subsection \<open>The slab as it is written to a block\<close>

text \<open>
  A block holds the bytes of a whole memory slab: the header fields in declaration order, the
  list node (which points to itself, the slab being on no list when it is written), and the
  data area. \<open>addr\<close> is the address of the slab.
\<close>

definition slab_bytes :: "nat \<Rightarrow> slab \<Rightarrow> bytes" where
  "slab_bytes addr sl =
     le_enc 4 (int (sid sl)) @ le_enc 4 (cid sl) @ le_enc 4 (int (nr_alloc sl)) @
     le_enc 4 (int (slot_size sl)) @ le_enc 4 (int (nr_slots sl)) @ le_enc 4 (nr_used sl) @
     le_enc 8 (int addr + 24) @ le_enc 8 (int addr + 24) @ le_enc 4 (block_id sl) @ data sl"

text \<open>The cast of a buffer to \<^verbatim>\<open>Slab *\<close>.\<close>

definition slab_of_bytes :: "bytes \<Rightarrow> slab" where
  "slab_of_bytes bs =
     \<lparr>sid = nat (int32_dec (bread 0 4 bs)), cid = int32_dec (bread 4 4 bs),
      nr_alloc = nat (int32_dec (bread 8 4 bs)), slot_size = nat (int32_dec (bread 12 4 bs)),
      nr_slots = nat (int32_dec (bread 16 4 bs)), nr_used = int32_dec (bread 20 4 bs),
      block_id = int32_dec (bread 40 4 bs), data = drop slab_header_size bs\<rparr>"

subsection \<open>Addresses\<close>

definition align_ptr_up :: "nat \<Rightarrow> nat \<Rightarrow> nat" where
  "align_ptr_up ptr alignment =
     (let remainder = ptr mod alignment
      in if remainder = 0 then ptr else ptr + (alignment - remainder))"

definition align_ptr_down :: "nat \<Rightarrow> nat \<Rightarrow> nat" where
  "align_ptr_down ptr alignment = ptr - ptr mod alignment"

text \<open>\<^verbatim>\<open>slab_by_sid\<close>: memory slabs lie \<open>slab_size\<close> apart, disk slab headers (48 bytes) after them.\<close>

definition slab_addr :: "nat \<Rightarrow> nat \<Rightarrow> nat \<Rightarrow> nat \<Rightarrow> nat" where
  "slab_addr base slab_size nr_mslab i =
     (if i < nr_mslab then base + i * slab_size
      else base + nr_mslab * slab_size + 48 * (i - nr_mslab))"

definition slot_to_slab :: "nat \<Rightarrow> nat \<Rightarrow> nat \<Rightarrow> nat" where
  "slot_to_slab base slab_size slot =
     (let diff = slot - base in align_ptr_down (base + diff) slab_size)"

definition slot_id_of :: "nat \<Rightarrow> nat \<Rightarrow> nat \<Rightarrow> nat \<Rightarrow> nat" where
  "slot_id_of base slab_size slot_sz slot =
     (slot - (slot_to_slab base slab_size slot + slab_header_size)) div slot_sz"

subsection \<open>Reading back what was written\<close>

lemma slot_header_size_simp [simp]: "slot_header_size = 8"
  by (simp add: slot_header_size_def)

lemma slab_header_size_simp [simp]: "slab_header_size = 44"
  by (simp add: slab_header_size_def)

lemma length_slot_Write [simp]:
  "off + slot_size_of key value \<le> length d \<Longrightarrow> length (slot_Write d off key value) = length d"
  by (simp add: slot_Write_def slot_size_of_def Let_def)

lemma slot_Write_lengths:
  assumes "off + slot_size_of key value \<le> length d" and "slot_size_of key value < 2 ^ 31"
  shows "slot_key_len (slot_Write d off key value) off = length key"
    and "slot_value_len (slot_Write d off key value) off = length value"
proof -
  have "bread off 4 (slot_Write d off key value) = le_enc 4 (int (length key))"
    using assms bread_bwrite_same [of off "le_enc 4 (int (length key))" d]
    by (simp add: slot_Write_def slot_size_of_def Let_def bread_bwrite_before)
  moreover have "bread (off + 4) 4 (slot_Write d off key value) = le_enc 4 (int (length value))"
    using assms bread_bwrite_same
      [of "off + 4" "le_enc 4 (int (length value))" "bwrite off (le_enc 4 (int (length key))) d"]
    by (simp add: slot_Write_def slot_size_of_def Let_def bread_bwrite_before)
  ultimately show "slot_key_len (slot_Write d off key value) off = length key"
    and "slot_value_len (slot_Write d off key value) off = length value"
    using assms by (simp_all add: slot_key_len_def slot_value_len_def slot_size_of_def)
qed

lemma slot_kv_Write:
  assumes "off + slot_size_of key value \<le> length d" and "slot_size_of key value < 2 ^ 31"
  shows "slot_kv (slot_Write d off key value) off = (key, value)"
proof -
  note len = slot_Write_lengths [OF assms]
  have "slot_key (slot_Write d off key value) off = key"
    using assms(1) unfolding slot_key_def len
    by (simp add: slot_Write_def slot_size_of_def Let_def bread_bwrite_before bread_bwrite_same)
  moreover have "slot_value (slot_Write d off key value) off = value"
    using assms(1) unfolding slot_value_def len
    by (simp add: slot_Write_def slot_size_of_def Let_def bread_bwrite_same)
  ultimately show ?thesis by (simp add: slot_kv_def)
qed

lemma slot_fits_Write:
  assumes "off + slot_size_of key value \<le> length d" and "slot_size_of key value < 2 ^ 31"
  shows "slot_fits sz (slot_Write d off key value) off \<longleftrightarrow> slot_size_of key value \<le> sz"
  using slot_Write_lengths [OF assms] by (simp add: slot_fits_def slot_size_of_def)

text \<open>A write inside one region of the data area leaves the bytes of any other region.\<close>

lemma bread_slot_Write:
  assumes "off + slot_size_of key value \<le> length d"
    and "off' + n \<le> off \<or> off + slot_size_of key value \<le> off'"
  shows "bread off' n (slot_Write d off key value) = bread off' n d"
  using assms
  by (auto simp: slot_Write_def slot_size_of_def Let_def bread_bwrite_before bread_bwrite_after)

text \<open>What a slot holds is determined by the bytes of its own region.\<close>

lemma slot_region:
  assumes "slot_fits sz d off" and eq: "bread off sz d' = bread off sz d"
  shows "slot_kv d' off = slot_kv d off" and "slot_fits sz d' off"
proof -
  have sub: "bread (off + o') m d' = bread (off + o') m d" if "o' + m \<le> sz" for o' m
    using bread_bread [OF that, of off d'] bread_bread [OF that, of off d] eq by simp
  have "8 \<le> sz" using assms(1) by (simp add: slot_fits_def)
  then have lens: "slot_key_len d' off = slot_key_len d off"
    "slot_value_len d' off = slot_value_len d off"
    using sub [of 0 4] sub [of 4 4] by (simp_all add: slot_key_len_def slot_value_len_def)
  then show "slot_fits sz d' off" using assms(1) by (simp add: slot_fits_def)
  show "slot_kv d' off = slot_kv d off"
    using assms(1) sub [of 8 "slot_key_len d off"]
      sub [of "8 + slot_key_len d off" "slot_value_len d off"]
    by (simp add: slot_kv_def slot_key_def slot_value_def lens slot_fits_def add.assoc)
qed

text \<open>Slots of equal size do not overlap.\<close>

lemma slots_disjoint:
  fixes sz i j :: nat
  assumes "i \<noteq> j"
  shows "sz * j + sz \<le> sz * i \<or> sz * i + sz \<le> sz * j"
proof (cases "i < j")
  case True
  then have "sz * Suc i \<le> sz * j" by (intro mult_le_mono2) simp
  then show ?thesis by simp
next
  case False
  then have "sz * Suc j \<le> sz * i" using assms by (intro mult_le_mono2) simp
  then show ?thesis by simp
qed

lemma slot_Write_other:
  assumes "i \<noteq> j" and "slot_size_of key value \<le> sz" and "sz * i + sz \<le> length d"
    and fits: "slot_fits sz d (sz * j)"
  shows "slot_kv (slot_Write d (sz * i) key value) (sz * j) = slot_kv d (sz * j)"
    and "slot_fits sz (slot_Write d (sz * i) key value) (sz * j)"
proof -
  have "bread (sz * j) sz (slot_Write d (sz * i) key value) = bread (sz * j) sz d"
  proof (rule bread_slot_Write)
    show "sz * i + slot_size_of key value \<le> length d" using assms(2,3) by linarith
    show "sz * j + sz \<le> sz * i \<or> sz * i + slot_size_of key value \<le> sz * j"
      using slots_disjoint [OF assms(1), of sz] assms(2) by linarith
  qed
  then show "slot_kv (slot_Write d (sz * i) key value) (sz * j) = slot_kv d (sz * j)"
    and "slot_fits sz (slot_Write d (sz * i) key value) (sz * j)"
    by (rule slot_region [OF fits])+
qed

subsection \<open>Slabs in memory and on disk\<close>

lemma length_slab_bytes [simp]: "length (slab_bytes addr sl) = 44 + length (data sl)"
  by (simp add: slab_bytes_def)

lemma data_slab_of_bytes [simp]: "data (slab_of_bytes (slab_bytes addr sl)) = data sl"
  by (simp add: slab_of_bytes_def slab_bytes_def)

definition header_in_range :: "slab \<Rightarrow> bool" where
  "header_in_range sl \<longleftrightarrow> int (sid sl) < 2 ^ 31 \<and> - (2 ^ 31) \<le> cid sl \<and> cid sl < 2 ^ 31 \<and>
     int (nr_alloc sl) < 2 ^ 31 \<and> int (slot_size sl) < 2 ^ 31 \<and> int (nr_slots sl) < 2 ^ 31 \<and>
     - (2 ^ 31) \<le> nr_used sl \<and> nr_used sl < 2 ^ 31 \<and>
     - (2 ^ 31) \<le> block_id sl \<and> block_id sl < 2 ^ 31"

lemma slab_of_bytes_slab_bytes:
  "header_in_range sl \<Longrightarrow> slab_of_bytes (slab_bytes addr sl) = sl"
  by (simp add: slab_of_bytes_def slab_bytes_def header_in_range_def bread_def)

text \<open>Alignment: the aligned address is the next (previous) multiple.\<close>

lemma align_ptr_up_spec:
  assumes "0 < a"
  shows "align_ptr_up p a mod a = 0" "p \<le> align_ptr_up p a" "align_ptr_up p a < p + a"
proof -
  have "(p + (a - p mod a)) mod a = 0" if "p mod a \<noteq> 0"
  proof -
    have "p + (a - p mod a) = a * (p div a + 1)"
      using mult_div_mod_eq [of a p] mod_less_divisor [OF assms, of p]
      by (simp only: distrib_left mult_1_right)
    then show ?thesis by simp
  qed
  then show "align_ptr_up p a mod a = 0" by (simp add: align_ptr_up_def Let_def)
  show "p \<le> align_ptr_up p a" "align_ptr_up p a < p + a"
    using assms mod_less_divisor [OF assms, of p] by (auto simp: align_ptr_up_def Let_def)
qed

lemma align_ptr_down_multiple:
  "k < a \<Longrightarrow> align_ptr_down (a * n + k) a = a * n"
  by (simp add: align_ptr_down_def)

text \<open>
  The slot of a memory slab at an aligned base determines its slab and its slot number: the
  address arithmetic of \<^verbatim>\<open>slot_to_slab\<close> and \<^verbatim>\<open>slot_id\<close> inverts that of \<^verbatim>\<open>slab_by_sid\<close> and
  \<^verbatim>\<open>Slab::slot\<close>.
\<close>

lemma slot_to_slab_slot:
  assumes "base mod slab_size = 0" and "44 + sz * n \<le> slab_size" and "i < n" and "0 < sz"
    and "k < nr_mslab"
  shows "slot_to_slab base slab_size (slab_addr base slab_size nr_mslab k + 44 + sz * i) =
      slab_addr base slab_size nr_mslab k"
    and "slot_id_of base slab_size sz (slab_addr base slab_size nr_mslab k + 44 + sz * i) = i"
proof -
  have "sz * Suc i \<le> sz * n" using assms(3) by (intro mult_le_mono2) simp
  then have lt: "44 + sz * i < slab_size" using assms(2,4) by simp
  obtain b where b: "base = slab_size * b" using assms(1) by (auto elim: dvdE)
  have "slab_addr base slab_size nr_mslab k = slab_size * (b + k)"
    using assms(5) b by (simp add: slab_addr_def algebra_simps)
  moreover have "align_ptr_down (slab_size * (b + k) + (44 + sz * i)) slab_size = slab_size * (b + k)"
    by (rule align_ptr_down_multiple [OF lt])
  moreover have "slab_size * b \<le> slab_size * (b + k) + (44 + sz * i)"
    by (simp add: distrib_left)
  ultimately show *: "slot_to_slab base slab_size (slab_addr base slab_size nr_mslab k + 44 + sz * i)
      = slab_addr base slab_size nr_mslab k"
    by (simp add: slot_to_slab_def b add.assoc)
  show "slot_id_of base slab_size sz (slab_addr base slab_size nr_mslab k + 44 + sz * i) = i"
    using assms(4) by (simp add: slot_id_of_def *)
qed

lemma visit_slots_all:
  "(\<And>i s. i \<in> set is \<Longrightarrow> f i s = Ret True (g i s)) \<Longrightarrow> visit_slots f is s = Ret () (fold g is s)"
  by (induction "is" arbitrary: s) simp_all

text \<open>Loop rule for \<^verbatim>\<open>for_each_slot\<close> with a callback that always goes on.\<close>

lemma safe_visit_slots:
  assumes "\<And>i s. a \<le> i \<Longrightarrow> i < b \<Longrightarrow> P i s \<Longrightarrow> safe I (\<lambda>go s'. go \<and> P (Suc i) s') (func i s)"
    and "a \<le> b" and "P a s"
  shows "safe I (\<lambda>_ s'. P b s') (visit_slots func [a..<b] s)"
  using assms(2) assms
proof (induction arbitrary: s rule: inc_induct)
  case base
  then show ?case by simp
next
  case (step i)
  have "safe I (\<lambda>_ s'. P b s') (visit_slots func [Suc i..<b] s')" if "P (Suc i) s'" for s'
    using step that by auto
  moreover have "safe I (\<lambda>go s'. go \<and> P (Suc i) s') (func i s)" using step by simp
  ultimately show ?case
    using \<open>i < b\<close> by (simp add: upt_conv_Cons) (erule safe_weaken, simp)
qed

subsection \<open>Properties\<close>

text \<open>
  C31: what \<^verbatim>\<open>Slot::Write\<close> stores is what \<^verbatim>\<open>Slot::key\<close> and \<^verbatim>\<open>Slot::value\<close> return, and a write into
  slot \<open>i\<close> of a slab changes no other slot \<open>j\<close> whose contents fit.
\<close>

theorem slot_roundtrip:
  assumes "slot_size_of key v \<le> sz" and "sz * i + sz \<le> length d" and "sz < 2 ^ 31"
  shows "slot_kv (slot_Write d (sz * i) key v) (sz * i) = (key, v) \<and>
    (\<forall>j. j \<noteq> i \<and> slot_fits sz d (sz * j) \<longrightarrow>
      slot_kv (slot_Write d (sz * i) key v) (sz * j) = slot_kv d (sz * j))"
proof (intro conjI allI impI)
  show "slot_kv (slot_Write d (sz * i) key v) (sz * i) = (key, v)"
    using assms by (intro slot_kv_Write) linarith+
  show "slot_kv (slot_Write d (sz * i) key v) (sz * j) = slot_kv d (sz * j)"
    if "j \<noteq> i \<and> slot_fits sz d (sz * j)" for j
    using that assms by (intro slot_Write_other(1)) auto
qed

theorem slot_roundtrip_witness:
  "slot_kv (slot_Write (replicate 32 0) 16 [1, 2] [3]) 16 = ([1, 2], [3]) \<and>
   slot_kv (slot_Write (replicate 32 0) 16 [1, 2] [3]) 0 = slot_kv (replicate 32 0) 0"
proof -
  have a: "slot_size_of [1, 2] [3] \<le> 16" "16 * 1 + 16 \<le> length (replicate 32 (0 :: byte))" "(16 :: nat) < 2 ^ 31"
    by (simp_all add: slot_size_of_def)
  have "slot_fits 16 (replicate 32 0) (16 * 0)" by code_simp
  with slot_roundtrip [OF a] show ?thesis by (auto dest: spec [of _ 0])
qed



text \<open>
  C33: address arithmetic. For memory slabs laid out from an aligned base, the address of slot \<open>i\<close>
  of slab \<open>k\<close> gives back the address of the slab and the number of the slot.
\<close>

theorem slot_address_roundtrip:
  assumes "base = align_ptr_up start slab_size" and "44 + sz * n \<le> slab_size" and "i < n" and "0 < sz" and "k < nr_mslab"
  shows "slot_to_slab base slab_size (slab_addr base slab_size nr_mslab k + 44 + sz * i) = slab_addr base slab_size nr_mslab k \<and>
    slot_id_of base slab_size sz (slab_addr base slab_size nr_mslab k + 44 + sz * i) = i"
proof -
  have "0 < slab_size" using assms(2) by linarith
  then have "base mod slab_size = 0" using align_ptr_up_spec(1) assms(1) by simp
  from slot_to_slab_slot [OF this assms(2-5)] show ?thesis by blast
qed

theorem slot_address_roundtrip_witness:
  "slot_to_slab 128 64 (slab_addr 128 64 3 2 + 44 + 10 * 1) = slab_addr 128 64 3 2 \<and>
   slot_id_of 128 64 10 (slab_addr 128 64 3 2 + 44 + 10 * 1) = 1"
  by (rule slot_address_roundtrip [of 128 100 64 10 2 1 2 3]) (simp_all add: align_ptr_up_def)

end
