(* ===== verification/KV_Status.thy ===== *)
theory KV_Status
  imports KV_Prelude
begin

text \<open>
  \<^verbatim>\<open>include/status.h\<close> and \<^verbatim>\<open>src/status.cpp\<close>: the result code every public operation returns,
  with its message.
\<close>

datatype Code = kOK | kNotFound | kCorruption | kObjectTooLarge | kBufferTooSmall | kShutdown

record Status =
  st_code :: Code
  st_msg :: string

definition Status_ok :: "Status \<Rightarrow> bool" where
  "Status_ok st \<longleftrightarrow> st_code st = kOK"

definition Status_shutdown :: "Status \<Rightarrow> bool" where
  "Status_shutdown st \<longleftrightarrow> st_code st = kShutdown"

definition Status_not_found :: "Status \<Rightarrow> bool" where
  "Status_not_found st \<longleftrightarrow> st_code st = kNotFound"

definition Status_object_too_large :: "Status \<Rightarrow> bool" where
  "Status_object_too_large st \<longleftrightarrow> st_code st = kObjectTooLarge"

definition Status_buffer_too_small :: "Status \<Rightarrow> bool" where
  "Status_buffer_too_small st \<longleftrightarrow> st_code st = kBufferTooSmall"

definition Shutdown :: "string \<Rightarrow> Status" where
  "Shutdown msg = \<lparr>st_code = kShutdown, st_msg = msg\<rparr>"

definition OK :: Status where
  "OK = \<lparr>st_code = kOK, st_msg = ''''\<rparr>"

definition NotFound :: "string \<Rightarrow> Status" where
  "NotFound msg = \<lparr>st_code = kNotFound, st_msg = msg\<rparr>"

definition Corruption :: "string \<Rightarrow> Status" where
  "Corruption msg = \<lparr>st_code = kCorruption, st_msg = msg\<rparr>"

definition ObjectTooLarge :: "string \<Rightarrow> Status" where
  "ObjectTooLarge msg = \<lparr>st_code = kObjectTooLarge, st_msg = msg\<rparr>"

definition BufferTooSmall :: "string \<Rightarrow> Status" where
  "BufferTooSmall msg = \<lparr>st_code = kBufferTooSmall, st_msg = msg\<rparr>"

lemmas status_defs =
  Status_ok_def Status_shutdown_def Status_not_found_def Status_object_too_large_def
  Status_buffer_too_small_def Shutdown_def OK_def NotFound_def Corruption_def
  ObjectTooLarge_def BufferTooSmall_def

lemma Status_ok_simps [simp]:
  "Status_ok OK" "\<not> Status_ok (NotFound m)" "\<not> Status_ok (Corruption m)"
  "\<not> Status_ok (ObjectTooLarge m)" "\<not> Status_ok (BufferTooSmall m)" "\<not> Status_ok (Shutdown m)"
  by (simp_all add: status_defs)

lemma Status_distinct [simp]:
  "OK \<noteq> NotFound m" "NotFound m \<noteq> OK" "OK \<noteq> ObjectTooLarge m" "ObjectTooLarge m \<noteq> OK"
  "OK \<noteq> Shutdown m" "Shutdown m \<noteq> OK" "OK \<noteq> BufferTooSmall m" "BufferTooSmall m \<noteq> OK"
  "OK \<noteq> Corruption m" "Corruption m \<noteq> OK"
  by (simp_all add: status_defs)

end
