(* ===== verification/KV_SSD.thy ===== *)
theory KV_SSD
  imports KV_Prelude KV_Status
begin

text \<open>
  The block device of \<^verbatim>\<open>include/ssd.h\<close> and \<^verbatim>\<open>src/ssd.cpp\<close>: blocks of fixed size spread over
  channels, stored either in a raw device (\<^verbatim>\<open>pread\<close>/\<^verbatim>\<open>pwrite\<close> at a computed offset) or in a
  RocksDB database under the key \<^verbatim>\<open>/blocks/<channel>/<block>\<close>. RocksDB is not part of the
  repository: its operations are the fields of the record \<open>rocksdb\<close> and \<open>rocksdb_laws\<close> states
  what the code relies on. The locale \<open>block_store\<close> is the interface the cache uses.
\<close>

subsection \<open>RocksDB\<close>

text \<open>
  \<open>db_open path p\<close>: \<^verbatim>\<open>DB::Open\<close> on a path whose stored contents are \<open>p\<close> (\<open>None\<close>: a status that is
  not ok). \<open>db_get\<close>: \<^verbatim>\<open>Get\<close>, \<open>None\<close> for a status that is not ok. \<open>db_put\<close>: \<^verbatim>\<open>Put\<close>, with whether
  the status is ok. \<open>db_seek db k\<close>: the keys an iterator yields after \<^verbatim>\<open>Seek(k)\<close>, in order.
\<close>

record 'db rocksdb =
  db_open :: "string \<Rightarrow> 'db \<Rightarrow> 'db option"
  db_get :: "'db \<Rightarrow> string \<Rightarrow> bytes option"
  db_put :: "'db \<Rightarrow> string \<Rightarrow> bytes \<Rightarrow> bool \<times> 'db"
  db_seek :: "'db \<Rightarrow> string \<Rightarrow> string list"

text \<open>A successful \<^verbatim>\<open>Put\<close> is visible to \<^verbatim>\<open>Get\<close>; no \<^verbatim>\<open>Put\<close> changes another key.\<close>

definition rocksdb_laws :: "'db rocksdb \<Rightarrow> bool" where
  "rocksdb_laws R \<longleftrightarrow>
     (\<forall>db k v db'. db_put R db k v = (True, db') \<longrightarrow> db_get R db' k = Some v) \<and>
     (\<forall>db k v ok db' k'. db_put R db k v = (ok, db') \<longrightarrow> k' \<noteq> k \<longrightarrow>
        db_get R db' k' = db_get R db k')"

subsection \<open>Numbers as text\<close>

text \<open>\<^verbatim>\<open>std::to_string\<close> and the \<^verbatim>\<open>{}\<close> of \<^verbatim>\<open>std::format\<close> on \<^verbatim>\<open>int\<close>.\<close>

definition digit :: "nat \<Rightarrow> char" where
  "digit n = char_of (48 + n)"

fun nat_string :: "nat \<Rightarrow> string" where
  "nat_string n = (if n < 10 then [digit n] else nat_string (n div 10) @ [digit (n mod 10)])"

declare nat_string.simps [simp del]

definition to_string :: "int \<Rightarrow> string" where
  "to_string x = (if x < 0 then CHR ''-'' # nat_string (nat (- x)) else nat_string (nat x))"

definition is_digit :: "char \<Rightarrow> bool" where
  "is_digit c \<longleftrightarrow> (48::nat) \<le> of_char c \<and> of_char c \<le> (57::nat)"

definition is_space :: "char \<Rightarrow> bool" where
  "is_space c \<longleftrightarrow> of_char c = (32::nat) \<or> ((9::nat) \<le> of_char c \<and> of_char c \<le> (13::nat))"

definition digits_value :: "string \<Rightarrow> nat" where
  "digits_value ds = foldl (\<lambda>n c. 10 * n + (of_char c - 48)) 0 ds"

text \<open>
  \<^verbatim>\<open>std::stoi\<close>: leading white space, an optional sign, at least one digit; it throws when there
  is no digit or the number does not fit.
\<close>

definition stoi :: "string \<Rightarrow> string + int" where
  "stoi s =
     (let t = dropWhile is_space s;
          neg = (t \<noteq> [] \<and> hd t = CHR ''-'');
          u = (if t \<noteq> [] \<and> (hd t = CHR ''-'' \<or> hd t = CHR ''+'') then tl t else t);
          ds = takeWhile is_digit u;
          v = (if neg then - int (digits_value ds) else int (digits_value ds))
      in if ds = [] then Inl ''stoi''
         else if v < - (2 ^ 31) \<or> 2 ^ 31 \<le> v then Inl ''stoi: out of range''
         else Inr v)"

subsection \<open>The device\<close>

record 'db ssd =
  nr_channels :: int
  nr_blocks :: int
  block_size :: int
  blocks_per_channel :: int
  is_dev :: bool
  dstart :: int
  dev :: bytes
  db :: 'db

record block =
  blk_block_id :: int
  blk_channel_id :: int

definition channel_id :: "'db ssd \<Rightarrow> int \<Rightarrow> int" where
  "channel_id ssd b = b div blocks_per_channel ssd"

definition get_block :: "'db ssd \<Rightarrow> int \<Rightarrow> block" where
  "get_block ssd b = \<lparr>blk_block_id = b, blk_channel_id = b div blocks_per_channel ssd\<rparr>"

definition block_key :: "int \<Rightarrow> int \<Rightarrow> string" where
  "block_key channel b = ''/blocks/'' @ to_string channel @ ''/'' @ to_string b"

text \<open>
  \<^verbatim>\<open>pread\<close> and \<^verbatim>\<open>pwrite\<close> on a device of fixed length: a negative offset is an error, and both
  stop at the end of the device. The product \<^verbatim>\<open>block_id * block_size_\<close> is computed in 32-bit
  \<^verbatim>\<open>int\<close> before it is added to the 64-bit offset.
\<close>

definition block_offset :: "'db ssd \<Rightarrow> int \<Rightarrow> int" where
  "block_offset ssd b = dstart ssd + s32 (b * block_size ssd)"

definition pread :: "bytes \<Rightarrow> nat \<Rightarrow> int \<Rightarrow> bytes option" where
  "pread d n off = (if off < 0 then None else Some (bread (nat off) n d))"

definition pwrite :: "bytes \<Rightarrow> bytes \<Rightarrow> int \<Rightarrow> int \<times> bytes" where
  "pwrite d v off =
     (if off < 0 then (-1, d)
      else let w = take (length d - nat off) v in (int (length w), bwrite (nat off) w d))"

definition block_read :: "'db rocksdb \<Rightarrow> 'db ssd \<Rightarrow> block \<Rightarrow> Status + bytes" where
  "block_read R ssd blk =
     (if is_dev ssd then
        (case pread (dev ssd) (nat (block_size ssd)) (block_offset ssd (blk_block_id blk)) of
           None \<Rightarrow> Inl (Corruption ''read failed'')
         | Some buf \<Rightarrow>
             if int (length buf) \<noteq> block_size ssd then Inl (Corruption ''read failed'')
             else Inr buf)
      else
        (case db_get R (db ssd) (block_key (blk_channel_id blk) (blk_block_id blk)) of
           None \<Rightarrow> Inl (Corruption ''read failed'')
         | Some v \<Rightarrow> Inr v))"

definition block_write :: "'db rocksdb \<Rightarrow> 'db ssd \<Rightarrow> block \<Rightarrow> bytes \<Rightarrow> Status \<times> 'db ssd" where
  "block_write R ssd blk v =
     (if is_dev ssd then
        (case pwrite (dev ssd) v (block_offset ssd (blk_block_id blk)) of
           (nwrite, d) \<Rightarrow>
             (if nwrite \<noteq> int (length v) then Corruption ''write failed: %s'' else OK,
              ssd\<lparr>dev := d\<rparr>))
      else
        (case db_put R (db ssd) (block_key (blk_channel_id blk) (blk_block_id blk)) v of
           (ok, d) \<Rightarrow> (if \<not> ok then Corruption ''write failed'' else OK, ssd\<lparr>db := d\<rparr>)))"

definition read_block :: "'db rocksdb \<Rightarrow> 'db ssd \<Rightarrow> int \<Rightarrow> Status + bytes" where
  "read_block R ssd b = block_read R ssd (get_block ssd b)"

definition write_block :: "'db rocksdb \<Rightarrow> 'db ssd \<Rightarrow> int \<Rightarrow> bytes \<Rightarrow> Status \<times> 'db ssd" where
  "write_block R ssd b v = block_write R ssd (get_block ssd b) v"

subsection \<open>Decimal text\<close>

lemma of_char_digit: "n < 10 \<Longrightarrow> of_char (digit n) = 48 + n"
  by (simp add: digit_def)

lemma is_digit_digit [simp]: "n < 10 \<Longrightarrow> is_digit (digit n)"
  by (simp add: is_digit_def of_char_digit)

lemma nat_string_nonempty [simp]: "nat_string n \<noteq> []"
  by (subst nat_string.simps) simp

lemma nat_string_digits: "c \<in> set (nat_string n) \<Longrightarrow> is_digit c"
proof (induction n rule: nat_string.induct)
  case (1 n)
  then show ?case
    by (cases "n < 10") (auto simp: nat_string.simps [of n])
qed

lemma digits_value_snoc: "digits_value (ds @ [c]) = 10 * digits_value ds + (of_char c - 48)"
  by (simp add: digits_value_def)

lemma digits_value_nat_string [simp]: "digits_value (nat_string n) = n"
proof (induction n rule: nat_string.induct)
  case (1 n)
  show ?case
  proof (cases "n < 10")
    case True
    then show ?thesis by (simp add: nat_string.simps [of n] digits_value_def of_char_digit)
  next
    case False
    with 1 show ?thesis
      by (simp add: nat_string.simps [of n] digits_value_snoc of_char_digit)
  qed
qed

lemma is_digit_not_special: "is_digit c \<Longrightarrow> c \<noteq> CHR ''-'' \<and> c \<noteq> CHR ''+'' \<and> c \<noteq> CHR ''/'' \<and> \<not> is_space c"
  by (auto simp: is_digit_def is_space_def)

lemma nat_string_hd: "is_digit (hd (nat_string n))"
  using nat_string_digits [of "hd (nat_string n)" n] by simp

lemma takeWhile_nat_string [simp]: "takeWhile is_digit (nat_string n) = nat_string n"
  by (simp add: takeWhile_eq_all_conv nat_string_digits)

lemma dropWhile_space_nat_string [simp]: "dropWhile is_space (nat_string n) = nat_string n"
  using nat_string_hd [of n] is_digit_not_special [of "hd (nat_string n)"]
  by (cases "nat_string n") auto

lemma stoi_nat_string: "int n < 2 ^ 31 \<Longrightarrow> stoi (nat_string n) = Inr (int n)"
  using nat_string_hd [of n] is_digit_not_special [of "hd (nat_string n)"]
  by (simp add: stoi_def Let_def)

lemma stoi_to_string:
  assumes "- (2 ^ 31) \<le> x" and "x < 2 ^ 31"
  shows "stoi (to_string x) = Inr x"
proof (cases "x < 0")
  case True
  then show ?thesis
    using assms by (simp add: stoi_def to_string_def Let_def is_space_def)
next
  case False
  with assms show ?thesis using stoi_nat_string [of "nat x"] by (simp add: to_string_def)
qed

lemma to_string_inj: "to_string x = to_string y \<longleftrightarrow> x = y"
proof -
  have neg: "CHR ''-'' # ds \<noteq> nat_string n" for ds n
    using nat_string_hd [of n] is_digit_not_special [of "hd (nat_string n)"]
    by (cases "nat_string n") auto
  have "nat_string m = nat_string n \<longleftrightarrow> m = n" for m n
    by (metis digits_value_nat_string)
  then show ?thesis
    using neg by (auto simp: to_string_def) (metis)+
qed

lemma slash_notin_to_string: "CHR ''/'' \<notin> set (to_string x)"
  using is_digit_not_special by (auto simp: to_string_def dest: nat_string_digits)

lemma append_sep_inj:
  "x \<notin> set as \<Longrightarrow> x \<notin> set as' \<Longrightarrow> as @ x # bs = as' @ x # bs' \<Longrightarrow> as = as' \<and> bs = bs'"
  by (induction as arbitrary: as') (case_tac as'; auto)+

lemma block_key_inj: "block_key c b = block_key c' b' \<longleftrightarrow> c = c' \<and> b = b'"
  using append_sep_inj [of "CHR ''/''" "to_string c" "to_string c'" "to_string b" "to_string b'"]
  by (auto simp: block_key_def slash_notin_to_string to_string_inj)

subsection \<open>The block store the cache uses\<close>

text \<open>
  What the cache relies on: a block that was written successfully reads back as written, and a
  write, successful or not, changes no other block.
\<close>

locale block_store =
  fixes rd :: "'d \<Rightarrow> int \<Rightarrow> Status + bytes"
    and wr :: "'d \<Rightarrow> int \<Rightarrow> bytes \<Rightarrow> Status \<times> 'd"
    and ok :: "'d \<Rightarrow> bool"
    and nblk :: "'d \<Rightarrow> int"
    and bsize :: "'d \<Rightarrow> int"
  assumes wr_keeps: "ok d \<Longrightarrow> 0 \<le> b \<Longrightarrow> b < nblk d \<Longrightarrow> int (length v) = bsize d \<Longrightarrow>
      wr d b v = (st, d') \<Longrightarrow> ok d' \<and> nblk d' = nblk d \<and> bsize d' = bsize d"
    and rd_wr_same: "ok d \<Longrightarrow> 0 \<le> b \<Longrightarrow> b < nblk d \<Longrightarrow> int (length v) = bsize d \<Longrightarrow>
      wr d b v = (st, d') \<Longrightarrow> Status_ok st \<Longrightarrow> rd d' b = Inr v"
    and rd_wr_other: "ok d \<Longrightarrow> 0 \<le> b \<Longrightarrow> b < nblk d \<Longrightarrow> int (length v) = bsize d \<Longrightarrow>
      wr d b v = (st, d') \<Longrightarrow> 0 \<le> b' \<Longrightarrow> b' < nblk d \<Longrightarrow> b' \<noteq> b \<Longrightarrow> rd d' b' = rd d b'"
begin

text \<open>After two writes to different blocks, both read back whatever their order.\<close>

lemma rd_two_writes:
  assumes ok: "ok d" and b: "0 \<le> b" "b < nblk d" and c: "0 \<le> c" "c < nblk d" "b \<noteq> c"
    and len: "int (length v) = bsize d" "int (length w) = bsize d"
    and w1: "wr d b v = (st1, d1)" "Status_ok st1" and w2: "wr d1 c w = (st2, d2)" "Status_ok st2"
  shows "rd d2 b = Inr v" and "rd d2 c = Inr w"
proof -
  have d1: "ok d1" "nblk d1 = nblk d" "bsize d1 = bsize d"
    using wr_keeps [OF ok b len(1) w1(1)] by auto
  show "rd d2 c = Inr w" using rd_wr_same [of d1 c w] d1 c len w2 by simp
  have "rd d2 b = rd d1 b" using rd_wr_other [of d1 c w st2 d2 b] d1 b c len w2 by simp
  also have "\<dots> = Inr v" using rd_wr_same [OF ok b len(1) w1] .
  finally show "rd d2 b = Inr v" .
qed

end

text \<open>
  The device is usable: its geometry is positive, a raw device is long enough and small enough
  for the 32-bit offset computation, and otherwise RocksDB behaves.
\<close>

definition ssd_ok :: "'db rocksdb \<Rightarrow> 'db ssd \<Rightarrow> bool" where
  "ssd_ok R ssd \<longleftrightarrow> 0 < nr_channels ssd \<and> 0 < blocks_per_channel ssd \<and> 0 < block_size ssd \<and>
     nr_blocks ssd = blocks_per_channel ssd * nr_channels ssd \<and>
     (if is_dev ssd
      then 0 \<le> dstart ssd \<and> nr_blocks ssd * block_size ssd \<le> 2 ^ 31 \<and>
        dstart ssd + nr_blocks ssd * block_size ssd \<le> int (length (dev ssd))
      else rocksdb_laws R)"

lemma channel_id_less:
  assumes ok: "ssd_ok R ssd" and b: "0 \<le> b" "b < nr_blocks ssd"
  shows "0 \<le> channel_id ssd b" and "channel_id ssd b < nr_channels ssd"
proof -
  have pos: "0 < blocks_per_channel ssd" "nr_blocks ssd = blocks_per_channel ssd * nr_channels ssd"
    using ok by (simp_all add: ssd_ok_def)
  show "0 \<le> channel_id ssd b" using b pos by (simp add: channel_id_def pos_imp_zdiv_nonneg_iff)
  show "channel_id ssd b < nr_channels ssd"
    unfolding channel_id_def
  proof (rule ccontr)
    assume "\<not> b div blocks_per_channel ssd < nr_channels ssd"
    then have "blocks_per_channel ssd * nr_channels ssd \<le> blocks_per_channel ssd * (b div blocks_per_channel ssd)"
      using pos by (intro mult_left_mono) auto
    also have "\<dots> \<le> b"
      using mult_div_mod_eq [of "blocks_per_channel ssd" b] pos_mod_sign [OF pos(1), of b] by linarith
    finally show False using b(2) pos(2) by simp
  qed
qed

lemma write_block_frame:
  "write_block R ssd b v = (st, ssd') \<Longrightarrow>
   nr_channels ssd' = nr_channels ssd \<and> nr_blocks ssd' = nr_blocks ssd \<and>
   block_size ssd' = block_size ssd \<and> blocks_per_channel ssd' = blocks_per_channel ssd \<and>
   is_dev ssd' = is_dev ssd \<and> dstart ssd' = dstart ssd"
  by (auto simp: write_block_def block_write_def Let_def split: if_splits prod.splits)

lemma block_offset_in_range:
  assumes "ssd_ok R ssd" and "is_dev ssd" and "0 \<le> b" and "b < nr_blocks ssd"
  shows "block_offset ssd b = dstart ssd + b * block_size ssd"
    and "0 \<le> block_offset ssd b"
    and "block_offset ssd b + block_size ssd \<le> int (length (dev ssd))"
proof -
  have pos: "0 < block_size ssd" "0 \<le> dstart ssd" using assms by (auto simp: ssd_ok_def)
  have "(b + 1) * block_size ssd \<le> nr_blocks ssd * block_size ssd"
    using assms(4) pos by (intro mult_right_mono) auto
  then have le: "b * block_size ssd + block_size ssd \<le> nr_blocks ssd * block_size ssd"
    by (simp add: distrib_right)
  have bound: "nr_blocks ssd * block_size ssd \<le> 2 ^ 31"
    "dstart ssd + nr_blocks ssd * block_size ssd \<le> int (length (dev ssd))"
    using assms by (auto simp: ssd_ok_def)
  have "0 \<le> b * block_size ssd" using assms(3) pos by simp
  then have "s32 (b * block_size ssd) = b * block_size ssd"
    using le bound pos by (intro s32_id) auto
  then show "block_offset ssd b = dstart ssd + b * block_size ssd"
    by (simp add: block_offset_def)
  then show "0 \<le> block_offset ssd b" "block_offset ssd b + block_size ssd \<le> int (length (dev ssd))"
    using \<open>0 \<le> b * block_size ssd\<close> le bound pos by auto
qed

lemma block_offsets_disjoint:
  assumes "ssd_ok R ssd" and "is_dev ssd" and "0 \<le> b" "b < nr_blocks ssd" "0 \<le> b'" "b' < nr_blocks ssd"
    and "b \<noteq> b'"
  shows "block_offset ssd b + block_size ssd \<le> block_offset ssd b' \<or>
    block_offset ssd b' + block_size ssd \<le> block_offset ssd b"
proof -
  have pos: "0 \<le> block_size ssd" using assms(1) by (simp add: ssd_ok_def)
  have "(x + 1) * block_size ssd \<le> y * block_size ssd" if "x < y" for x y :: int
    using that pos by (intro mult_right_mono) auto
  then have "b * block_size ssd + block_size ssd \<le> b' * block_size ssd \<or>
      b' * block_size ssd + block_size ssd \<le> b * block_size ssd"
    using assms(7) by (auto simp: distrib_right linorder_neq_iff)
  then show ?thesis
    using block_offset_in_range(1) [OF assms(1,2)] assms(3-6) by auto
qed

lemma pwrite_full:
  "0 \<le> off \<Longrightarrow> off + int (length v) \<le> int (length d) \<Longrightarrow>
   pwrite d v off = (int (length v), bwrite (nat off) v d)"
  by (simp add: pwrite_def Let_def)

text \<open>On a raw device a write of a whole block replaces its bytes, and a read finds the bytes at its offset.\<close>

lemma write_block_dev:
  assumes "ssd_ok R d" "is_dev d" and "0 \<le> b" "b < nr_blocks d" and "int (length v) = block_size d"
  shows "write_block R d b v = (OK, d\<lparr>dev := bwrite (nat (block_offset d b)) v (dev d)\<rparr>)"
  using block_offset_in_range [OF assms(1-4)] assms(2,5)
  by (simp add: write_block_def block_write_def get_block_def pwrite_full)

lemma read_block_dev:
  assumes "ssd_ok R d" "is_dev d" and "0 \<le> b" "b < nr_blocks d"
  shows "read_block R (d\<lparr>dev := e\<rparr>) b = (let v = bread (nat (block_offset d b)) (nat (block_size d)) e
    in if int (length v) \<noteq> block_size d then Inl (Corruption ''read failed'') else Inr v)"
  using block_offset_in_range(2) [OF assms] assms(2)
  by (simp add: read_block_def block_read_def get_block_def pread_def block_offset_def Let_def)

lemma read_written_dev:
  assumes ok: "ssd_ok R d" "is_dev d" and b: "0 \<le> b" "b < nr_blocks d" and len: "int (length v) = block_size d"
  shows "read_block R (d\<lparr>dev := bwrite (nat (block_offset d b)) v (dev d)\<rparr>) b = Inr v"
proof -
  have n: "nat (block_size d) = length v" using len by simp
  have "bread (nat (block_offset d b)) (length v) (bwrite (nat (block_offset d b)) v (dev d)) = v"
    using block_offset_in_range [OF ok b] len by (intro bread_bwrite_same) linarith
  then show ?thesis using len by (simp add: read_block_dev [OF ok b] n)
qed

lemma read_other_dev:
  assumes ok: "ssd_ok R d" "is_dev d" and b: "0 \<le> b" "b < nr_blocks d" and len: "int (length v) = block_size d"
    and b': "0 \<le> b'" "b' < nr_blocks d" "b' \<noteq> b"
  shows "read_block R (d\<lparr>dev := bwrite (nat (block_offset d b)) v (dev d)\<rparr>) b' = read_block R d b'"
proof -
  note off = block_offset_in_range [OF ok b] and off' = block_offset_in_range [OF ok b'(1,2)]
  have "bread (nat (block_offset d b')) (nat (block_size d)) (bwrite (nat (block_offset d b)) v (dev d)) =
      bread (nat (block_offset d b')) (nat (block_size d)) (dev d)"
    using block_offsets_disjoint [OF ok b'(1,2) b b'(3)]
  proof
    assume "block_offset d b' + block_size d \<le> block_offset d b"
    then show ?thesis using off off' len by (intro bread_bwrite_before) linarith+
  next
    assume "block_offset d b + block_size d \<le> block_offset d b'"
    then show ?thesis using off off' len by (intro bread_bwrite_after) linarith+
  qed
  then show ?thesis using read_block_dev [OF ok b'(1,2), of "dev d"] by (simp add: read_block_dev [OF ok b'(1,2)])
qed

text \<open>In a database every block has a key of its own.\<close>

lemma read_write_db:
  assumes "rocksdb_laws R" and "\<not> is_dev d" and "write_block R d b v = (st, d')"
  shows "Status_ok st \<Longrightarrow> read_block R d' b = Inr v" and "b' \<noteq> b \<Longrightarrow> read_block R d' b' = read_block R d b'"
proof -
  have "block_key c' b' \<noteq> block_key c b" if "b' \<noteq> b" for c c' using that by (simp add: block_key_inj)
  then show "b' \<noteq> b \<Longrightarrow> read_block R d' b' = read_block R d b'" "Status_ok st \<Longrightarrow> read_block R d' b = Inr v"
    using assms by (auto simp: write_block_def block_write_def read_block_def block_read_def get_block_def
        rocksdb_laws_def split: prod.splits if_splits)
qed

text \<open>Both back ends of the device provide the block store.\<close>

interpretation bs: block_store "read_block R" "write_block R" "ssd_ok R" nr_blocks block_size
  for R :: "'db rocksdb"
proof unfold_locales
  fix d d' :: "'db ssd" and b :: int and v st
  assume ok: "ssd_ok R d" and b: "0 \<le> b" "b < nr_blocks d" and len: "int (length v) = block_size d"
    and w: "write_block R d b v = (st, d')"
  note dev = write_block_dev [OF ok _ b len, unfolded w]
  have laws: "rocksdb_laws R" if "\<not> is_dev d" using ok that by (simp add: ssd_ok_def)
  have "length (dev d') = length (dev d)" if "is_dev d"
    using dev [OF that] block_offset_in_range [OF ok that b] len by auto
  then show "ssd_ok R d' \<and> nr_blocks d' = nr_blocks d \<and> block_size d' = block_size d"
    using ok write_block_frame [OF w] by (auto simp: ssd_ok_def split: if_splits)
  show "read_block R d' b = Inr v" if "Status_ok st"
    using read_written_dev [OF ok _ b len] dev read_write_db(1) [OF laws _ w that] by (cases "is_dev d") auto
  show "read_block R d' b' = read_block R d b'" if "0 \<le> b'" "b' < nr_blocks d" "b' \<noteq> b" for b'
    using read_other_dev [OF ok _ b len that] dev read_write_db(2) [OF laws _ w that(3)] by (cases "is_dev d") auto
qed

subsection \<open>Properties\<close>

text \<open>A database that is a map, and a small device on it.\<close>

definition map_db :: "(string \<Rightarrow> bytes option) rocksdb" where
  "map_db = \<lparr>db_open = (\<lambda>_ m. Some m), db_get = (\<lambda>m k. m k),
     db_put = (\<lambda>m k v. (True, m(k := Some v))), db_seek = (\<lambda>m k. [])\<rparr>"

definition small_ssd :: "(string \<Rightarrow> bytes option) ssd" where
  "small_ssd = \<lparr>nr_channels = 1, nr_blocks = 2, block_size = 2, blocks_per_channel = 2,
     is_dev = False, dstart = 0, dev = [], db = (\<lambda>_. None)\<rparr>"

text \<open>
  C27: the block device. A block that was written with status OK reads back as written, and a
  write, successful or not, leaves every other block as it was, on a raw device and on RocksDB.
\<close>

theorem block_roundtrip:
  assumes "ssd_ok R d" and "0 \<le> b" "b < nr_blocks d" and "int (length v) = block_size d"
    and "write_block R d b v = (st, d')"
  shows "ssd_ok R d' \<and> (Status_ok st \<longrightarrow> read_block R d' b = Inr v) \<and>
    (\<forall>b'. 0 \<le> b' \<and> b' < nr_blocks d \<and> b' \<noteq> b \<longrightarrow> read_block R d' b' = read_block R d b')"
  using bs.wr_keeps [OF assms] bs.rd_wr_same [OF assms] bs.rd_wr_other [OF assms] by blast

theorem block_roundtrip_witness:
  "read_block map_db (snd (write_block map_db small_ssd 1 [7, 8])) 1 = Inr [7, 8] \<and>
   read_block map_db (snd (write_block map_db small_ssd 1 [7, 8])) 0 = read_block map_db small_ssd 0"
proof -
  have w: "write_block map_db small_ssd 1 [7, 8] =
      (OK, small_ssd\<lparr>db := [block_key 0 1 \<mapsto> [7, 8]]\<rparr>)"
    by (simp add: write_block_def block_write_def get_block_def small_ssd_def map_db_def)
  have "ssd_ok map_db small_ssd"
    by (auto simp: ssd_ok_def small_ssd_def rocksdb_laws_def map_db_def)
  from block_roundtrip [OF this, of 1 "[7, 8]"] w show ?thesis by (simp add: small_ssd_def)
qed

text \<open>
  C39: the offset of a block is the product \<^verbatim>\<open>block_id * block_size_\<close> in 32-bit \<^verbatim>\<open>int\<close>. On a raw
  device of 2 GiB and more it wraps: the blocks of the second 2 GiB lie 4 GiB too low, and two
  blocks 4 GiB apart are the same bytes.
\<close>

theorem block_offset_wraps:
  assumes "is_dev d" and "block_size d = 2 ^ k" and "k \<le> 32"
  shows "block_offset d (b + 2 ^ (32 - k)) = block_offset d b \<and> read_block R d (b + 2 ^ (32 - k)) = read_block R d b \<and>
    (2 ^ 31 \<le> b * block_size d \<and> b * block_size d < 2 ^ 32 \<longrightarrow> block_offset d b = dstart d + b * block_size d - 2 ^ 32)"
proof -
  have "(2 :: int) ^ (32 - k) * 2 ^ k = 2 ^ 32" using assms(3) by (simp flip: power_add)
  then have "(b + 2 ^ (32 - k)) * block_size d = b * block_size d + 2 ^ 32" using assms(2) by (simp add: distrib_right)
  moreover have "s32 (x + 2 ^ 32) = s32 x" for x
    using mod_add_self2 [of "x + 2 ^ 31" "2 ^ 32"] unfolding s32_def by (simp only: ac_simps)
  ultimately have o: "block_offset d (b + 2 ^ (32 - k)) = block_offset d b" by (simp only: block_offset_def)
  moreover have "read_block R d (b + 2 ^ (32 - k)) = read_block R d b"
    using o assms(1) by (simp add: read_block_def block_read_def get_block_def)
  moreover have "s32 x = x - 2 ^ 32" if "2 ^ 31 \<le> x" "x < 2 ^ 32" for x
    using that minus_mod_self2 [of "x + 2 ^ 31" "2 ^ 32 :: int"] mod_pos_pos_trivial [of "x + 2 ^ 31 - 2 ^ 32" "2 ^ 32 :: int"]
    by (simp add: s32_def)
  ultimately show ?thesis by (simp add: block_offset_def)
qed

theorem block_offset_wraps_witness:
  "let d = small_ssd\<lparr>nr_channels := 4, nr_blocks := 8192, block_size := 2 ^ 20, blocks_per_channel := 2048, is_dev := True\<rparr>
   in block_offset d 4097 = block_offset d 1 \<and> block_offset d 2048 = - (2 ^ 31)"
proof -
  let ?d = "small_ssd\<lparr>nr_channels := 4, nr_blocks := 8192, block_size := 2 ^ 20, blocks_per_channel := 2048, is_dev := True\<rparr>"
  have h: "is_dev ?d" "block_size ?d = 2 ^ 20" "(20 :: nat) \<le> 32" by simp_all
  show ?thesis
    using block_offset_wraps [OF h, of 1 map_db] block_offset_wraps [OF h, of 2048 map_db]
    by (simp add: Let_def small_ssd_def)
qed

end
