(* ===== verification/KV_Index.thy ===== *)
theory KV_Index
  imports KV_Prelude
begin

text \<open>
  The index of \<^verbatim>\<open>src/kvcache.cpp\<close>: a fixed pool of entries, each on the free list or on the
  chain of one hash bucket, holding the SHA-1 digest of a key and the location (slab number,
  slot number) of its object. The abstract view of an index is a partial map from (bucket,
  digest) to locations; the locale \<open>location_index\<close> states the laws the cache relies on. The
  assertions \<^verbatim>\<open>slab_id != -1\<close> of the source hold by typing: slab and slot numbers stored in
  entries are \<open>nat\<close>, as no code stores a negative one.
\<close>

subsection \<open>Hashing\<close>

text \<open>
  \<open>hasher\<close> is \<^verbatim>\<open>std::hash<std::string_view>\<close>, whose values the standard leaves open. The other
  fields stand for OpenSSL: whether \<^verbatim>\<open>EVP_MD_CTX_new\<close>, \<^verbatim>\<open>EVP_DigestInit_ex\<close>, \<^verbatim>\<open>EVP_DigestUpdate\<close>
  and \<^verbatim>\<open>EVP_DigestFinal_ex\<close> succeed, and the digest they compute.
\<close>

record hashing =
  hasher :: "bytes \<Rightarrow> 64 word"
  evp_ctx_new :: bool
  evp_digest_init :: bool
  evp_digest_update :: "bytes \<Rightarrow> bool"
  evp_digest_final :: "bytes \<Rightarrow> bool"
  sha1 :: "bytes \<Rightarrow> bytes"

definition make_digest :: "hashing \<Rightarrow> bytes \<Rightarrow> string + bytes" where
  "make_digest H key =
     (if \<not> evp_ctx_new H then Inl ''Failed to allocate EVP_MD_CTX''
      else if \<not> evp_digest_init H then Inl ''SHA-1 initialization failed''
      else if \<not> evp_digest_update H key then Inl ''SHA-1 update failed''
      else if \<not> evp_digest_final H key then Inl ''SHA-1 finalization failed''
      else Inr (sha1 H key))"

definition evp_ok :: "hashing \<Rightarrow> bool" where
  "evp_ok H \<longleftrightarrow> evp_ctx_new H \<and> evp_digest_init H \<and>
     (\<forall>k. evp_digest_update H k) \<and> (\<forall>k. evp_digest_final H k)"

lemma make_digest_ok [simp]: "evp_ok H \<Longrightarrow> make_digest H key = Inr (sha1 H key)"
  by (simp add: make_digest_def evp_ok_def)

subsection \<open>Entries, chains and the free list\<close>

record ientry =
  ie_digest :: bytes
  ie_slab_id :: nat
  ie_slot_id :: nat

record index =
  ientries :: "ientry list"
  itable :: "nat list list"
  ifree :: "nat list"
  nr_free_index_entry :: int

definition index_bucket :: "hashing \<Rightarrow> index \<Rightarrow> bytes \<Rightarrow> nat" where
  "index_bucket H ix key = unat (hasher H key) mod length (itable ix)"

text \<open>The walk along a chain: the first entry with the digest.\<close>

definition chain_find :: "index \<Rightarrow> nat \<Rightarrow> bytes \<Rightarrow> nat option" where
  "chain_find ix b digest = find (\<lambda>e. ie_digest (ientries ix ! e) = digest) (itable ix ! b)"

definition get_index_entry :: "hashing \<Rightarrow> bytes \<Rightarrow> index \<Rightarrow> string + nat option" where
  "get_index_entry H key ix =
     (case make_digest H key of
        Inl e \<Rightarrow> Inl e
      | Inr digest \<Rightarrow> Inr (chain_find ix (index_bucket H ix key) digest))"

definition chain_add :: "nat \<Rightarrow> nat \<Rightarrow> index \<Rightarrow> index" where
  "chain_add b e ix = ix\<lparr>itable := (itable ix)[b := e # itable ix ! b]\<rparr>"

definition put_index_entry :: "hashing \<Rightarrow> bytes \<Rightarrow> nat \<Rightarrow> index \<Rightarrow> index" where
  "put_index_entry H key e ix = chain_add (index_bucket H ix key) e ix"

definition index_entry_alloc :: "index \<Rightarrow> nat option \<times> index" where
  "index_entry_alloc ix =
     (case ifree ix of
        [] \<Rightarrow> (None, ix)
      | e # es \<Rightarrow> (Some e, ix\<lparr>ifree := es, nr_free_index_entry := nr_free_index_entry ix - 1\<rparr>))"

definition index_entry_free :: "nat \<Rightarrow> index \<Rightarrow> index" where
  "index_entry_free e ix =
     ix\<lparr>ifree := e # ifree ix, nr_free_index_entry := nr_free_index_entry ix + 1\<rparr>"

text \<open>\<^verbatim>\<open>list_del(&index_entry->list)\<close> for an entry on the chain of bucket \<open>b\<close>.\<close>

definition chain_del :: "nat \<Rightarrow> nat \<Rightarrow> index \<Rightarrow> index" where
  "chain_del b e ix = ix\<lparr>itable := (itable ix)[b := remove1 e (itable ix ! b)]\<rparr>"

definition del_index_entry :: "hashing \<Rightarrow> bytes \<Rightarrow> index \<Rightarrow> string + index" where
  "del_index_entry H key ix =
     (case get_index_entry H key ix of
        Inl e \<Rightarrow> Inl e
      | Inr None \<Rightarrow> Inr ix
      | Inr (Some e) \<Rightarrow> Inr (index_entry_free e (chain_del (index_bucket H ix key) e ix)))"

text \<open>The assignments to \<^verbatim>\<open>slab_id\<close>, \<^verbatim>\<open>slot_id\<close> and \<^verbatim>\<open>digest\<close> of an entry.\<close>

definition entry_loc :: "index \<Rightarrow> nat \<Rightarrow> nat \<times> nat" where
  "entry_loc ix e = (ie_slab_id (ientries ix ! e), ie_slot_id (ientries ix ! e))"

definition set_entry_loc :: "nat \<Rightarrow> nat \<times> nat \<Rightarrow> index \<Rightarrow> index" where
  "set_entry_loc e l ix =
     ix\<lparr>ientries := (ientries ix)
          [e := (ientries ix ! e)\<lparr>ie_slab_id := fst l, ie_slot_id := snd l\<rparr>]\<rparr>"

definition set_entry_digest :: "nat \<Rightarrow> bytes \<Rightarrow> index \<Rightarrow> index" where
  "set_entry_digest e d ix =
     ix\<lparr>ientries := (ientries ix)[e := (ientries ix ! e)\<lparr>ie_digest := d\<rparr>]\<rparr>"

subsection \<open>The index as a map\<close>

type_synonym hkey = "nat \<times> bytes"
type_synonym loc = "nat \<times> nat"

text \<open>What the index knows of a key: its bucket and its digest.\<close>

definition hkey :: "hashing \<Rightarrow> nat \<Rightarrow> bytes \<Rightarrow> hkey" where
  "hkey H n key = (unat (hasher H key) mod n, sha1 H key)"

definition index_view :: "index \<Rightarrow> hkey \<Rightarrow> loc option" where
  "index_view ix h =
     (if fst h < length (itable ix) then map_option (entry_loc ix) (chain_find ix (fst h) (snd h))
      else None)"

text \<open>
  The invariant: every entry of the pool is on exactly one chain or on the free list, the count
  of free entries is right, and no chain has two entries with the same digest.
\<close>

definition index_ok :: "index \<Rightarrow> bool" where
  "index_ok ix \<longleftrightarrow> itable ix \<noteq> [] \<and>
     mset (concat (itable ix)) + mset (ifree ix) = mset [0..<length (ientries ix)] \<and>
     nr_free_index_entry ix = int (length (ifree ix)) \<and>
     (\<forall>c \<in> set (itable ix). distinct (map (\<lambda>e. ie_digest (ientries ix ! e)) c))"

text \<open>Redirecting and removing by hash key, the two updates garbage collection makes.\<close>

definition index_move :: "hkey \<Rightarrow> loc \<Rightarrow> loc \<Rightarrow> index \<Rightarrow> index" where
  "index_move h l l' ix =
     (case chain_find ix (fst h) (snd h) of
        None \<Rightarrow> ix
      | Some e \<Rightarrow> if entry_loc ix e = l then set_entry_loc e l' ix else ix)"

definition index_remove :: "hkey \<Rightarrow> index \<Rightarrow> index" where
  "index_remove h ix =
     (case chain_find ix (fst h) (snd h) of
        None \<Rightarrow> ix
      | Some e \<Rightarrow> index_entry_free e (chain_del (fst h) e ix))"

lemmas index_defs = chain_add_def chain_del_def index_entry_free_def set_entry_loc_def
  set_entry_digest_def

lemma hkey_bucket [simp]: "hkey H (length (itable ix)) key = (index_bucket H ix key, sha1 H key)"
  by (simp add: hkey_def index_bucket_def)

lemma get_index_entry_ok:
  "evp_ok H \<Longrightarrow> get_index_entry H key ix = Inr (chain_find ix (index_bucket H ix key) (sha1 H key))"
  by (simp add: get_index_entry_def)

lemma index_bucket_less: "index_ok ix \<Longrightarrow> index_bucket H ix key < length (itable ix)"
  by (simp add: index_bucket_def index_ok_def)

lemma length_itable [simp]:
  "length (itable (index_move h l l' ix)) = length (itable ix)"
  "length (itable (index_remove h ix)) = length (itable ix)"
  "length (itable (chain_add b e ix)) = length (itable ix)"
  "length (itable (set_entry_loc e l ix)) = length (itable ix)"
  "length (itable (set_entry_digest e d ix)) = length (itable ix)"
  by (simp_all add: index_move_def index_remove_def index_defs split: option.split)

lemma chain_find_SomeD:
  "chain_find ix b d = Some e \<Longrightarrow> e \<in> set (itable ix ! b) \<and> ie_digest (ientries ix ! e) = d"
  by (auto simp: chain_find_def find_Some_iff)

lemma find_unique:
  "distinct (map f xs) \<Longrightarrow> x \<in> set xs \<Longrightarrow> find (\<lambda>y. f y = f x) xs = Some x"
  by (induction xs) auto

lemma chain_find_mem:
  assumes "index_ok ix" and "b < length (itable ix)" and "e \<in> set (itable ix ! b)"
  shows "chain_find ix b (ie_digest (ientries ix ! e)) = Some e"
  using assms find_unique [of "\<lambda>e. ie_digest (ientries ix ! e)" "itable ix ! b" e]
  by (auto simp: chain_find_def index_ok_def)

lemma index_ok_distinct: "index_ok ix \<Longrightarrow> distinct (concat (itable ix) @ ifree ix)"
proof -
  assume "index_ok ix"
  then have "mset (concat (itable ix) @ ifree ix) = mset [0..<length (ientries ix)]"
    by (simp add: index_ok_def)
  then show ?thesis by (metis distinct_upt mset_eq_imp_distinct_iff)
qed

lemma index_ok_mem:
  "index_ok ix \<Longrightarrow> e \<in> set (concat (itable ix) @ ifree ix) \<longleftrightarrow> e < length (ientries ix)"
proof -
  assume "index_ok ix"
  then have "mset (concat (itable ix) @ ifree ix) = mset [0..<length (ientries ix)]"
    by (simp add: index_ok_def)
  then have "set (concat (itable ix) @ ifree ix) = {0..<length (ientries ix)}"
    by (metis set_mset_mset set_upt)
  then show ?thesis by simp
qed

lemma chain_mem_less:
  "index_ok ix \<Longrightarrow> b < length (itable ix) \<Longrightarrow> e \<in> set (itable ix ! b) \<Longrightarrow> e < length (ientries ix)"
  using index_ok_mem [of ix e] by auto

lemma chains_unique:
  assumes "index_ok ix" and "b < length (itable ix)" and "b' < length (itable ix)"
    and "e \<in> set (itable ix ! b)" and "e \<in> set (itable ix ! b')"
  shows "b = b'"
  using distinct_concat_nth_disjoint [of "itable ix" b b'] index_ok_distinct [OF assms(1)] assms
  by auto

lemma chain_not_free:
  assumes "index_ok ix" and "b < length (itable ix)" and "e \<in> set (itable ix ! b)"
  shows "e \<notin> set (ifree ix)"
  using index_ok_distinct [OF assms(1)] nth_mem [OF assms(2)] assms(3) by auto

text \<open>Changing the location of the entry of a hash key updates the map there.\<close>

lemma chain_find_set_loc [simp]: "chain_find (set_entry_loc e l ix) b d = chain_find ix b d"
proof -
  have "ie_digest (ientries (set_entry_loc e l ix) ! x) = ie_digest (ientries ix ! x)" for x
    by (cases "e < length (ientries ix)")
      (auto simp: set_entry_loc_def nth_list_update_if list_update_beyond)
  then show ?thesis by (simp add: chain_find_def) (simp add: set_entry_loc_def)
qed

lemma entry_loc_set_loc:
  "e < length (ientries ix) \<Longrightarrow>
   entry_loc (set_entry_loc e l ix) x = (if x = e then l else entry_loc ix x)"
  by (auto simp: entry_loc_def set_entry_loc_def nth_list_update)

lemma set_entry_loc_ok:
  assumes "index_ok ix"
  shows "index_ok (set_entry_loc e l ix)"
proof -
  have "ie_digest (ientries (set_entry_loc e l ix) ! x) = ie_digest (ientries ix ! x)" for x
    by (cases "e < length (ientries ix)")
      (auto simp: set_entry_loc_def nth_list_update_if list_update_beyond)
  then show ?thesis using assms by (simp add: index_ok_def) (simp add: set_entry_loc_def)
qed

lemma view_set_entry_loc:
  assumes ok: "index_ok ix" and b: "b < length (itable ix)" and f: "chain_find ix b d = Some e"
  shows "index_view (set_entry_loc e l ix) = (index_view ix)((b, d) \<mapsto> l)"
proof
  fix h :: hkey
  have e: "e \<in> set (itable ix ! b)" "ie_digest (ientries ix ! e) = d"
    using chain_find_SomeD [OF f] by auto
  note less = chain_mem_less [OF ok b e(1)]
  have same: "h = (b, d)" if "fst h < length (itable ix)" "chain_find ix (fst h) (snd h) = Some e"
    using chain_find_SomeD [OF that(2)] chains_unique [OF ok that(1) b] e by (auto simp: prod_eq_iff)
  show "index_view (set_entry_loc e l ix) h = ((index_view ix)((b, d) \<mapsto> l)) h"
    using same b f
    by (cases "chain_find ix (fst h) (snd h)") (auto simp: index_view_def entry_loc_set_loc less)
qed

text \<open>Taking an entry off its chain and freeing it removes its hash key from the map.\<close>

lemma chain_find_remove1:
  assumes "distinct (map f c)" and "distinct c" and "e \<in> set c"
  shows "find (\<lambda>x. f x = d) (remove1 e c) = (if f e = d then None else find (\<lambda>x. f x = d) c)"
  using assms
proof (induction c)
  case Nil
  then show ?case by simp
next
  case (Cons x c)
  then show ?case by (auto simp: find_None_iff) (metis image_eqI)+
qed

lemma mset_chain_del:
  assumes "b < length (itable ix)" and "e \<in> set (itable ix ! b)"
  shows "mset (concat (itable (chain_del b e ix))) + {#e#} = mset (concat (itable ix))"
  using mset_concat_update [OF assms(1), of "remove1 e (itable ix ! b)"] assms(2)
  by (auto simp: chain_del_def)

lemma index_remove_Some:
  assumes ok: "index_ok ix" and b: "b < length (itable ix)" and f: "chain_find ix b d = Some e"
  shows "index_view (index_entry_free e (chain_del b e ix)) = (index_view ix)((b, d) := None)"
    and "index_ok (index_entry_free e (chain_del b e ix))"
proof -
  let ?ix = "index_entry_free e (chain_del b e ix)" and ?dg = "\<lambda>x. ie_digest (ientries ix ! x)"
  have e: "e \<in> set (itable ix ! b)" "?dg e = d" using chain_find_SomeD [OF f] by auto
  have dm: "distinct (map ?dg c)" if "c \<in> set (itable ix)" for c
    using ok that by (simp add: index_ok_def)
  have fields: "ientries ?ix = ientries ix" "itable ?ix = (itable ix)[b := remove1 e (itable ix ! b)]"
    by (simp_all add: index_defs)
  have find: "chain_find ?ix b' d' = (if b' = b \<and> d' = d then None else chain_find ix b' d')"
    if "b' < length (itable ix)" for b' d'
    using that b e dm [of "itable ix ! b"] chain_find_remove1 [of ?dg "itable ix ! b" e d']
    by (auto simp: chain_find_def fields nth_list_update distinct_map)
  have "entry_loc ?ix = entry_loc ix" by (rule ext) (simp add: entry_loc_def fields)
  then show "index_view ?ix = (index_view ix)((b, d) := None)"
    by (intro ext) (auto simp: index_view_def find fields(2))
  have m: "mset (concat (itable (chain_del b e ix))) + {#e#} = mset (concat (itable ix))"
    by (rule mset_chain_del [OF b e(1)])
  have "mset (concat (itable ?ix)) + mset (ifree ?ix) =
      (mset (concat (itable (chain_del b e ix))) + {#e#}) + mset (ifree ix)"
    by (simp add: index_defs)
  also have "\<dots> = mset [0..<length (ientries ?ix)]"
    unfolding m fields(1) using ok by (simp add: index_ok_def)
  finally have pool: "mset (concat (itable ?ix)) + mset (ifree ?ix) = mset [0..<length (ientries ?ix)]" .
  have "distinct (map ?dg c)" if c: "c \<in> set (itable ?ix)" for c
  proof -
    consider "c \<in> set (itable ix)" | "c = remove1 e (itable ix ! b)"
      using c set_update_subset_insert unfolding fields by fastforce
    then show ?thesis
      using dm [of c] dm [of "itable ix ! b"] b
      by cases (auto simp: distinct_map intro: inj_on_diff)
  qed
  then show "index_ok ?ix"
    using ok pool unfolding index_ok_def by (simp add: fields(1)) (simp add: index_defs)
qed

text \<open>Taking an entry off the free list, filling it in and chaining it adds its hash key.\<close>

lemma index_alloc_fresh:
  assumes ok: "index_ok ix" and al: "index_entry_alloc ix = (Some e, ix1)"
  shows "e < length (ientries ix)" and "c \<in> set (itable ix) \<Longrightarrow> e \<notin> set c" and "b < length (itable ix) \<Longrightarrow> chain_find ix b d \<noteq> Some e"
proof -
  obtain es where free: "ifree ix = e # es" using al by (auto simp: index_entry_alloc_def split: list.splits)
  show "e < length (ientries ix)" using index_ok_mem [OF ok, of e] free by simp
  show out: "c \<in> set (itable ix) \<Longrightarrow> e \<notin> set c" for c using index_ok_distinct [OF ok] free by auto
  show "b < length (itable ix) \<Longrightarrow> chain_find ix b d \<noteq> Some e"
    using chain_find_SomeD [of ix b d e] out [of "itable ix ! b"] by auto
qed

lemma index_insert_fields:
  fixes l :: loc and b :: nat and d
  assumes ok: "index_ok ix" and al: "index_entry_alloc ix = (Some e, ix1)"
  defines "ix2 \<equiv> chain_add b e (set_entry_loc e l (set_entry_digest e d ix1))"
  shows "ientries ix2 = (ientries ix)[e := (ientries ix ! e)\<lparr>ie_digest := d, ie_slab_id := fst l, ie_slot_id := snd l\<rparr>]"
    and "itable ix2 = (itable ix)[b := e # itable ix ! b]"
    and "ifree ix = e # ifree ix2" and "nr_free_index_entry ix2 = nr_free_index_entry ix - 1"
proof -
  obtain es where free: "ifree ix = e # es"
    and ix1: "ix1 = ix\<lparr>ifree := es, nr_free_index_entry := nr_free_index_entry ix - 1\<rparr>"
    using al by (auto simp: index_entry_alloc_def split: list.splits)
  show "ientries ix2 = (ientries ix)[e := (ientries ix ! e)\<lparr>ie_digest := d, ie_slab_id := fst l, ie_slot_id := snd l\<rparr>]"
    and "itable ix2 = (itable ix)[b := e # itable ix ! b]" and "ifree ix = e # ifree ix2"
    and "nr_free_index_entry ix2 = nr_free_index_entry ix - 1"
    using index_alloc_fresh(1) [OF ok al] free by (auto simp: ix2_def ix1 index_defs)
qed

text \<open>The digests in the chains stay, and the new entry has its own.\<close>

lemma index_insert_digests:
  fixes l :: loc and b :: nat and d
  assumes ok: "index_ok ix" and al: "index_entry_alloc ix = (Some e, ix1)"
  defines "ix2 \<equiv> chain_add b e (set_entry_loc e l (set_entry_digest e d ix1))"
  shows "ie_digest (ientries ix2 ! e) = d" and "entry_loc ix2 x = (if x = e then l else entry_loc ix x)"
    and "c \<in> set (itable ix) \<Longrightarrow> x \<in> set c \<Longrightarrow> ie_digest (ientries ix2 ! x) = ie_digest (ientries ix ! x)"
  using index_insert_fields [OF ok al, where b = b and l = l and d = d] index_alloc_fresh [OF ok al] unfolding ix2_def [symmetric]
  by (auto simp: nth_list_update entry_loc_def)

lemma index_insert_find:
  fixes l :: loc and b :: nat and d
  assumes ok: "index_ok ix" and al: "index_entry_alloc ix = (Some e, ix1)" and b: "b < length (itable ix)" "b' < length (itable ix)"
  defines "ix2 \<equiv> chain_add b e (set_entry_loc e l (set_entry_digest e d ix1))"
  shows "chain_find ix2 b' d' = (if b' = b \<and> d' = d then Some e else chain_find ix b' d')"
proof -
  note f = index_insert_fields [OF ok al, where b = b and l = l and d = d, folded ix2_def] and dg = index_insert_digests [OF ok al, where b = b and l = l and d = d, folded ix2_def]
  have "find (\<lambda>x. ie_digest (ientries ix2 ! x) = d') (itable ix ! b') = chain_find ix b' d'"
    unfolding chain_find_def using dg(3) [OF nth_mem [OF b(2)]] by (intro find_cong) simp_all
  then show "chain_find ix2 b' d' = (if b' = b \<and> d' = d then Some e else chain_find ix b' d')"
    using dg(1) b by (auto simp: chain_find_def f(2) nth_list_update)
qed

lemma index_insert_distinct:
  fixes l :: loc and b :: nat and d
  assumes ok: "index_ok ix" and al: "index_entry_alloc ix = (Some e, ix1)" and b: "b < length (itable ix)"
    and new: "index_view ix (b, d) = None"
  defines "ix2 \<equiv> chain_add b e (set_entry_loc e l (set_entry_digest e d ix1))"
  assumes c: "c \<in> set (itable ix2)"
  shows "distinct (map (\<lambda>x. ie_digest (ientries ix2 ! x)) c)"
proof -
  let ?dg = "\<lambda>x. ie_digest (ientries ix ! x)" and ?dg2 = "\<lambda>x. ie_digest (ientries ix2 ! x)"
  note f = index_insert_fields [OF ok al, where b = b and l = l and d = d, folded ix2_def] and dg = index_insert_digests [OF ok al, where b = b and l = l and d = d, folded ix2_def]
  have map_dg: "map ?dg2 c = map ?dg c" if "c \<in> set (itable ix)" for c
    using dg(3) [OF that] by (rule map_cong [OF refl])
  consider "c \<in> set (itable ix)" | "c = e # itable ix ! b"
    using c set_update_subset_insert unfolding f(2) by fastforce
  then show ?thesis
  proof cases
    case 1
    then show ?thesis unfolding map_dg [OF 1] using ok by (simp add: index_ok_def)
  next
    case 2
    have mem: "itable ix ! b \<in> set (itable ix)" using b by simp
    have "chain_find ix b d = None" using new b by (simp add: index_view_def)
    then have "d \<notin> set (map ?dg (itable ix ! b))" by (auto simp: chain_find_def find_None_iff)
    moreover have "map ?dg2 c = d # map ?dg (itable ix ! b)"
      unfolding 2 by (simp only: list.map dg(1) map_dg [OF mem])
    moreover have "distinct (map ?dg (itable ix ! b))" using ok mem by (simp add: index_ok_def)
    ultimately show ?thesis by simp
  qed
qed

lemma index_insert_view:
  fixes l :: loc
  assumes ok: "index_ok ix" and al: "index_entry_alloc ix = (Some e, ix1)"
    and b: "b < length (itable ix)" and new: "index_view ix (b, d) = None"
  defines "ix2 \<equiv> chain_add b e (set_entry_loc e l (set_entry_digest e d ix1))"
  shows "index_view ix2 = (index_view ix)((b, d) \<mapsto> l)" and "index_ok ix2"
proof -
  note f = index_insert_fields [OF ok al, where b = b and l = l and d = d, folded ix2_def] and loc = index_insert_digests(2) [OF ok al, where b = b and l = l and d = d, folded ix2_def]
  note find = index_insert_find [OF ok al b, where l = l and d = d, folded ix2_def]
  show "index_view ix2 = (index_view ix)((b, d) \<mapsto> l)"
  proof
    fix h :: hkey
    show "index_view ix2 h = ((index_view ix)((b, d) \<mapsto> l)) h"
      using b index_alloc_fresh(3) [OF ok al, of "fst h" "snd h"]
      by (cases "chain_find ix (fst h) (snd h)") (auto simp: index_view_def find f(2) loc)
  qed
  obtain A where "mset (concat (itable ix)) = A + mset (itable ix ! b)"
    and "mset (concat (itable ix2)) = A + mset (e # itable ix ! b)"
    using mset_concat_update [OF b, of "e # itable ix ! b"] f(2) by auto
  moreover have "mset (concat (itable ix)) + mset (ifree ix) = mset [0..<length (ientries ix)]"
    using ok by (simp add: index_ok_def)
  ultimately have "mset (concat (itable ix2)) + mset (ifree ix2) = mset [0..<length (ientries ix2)]"
    by (simp add: f(1,3))
  then show "index_ok ix2"
    using ok f index_insert_distinct [OF ok al b new, where l = l, folded ix2_def] by (auto simp: index_ok_def)
qed

subsection \<open>The contract of the index\<close>

text \<open>
  Redirecting a hash key from one location to another acts only when the key is at the first
  location; removing a key leaves the rest. From these two laws follow the effects of the loops
  over the slots of a slab that flushing, eviction and garbage collection run.
\<close>

locale location_index =
  fixes view :: "'i \<Rightarrow> 'k \<Rightarrow> 'l option"
    and ok :: "'i \<Rightarrow> bool"
    and move :: "'k \<Rightarrow> 'l \<Rightarrow> 'l \<Rightarrow> 'i \<Rightarrow> 'i"
    and remove :: "'k \<Rightarrow> 'i \<Rightarrow> 'i"
    and dom_ok :: "'i \<Rightarrow> 'k \<Rightarrow> bool"
  assumes view_move: "ok ix \<Longrightarrow> dom_ok ix k \<Longrightarrow>
      view (move k l l' ix) = (if view ix k = Some l then (view ix)(k \<mapsto> l') else view ix)"
    and ok_move: "ok ix \<Longrightarrow> dom_ok ix k \<Longrightarrow> ok (move k l l' ix)"
    and dom_move: "dom_ok (move k l l' ix) k' = dom_ok ix k'"
    and view_remove: "ok ix \<Longrightarrow> dom_ok ix k \<Longrightarrow> view (remove k ix) = (view ix)(k := None)"
    and ok_remove: "ok ix \<Longrightarrow> dom_ok ix k \<Longrightarrow> ok (remove k ix)"
    and dom_remove: "dom_ok (remove k ix) k' = dom_ok ix k'"
begin

lemma ok_fold_remove:
  "ok ix \<Longrightarrow> (\<And>i. i \<in> set is \<Longrightarrow> dom_ok ix (f i)) \<Longrightarrow>
   ok (fold (\<lambda>i. remove (f i)) is ix) \<and>
   view (fold (\<lambda>i. remove (f i)) is ix) = view ix |` (- f ` set is)"
proof (induction "is" arbitrary: ix)
  case Nil
  then show ?case by simp
next
  case (Cons i "is")
  have "ok (remove (f i) ix)" using Cons.prems by (simp add: ok_remove)
  with Cons.IH [of "remove (f i) ix"] Cons.prems show ?case
    by (auto simp: dom_remove view_remove restrict_map_def fun_eq_iff)
qed

lemma ok_fold_move:
  "ok ix \<Longrightarrow> (\<And>i. i \<in> set is \<Longrightarrow> dom_ok ix (f i)) \<Longrightarrow>
   ok (fold (\<lambda>i. move (f i) (a i) (b i)) is ix)"
  by (induction "is" arbitrary: ix) (auto simp: ok_move dom_move)

text \<open>
  A loop that redirects, for every number \<open>i\<close> of a list, the key \<open>f i\<close> from location \<open>a i\<close> to
  \<open>b i\<close>, where no target is a source and the sources differ: every key found at its source ends
  up at its target, and no other key moves.
\<close>

lemma view_fold_move:
  assumes "ok ix" and "\<And>i. i \<in> set is \<Longrightarrow> dom_ok ix (f i)"
    and "distinct is" and "inj_on a (set is)" and "a ` set is \<inter> b ` set is = {}"
  shows "view (fold (\<lambda>i. move (f i) (a i) (b i)) is ix) k =
    (case view ix k of None \<Rightarrow> None
     | Some l \<Rightarrow> (case find (\<lambda>i. l = a i \<and> k = f i) is of None \<Rightarrow> Some l | Some i \<Rightarrow> Some (b i)))"
  using assms
proof (induction "is" arbitrary: ix)
  case Nil
  then show ?case by (simp split: option.split)
next
  case (Cons i "is")
  let ?ix = "move (f i) (a i) (b i) ix"
  have v: "view ?ix = (if view ix (f i) = Some (a i) then (view ix)(f i \<mapsto> b i) else view ix)"
    using Cons.prems by (simp add: view_move)
  have IH: "view (fold (\<lambda>i. move (f i) (a i) (b i)) is ?ix) k =
    (case view ?ix k of None \<Rightarrow> None
     | Some l \<Rightarrow> (case find (\<lambda>i. l = a i \<and> k = f i) is of None \<Rightarrow> Some l | Some i \<Rightarrow> Some (b i)))"
    using Cons.prems by (intro Cons.IH) (auto simp: ok_move dom_move)
  have none: "find (\<lambda>j. b i = a j \<and> k = f j) is = None"
    using Cons.prems(5) by (auto simp: find_None_iff)
  show ?case
  proof (cases "view ix k = Some (a i) \<and> k = f i")
    case True
    then have "view ?ix k = Some (b i)" using v by auto
    with IH none True show ?thesis by auto
  next
    case False
    then have "view ?ix k = view ix k" using v by auto
    with IH False show ?thesis by (cases "view ix k") auto
  qed
qed

end

definition hkey_dom :: "index \<Rightarrow> hkey \<Rightarrow> bool" where
  "hkey_dom ix h \<longleftrightarrow> fst h < length (itable ix)"

interpretation li: location_index index_view index_ok index_move index_remove hkey_dom
proof unfold_locales
  fix ix and k :: hkey and l l' :: loc
  assume ok: "index_ok ix" and dom: "hkey_dom ix k"
  show "index_view (index_move k l l' ix) =
      (if index_view ix k = Some l then (index_view ix)(k \<mapsto> l') else index_view ix)"
    using dom view_set_entry_loc [OF ok, of "fst k" "snd k" _ l']
    by (auto simp: index_move_def hkey_dom_def index_view_def [of ix k] split: option.split)
  show "index_ok (index_move k l l' ix)"
    using ok by (auto simp: index_move_def set_entry_loc_ok split: option.split)
  show "index_view (index_remove k ix) = (index_view ix)(k := None)"
    using dom index_remove_Some(1) [OF ok, of "fst k" "snd k"]
    by (auto simp: index_remove_def hkey_dom_def index_view_def [of ix k] fun_upd_idem
        split: option.split)
  show "index_ok (index_remove k ix)"
    using dom ok index_remove_Some(2) [OF ok, of "fst k" "snd k"]
    by (auto simp: index_remove_def hkey_dom_def split: option.split)
qed (simp_all add: hkey_dom_def)

subsection \<open>Lookups\<close>

text \<open>What a lookup by key says of the map, and what the updates of the found entry do to it.\<close>

lemma get_index_entry_cases:
  "get_index_entry H key ix = Inr r \<Longrightarrow> r = chain_find ix (index_bucket H ix key) (sha1 H key)"
  by (auto simp: get_index_entry_def make_digest_def split: if_splits)

lemma get_index_entry_None:
  assumes "index_ok ix" and "get_index_entry H key ix = Inr None"
  shows "index_view ix (hkey H (length (itable ix)) key) = None"
  using get_index_entry_cases [OF assms(2)] by (simp add: index_view_def)

lemma get_index_entry_Some:
  assumes ok: "index_ok ix" and f: "get_index_entry H key ix = Inr (Some e)"
  shows "index_view ix (hkey H (length (itable ix)) key) = Some (entry_loc ix e)"
    and "index_view (set_entry_loc e l ix) = (index_view ix)(hkey H (length (itable ix)) key \<mapsto> l)"
    and "index_view (index_entry_free e (chain_del (index_bucket H ix key) e ix)) =
      (index_view ix)(hkey H (length (itable ix)) key := None)"
    and "index_ok (index_entry_free e (chain_del (index_bucket H ix key) e ix))"
proof -
  note b = index_bucket_less [OF ok, of H key] and c = get_index_entry_cases [OF f, symmetric]
  show "index_view ix (hkey H (length (itable ix)) key) = Some (entry_loc ix e)"
    using b c by (simp add: index_view_def)
  show "index_view (set_entry_loc e l ix) = (index_view ix)(hkey H (length (itable ix)) key \<mapsto> l)"
    using view_set_entry_loc [OF ok b c] by simp
  show "index_view (index_entry_free e (chain_del (index_bucket H ix key) e ix)) =
      (index_view ix)(hkey H (length (itable ix)) key := None)"
    "index_ok (index_entry_free e (chain_del (index_bucket H ix key) e ix))"
    using index_remove_Some [OF ok b c] by simp_all
qed

subsection \<open>Properties\<close>

text \<open>
  C26: the index is a map from hash keys (bucket and digest) to locations. A lookup finds the
  location of the key, a new entry taken from the free list, filled in and chained binds the key
  and nothing else, and a deletion unbinds the key and gives its entry back; each keeps the
  invariant of the index.
\<close>

theorem index_is_map:
  fixes key :: bytes
  assumes "index_ok ix" and "evp_ok H"
  defines "h \<equiv> hkey H (length (itable ix)) key"
  shows "(\<exists>r. get_index_entry H key ix = Inr r \<and> map_option (entry_loc ix) r = index_view ix h) \<and>
    (\<exists>ix'. del_index_entry H key ix = Inr ix' \<and> index_ok ix' \<and> index_view ix' = (index_view ix)(h := None) \<and>
       nr_free_index_entry ix' = nr_free_index_entry ix + (if index_view ix h = None then 0 else 1)) \<and>
    (index_view ix h = None \<and> 0 < nr_free_index_entry ix \<longrightarrow>
      (\<exists>e ix1. index_entry_alloc ix = (Some e, ix1) \<and>
        (let ix2 = put_index_entry H key e (set_entry_loc e l (set_entry_digest e (sha1 H key) ix1))
         in index_ok ix2 \<and> index_view ix2 = (index_view ix)(h \<mapsto> l) \<and> nr_free_index_entry ix2 = nr_free_index_entry ix - 1)))"
proof (intro conjI impI)
  obtain r where r: "get_index_entry H key ix = Inr r" using assms(2) by (simp add: get_index_entry_ok)
  then show "\<exists>r. get_index_entry H key ix = Inr r \<and> map_option (entry_loc ix) r = index_view ix h"
    using get_index_entry_None [OF assms(1)] get_index_entry_Some(1) [OF assms(1)] unfolding h_def by (cases r) auto
  show "\<exists>ix'. del_index_entry H key ix = Inr ix' \<and> index_ok ix' \<and> index_view ix' = (index_view ix)(h := None) \<and>
       nr_free_index_entry ix' = nr_free_index_entry ix + (if index_view ix h = None then 0 else 1)"
  proof (cases r)
    case None
    then have "index_view ix h = None" using r get_index_entry_None [OF assms(1)] unfolding h_def by simp
    then show ?thesis using r None assms(1) by (auto simp: del_index_entry_def fun_eq_iff)
  next
    case (Some e)
    note v = get_index_entry_Some [OF assms(1), of H key e]
    show ?thesis using v(1,3,4) r Some unfolding h_def by (simp add: del_index_entry_def index_defs)
  qed
next
  assume new: "index_view ix h = None \<and> 0 < nr_free_index_entry ix"
  then obtain e es where fr: "ifree ix = e # es" using assms(1) by (cases "ifree ix") (auto simp: index_ok_def)
  define ix1 where "ix1 = ix\<lparr>ifree := es, nr_free_index_entry := nr_free_index_entry ix - 1\<rparr>"
  have al: "index_entry_alloc ix = (Some e, ix1)" by (simp add: index_entry_alloc_def fr ix1_def)
  let ?ix2 = "put_index_entry H key e (set_entry_loc e l (set_entry_digest e (sha1 H key) ix1))"
  have b: "index_bucket H ix key < length (itable ix)" by (rule index_bucket_less [OF assms(1)])
  have e2: "?ix2 = chain_add (index_bucket H ix key) e (set_entry_loc e l (set_entry_digest e (sha1 H key) ix1))"
    by (simp add: put_index_entry_def index_bucket_def index_defs ix1_def)
  have "index_view ix (index_bucket H ix key, sha1 H key) = None" using new unfolding h_def by simp
  note i = index_insert_view [OF assms(1) al b this, of l, folded e2]
  show "\<exists>e ix1. index_entry_alloc ix = (Some e, ix1) \<and>
        (let ix2 = put_index_entry H key e (set_entry_loc e l (set_entry_digest e (sha1 H key) ix1))
         in index_ok ix2 \<and> index_view ix2 = (index_view ix)(h \<mapsto> l) \<and> nr_free_index_entry ix2 = nr_free_index_entry ix - 1)"
    using al i unfolding h_def by (simp add: Let_def) (simp add: put_index_entry_def index_defs ix1_def)
qed

text \<open>A hash that keeps the key, and an index of two entries and two buckets.\<close>

definition plain_hash :: hashing where
  "plain_hash = \<lparr>hasher = (\<lambda>k. of_nat (length k)), evp_ctx_new = True, evp_digest_init = True,
     evp_digest_update = (\<lambda>_. True), evp_digest_final = (\<lambda>_. True), sha1 = (\<lambda>k. k)\<rparr>"

definition two_entries :: index where
  "two_entries = \<lparr>ientries = [\<lparr>ie_digest = [7], ie_slab_id = 3, ie_slot_id = 4\<rparr>, \<lparr>ie_digest = [], ie_slab_id = 0, ie_slot_id = 0\<rparr>],
     itable = [[], [0]], ifree = [1], nr_free_index_entry = 1\<rparr>"

theorem index_is_map_witness:
  "\<exists>ix'. del_index_entry plain_hash [7] two_entries = Inr ix' \<and> index_view ix' (1, [7]) = None \<and> nr_free_index_entry ix' = 2"
proof -
  have "index_ok two_entries" by (simp add: index_ok_def two_entries_def upt_rec)
  moreover have "evp_ok plain_hash" by (simp add: evp_ok_def plain_hash_def)
  ultimately have "\<exists>ix'. del_index_entry plain_hash [7] two_entries = Inr ix' \<and> index_ok ix' \<and>
      index_view ix' = (index_view two_entries)(hkey plain_hash (length (itable two_entries)) [7] := None) \<and>
      nr_free_index_entry ix' = nr_free_index_entry two_entries +
        (if index_view two_entries (hkey plain_hash (length (itable two_entries)) [7]) = None then 0 else 1)"
    by (rule index_is_map [THEN conjunct2, THEN conjunct1])
  moreover have "hkey plain_hash (length (itable two_entries)) [7] = (1, [7])" "index_view two_entries (1, [7]) = Some (3, 4)"
    "nr_free_index_entry two_entries = 1"
    by code_simp+
  ultimately show ?thesis by auto
qed

end
