(* ===== verification/KV_Class.thy ===== *)
theory KV_Class
  imports KV_Slab KV_Status
begin

text \<open>
  Slab classes: the default table of slot sizes (\<^verbatim>\<open>KVCache::default_slab_class_size\<close>), the table
  built at start-up (\<^verbatim>\<open>KVCache::slab_class_init\<close>) and the choice of the class of an object
  (\<^verbatim>\<open>KVCache::get_slab_class\<close>, a \<^verbatim>\<open>std::lower_bound\<close> over the table). Shown here: the binary search
  finds the smallest class that holds the object, the default table is strictly increasing and
  ends with the largest slot a slab can hold, and no object wastes more than half a slot.
\<close>

subsection \<open>Binary search\<close>

text \<open>\<^verbatim>\<open>std::lower_bound\<close> on positions \<open>first..<first + len\<close>, \<open>lt i\<close> comparing the element with the target.\<close>

fun lower_bound :: "(nat \<Rightarrow> bool) \<Rightarrow> nat \<Rightarrow> nat \<Rightarrow> nat" where
  "lower_bound lt first len =
     (if len = 0 then first
      else let half = len div 2; middle = first + half
           in if lt middle then lower_bound lt (middle + 1) (len - half - 1)
              else lower_bound lt first half)"

declare lower_bound.simps [simp del]

definition get_slab_class :: "slab_class list \<Rightarrow> nat \<Rightarrow> Status + nat" where
  "get_slab_class table sz =
     (let it = lower_bound (\<lambda>i. sc_slot_size (table ! i) < sz) 0 (length table)
      in if it < length table \<and> sz \<le> sc_slot_size (table ! it) then Inr it
         else Inl (ObjectTooLarge ''Object is too large''))"

subsection \<open>The tables\<close>

definition slab_class_init :: "nat \<Rightarrow> nat list \<Rightarrow> slab_class list" where
  "slab_class_init block_size sizes =
     map (\<lambda>i. \<lparr>sc_cid = int i, sc_slot_size = sizes ! i,
               sc_slots_per_slab = block_size div (sizes ! i), slab_partial = []\<rparr>)
       [0..<length sizes]"

function class_loop :: "nat \<Rightarrow> int \<Rightarrow> nat \<Rightarrow> int \<Rightarrow> int list \<Rightarrow> int list \<times> nat" where
  "class_loop max_nr max_slot_size i curr_size arr =
     (if i < max_nr then
        let arr = arr @ [curr_size]; curr_size = min (curr_size * 2) max_slot_size
        in if 1 < i \<and> max_slot_size \<le> arr ! (i - 1) then (arr, i)
           else class_loop max_nr max_slot_size (i + 1) curr_size arr
      else (arr, i))"
  by pat_completeness auto
termination
  by (relation "measure (\<lambda>(max_nr, _, i, _, _). max_nr - i)") auto

declare class_loop.simps [simp del]

text \<open>The sizes \<^verbatim>\<open>slab_class_size[0..nr_slab_class_out)\<close>.\<close>

definition default_slab_class_size :: "int \<Rightarrow> int \<Rightarrow> nat \<Rightarrow> int list" where
  "default_slab_class_size slab_size min_kv_size max_nr =
     (let max_slot_size = slab_size - int slab_header_size;
          min_slot_size = min_kv_size + int slot_header_size;
          (arr, n) = class_loop max_nr max_slot_size 0 min_slot_size []
      in take n arr)"

definition MaxKVSize :: "slab_class list \<Rightarrow> nat" where
  "MaxKVSize table = sc_slot_size (last table) - slot_header_size"

subsection \<open>The search finds the smallest class that fits\<close>

text \<open>\<open>r\<close> splits the range into elements below the target and elements not below it.\<close>

definition splits_at :: "(nat \<Rightarrow> bool) \<Rightarrow> nat \<Rightarrow> nat \<Rightarrow> nat \<Rightarrow> bool" where
  "splits_at lt first len r \<longleftrightarrow> first \<le> r \<and> r \<le> first + len \<and>
     (\<forall>i. first \<le> i \<and> i < r \<longrightarrow> lt i) \<and> (\<forall>i. r \<le> i \<and> i < first + len \<longrightarrow> \<not> lt i)"

lemma splits_at_right:
  assumes r: "splits_at lt (mid + 1) (first + len - (mid + 1)) r" and mid: "first \<le> mid" "mid < first + len"
    and below: "\<And>i. first \<le> i \<Longrightarrow> i \<le> mid \<Longrightarrow> lt i"
  shows "splits_at lt first len r"
proof -
  have "lt i" if "first \<le> i" "i < r" for i
    using below [of i] r that by (cases "i \<le> mid") (auto simp: splits_at_def)
  then show ?thesis using r mid by (auto simp: splits_at_def)
qed

lemma splits_at_left:
  assumes r: "splits_at lt first (mid - first) r" and mid: "first \<le> mid" "mid \<le> first + len"
    and above: "\<And>i. mid \<le> i \<Longrightarrow> i < first + len \<Longrightarrow> \<not> lt i"
  shows "splits_at lt first len r"
proof -
  have "\<not> lt i" if "r \<le> i" "i < first + len" for i
    using above [of i] r mid that by (cases "mid \<le> i") (auto simp: splits_at_def)
  then show ?thesis using r mid by (auto simp: splits_at_def)
qed

lemma lower_bound_spec:
  assumes "\<And>i j. first \<le> i \<Longrightarrow> i \<le> j \<Longrightarrow> j < first + len \<Longrightarrow> lt j \<Longrightarrow> lt i"
  shows "splits_at lt first len (lower_bound lt first len)"
  using assms
proof (induction lt first len rule: lower_bound.induct)
  case (1 lt first len)
  define mid where "mid = first + len div 2"
  show ?case
  proof (cases "len = 0")
    case True
    then show ?thesis by (auto simp: lower_bound.simps [of lt first] splits_at_def)
  next
    case False
    then have mid: "first \<le> mid" "mid < first + len" by (auto simp: mid_def)
    show ?thesis
    proof (cases "lt mid")
      case True
      have len': "len - len div 2 - 1 = first + len - (mid + 1)" by (simp add: mid_def)
      have "splits_at lt (mid + 1) (len - len div 2 - 1)
          (lower_bound lt (mid + 1) (len - len div 2 - 1))"
        by (rule "1.IH"(1) [OF False refl mid_def True], rule "1.prems")
          (use False in \<open>auto simp: mid_def\<close>)
      then have "splits_at lt (mid + 1) (first + len - (mid + 1))
          (lower_bound lt (mid + 1) (first + len - (mid + 1)))"
        unfolding len' .
      moreover have "lower_bound lt first len = lower_bound lt (mid + 1) (first + len - (mid + 1))"
        using False True len' by (simp add: lower_bound.simps [of lt first] Let_def flip: mid_def)
      ultimately show ?thesis
        using mid True "1.prems" by (auto intro: splits_at_right)
    next
      case notless: False
      have "splits_at lt first (mid - first) (lower_bound lt first (mid - first))"
        using "1.IH"(2) [of "len div 2" mid] False notless "1.prems" mid
        by (simp add: mid_def)
      moreover have "lower_bound lt first len = lower_bound lt first (mid - first)"
        using False notless by (simp add: lower_bound.simps [of lt first] Let_def mid_def)
      moreover have "\<not> lt i" if "mid \<le> i" "i < first + len" for i
        using "1.prems" [of mid i] notless mid that by auto
      ultimately show ?thesis
        using mid splits_at_left [of lt first mid "lower_bound lt first (mid - first)" len] by simp
    qed
  qed
qed

lemma get_slab_class_Inr:
  "get_slab_class table sz = Inr c \<Longrightarrow> c < length table \<and> sz \<le> sc_slot_size (table ! c)"
  by (auto simp: get_slab_class_def Let_def split: if_splits)

text \<open>On a table sorted by slot size the class found is the smallest that fits.\<close>

lemma lower_bound_sorted:
  "sorted (map sc_slot_size table) \<Longrightarrow>
   splits_at (\<lambda>i. sc_slot_size (table ! i) < sz) 0 (length table)
     (lower_bound (\<lambda>i. sc_slot_size (table ! i) < sz) 0 (length table))"
  by (rule lower_bound_spec) (auto simp: sorted_iff_nth_mono intro: le_less_trans)

lemma get_slab_class_least:
  assumes "sorted (map sc_slot_size table)" and c: "get_slab_class table sz = Inr c"
    and "i < length table" and "sz \<le> sc_slot_size (table ! i)"
  shows "c \<le> i"
proof (rule ccontr)
  assume "\<not> c \<le> i"
  have "lower_bound (\<lambda>i. sc_slot_size (table ! i) < sz) 0 (length table) = c"
    using c by (simp add: get_slab_class_def Let_def split: if_splits)
  then have "splits_at (\<lambda>i. sc_slot_size (table ! i) < sz) 0 (length table) c"
    using lower_bound_sorted [OF assms(1), of sz] by (rule subst)
  with \<open>\<not> c \<le> i\<close> have "sc_slot_size (table ! i) < sz" by (simp add: splits_at_def)
  with assms(4) show False by simp
qed

lemma get_slab_class_Inl:
  assumes sorted: "sorted (map sc_slot_size table)" and st: "get_slab_class table sz = Inl st"
    and "c \<in> set table"
  shows "sc_slot_size c < sz"
proof -
  define r where "r = lower_bound (\<lambda>i. sc_slot_size (table ! i) < sz) 0 (length table)"
  have r: "splits_at (\<lambda>i. sc_slot_size (table ! i) < sz) 0 (length table) r"
    unfolding r_def by (rule lower_bound_sorted [OF sorted])
  have "\<not> (r < length table \<and> sz \<le> sc_slot_size (table ! r))"
    using st unfolding get_slab_class_def Let_def r_def [symmetric] by (metis sum.distinct(1))
  moreover have "\<not> sc_slot_size (table ! r) < sz" if "r < length table"
    using r that by (simp add: splits_at_def)
  ultimately have "\<not> r < length table" by (meson leI)
  then have "sc_slot_size (table ! i) < sz" if "i < length table" for i
    using r that by (simp add: splits_at_def)
  then show ?thesis using assms(3) by (auto simp: in_set_conv_nth)
qed

subsection \<open>The default table\<close>

text \<open>The sizes of the table: doubling from the smallest, capped by the largest.\<close>

definition class_size_at :: "int \<Rightarrow> int \<Rightarrow> nat \<Rightarrow> int" where
  "class_size_at m s i = min (s * 2 ^ i) m"

lemma class_size_at_Suc: "0 < s \<Longrightarrow> 0 < m \<Longrightarrow> min (class_size_at m s i * 2) m = class_size_at m s (Suc i)"
  by (auto simp: class_size_at_def min_def)

lemma class_size_at_mono: "0 < s \<Longrightarrow> i \<le> j \<Longrightarrow> class_size_at m s i \<le> class_size_at m s j"
proof -
  assume "0 < s" "i \<le> j"
  then have "s * 2 ^ i \<le> s * 2 ^ j" by (simp add: power_increasing)
  then show ?thesis by (auto simp: class_size_at_def)
qed

lemma class_size_at_less:
  assumes "0 < s" and "i < j" and "class_size_at m s i < m"
  shows "class_size_at m s i < class_size_at m s j"
proof -
  have "(2::int) ^ i < 2 ^ j" using assms(2) by (simp add: power_strict_increasing)
  then have "s * 2 ^ i < s * 2 ^ j" using assms(1) by simp
  then show ?thesis using assms(3) by (auto simp: class_size_at_def)
qed

lemma class_loop_sizes:
  assumes "0 < s" and "s < m" and "i < max_nr" and "m \<le> s * 2 ^ (max_nr - 2)" and "2 < max_nr"
    and "\<And>j. j + 1 < i \<Longrightarrow> class_size_at m s j < m"
  shows "\<exists>n. class_loop max_nr m i (class_size_at m s i) (map (class_size_at m s) [0..<i]) =
      (map (class_size_at m s) [0..<Suc n], n) \<and> 2 \<le> n \<and> n < max_nr \<and>
      class_size_at m s (n - 1) = m \<and> (\<forall>j. j + 1 < n \<longrightarrow> class_size_at m s j < m)"
  using assms(3,6)
proof (induction "max_nr - i" arbitrary: i)
  case 0
  then show ?case by simp
next
  case (Suc k)
  let ?cs = "class_size_at m s"
  have cap: "?cs j \<le> m" for j by (simp add: class_size_at_def)
  have unfold: "class_loop max_nr m i (?cs i) (map ?cs [0..<i]) =
      (if 1 < i \<and> m \<le> ?cs (i - 1) then (map ?cs [0..<Suc i], i)
       else class_loop max_nr m (Suc i) (?cs (Suc i)) (map ?cs [0..<Suc i]))"
    using Suc.prems(1) assms(1,2)
    by (auto simp: class_loop.simps [of max_nr m i] Let_def class_size_at_Suc nth_append)
  show ?case
  proof (cases "1 < i \<and> m \<le> ?cs (i - 1)")
    case True
    then have "?cs (i - 1) = m" using cap [of "i - 1"] by simp
    with True Suc.prems unfold show ?thesis by (intro exI [of _ i]) simp
  next
    case False
    have less: "?cs j < m" if "j + 1 < Suc i" for j
    proof (cases "j + 1 < i")
      case True
      then show ?thesis by (rule Suc.prems(2))
    next
      case j: False
      then have "j = i - 1" "0 < i" using that by auto
      then show ?thesis
        using False assms(1,2) by (cases "1 < i") (auto simp: class_size_at_def)
    qed
    have "Suc i < max_nr"
    proof (rule ccontr)
      assume "\<not> Suc i < max_nr"
      then have "i - 1 = max_nr - 2" and "1 < i" using Suc.prems(1) assms(5) by auto
      then have "m \<le> ?cs (i - 1)" using assms(4) by (simp add: class_size_at_def)
      with False \<open>1 < i\<close> show False by simp
    qed
    then show ?thesis
      unfolding unfold using Suc.hyps(1) [of "Suc i"] Suc.hyps(2) less False by auto
  qed
qed

text \<open>
  For a slab that holds more than one smallest slot: the default table starts with the smallest
  slot, increases strictly, at most doubles from one class to the next, and ends with the
  largest slot that fits in a slab.
\<close>

lemma default_slab_class_size_table:
  assumes kv: "0 \<le> kv" and m: "kv + 8 < slab_size - 44" and nr: "2 < nr"
    and cap: "slab_size - 44 \<le> (kv + 8) * 2 ^ (nr - 2)"
  shows "\<exists>n. default_slab_class_size slab_size kv nr =
      map (class_size_at (slab_size - 44) (kv + 8)) [0..<n] \<and> 2 \<le> n \<and> n < nr \<and>
      class_size_at (slab_size - 44) (kv + 8) (n - 1) = slab_size - 44 \<and>
      (\<forall>j. j + 1 < n \<longrightarrow> class_size_at (slab_size - 44) (kv + 8) j < slab_size - 44)"
proof -
  let ?cs = "class_size_at (slab_size - 44) (kv + 8)"
  have "?cs 0 = kv + 8" using m by (simp add: class_size_at_def)
  then obtain n where n: "class_loop nr (slab_size - 44) 0 (kv + 8) [] = (map ?cs [0..<Suc n], n)"
    "2 \<le> n" "n < nr" "?cs (n - 1) = slab_size - 44" "\<forall>j. j + 1 < n \<longrightarrow> ?cs j < slab_size - 44"
    using class_loop_sizes [of "kv + 8" "slab_size - 44" 0 nr] assms by auto
  then show ?thesis
    by (intro exI [of _ n]) (simp add: default_slab_class_size_def Let_def)
qed

subsection \<open>Properties\<close>

text \<open>
  C35: for a table of increasing slot sizes, \<^verbatim>\<open>get_slab_class\<close> (a binary search) returns the first
  class whose slots hold the object; it returns \<^verbatim>\<open>ObjectTooLarge\<close> exactly when no class does.
\<close>

theorem class_choice:
  assumes "sorted (map sc_slot_size table)"
  shows "case get_slab_class table sz of
      Inr c \<Rightarrow> c < length table \<and> sz \<le> sc_slot_size (table ! c) \<and>
        (\<forall>i < c. sc_slot_size (table ! i) < sz)
    | Inl st \<Rightarrow> st = ObjectTooLarge ''Object is too large'' \<and> (\<forall>c \<in> set table. sc_slot_size c < sz)"
proof (cases "get_slab_class table sz")
  case (Inl st)
  then show ?thesis
    using get_slab_class_Inl [OF assms Inl] by (auto simp: get_slab_class_def Let_def split: if_splits)
next
  case (Inr c)
  have "sc_slot_size (table ! i) < sz" if "i < c" for i
    using get_slab_class_least [OF assms Inr, of i] get_slab_class_Inr [OF Inr] that by linarith
  then show ?thesis using get_slab_class_Inr [OF Inr] Inr by simp
qed

theorem class_choice_witness:
  "get_slab_class (slab_class_init 1000 [40, 80, 160]) 81 = Inr 2"
proof -
  let ?t = "slab_class_init 1000 [40, 80, 160]"
  have t: "?t = [\<lparr>sc_cid = 0, sc_slot_size = 40, sc_slots_per_slab = 25, slab_partial = []\<rparr>,
      \<lparr>sc_cid = 1, sc_slot_size = 80, sc_slots_per_slab = 12, slab_partial = []\<rparr>,
      \<lparr>sc_cid = 2, sc_slot_size = 160, sc_slots_per_slab = 6, slab_partial = []\<rparr>]"
    by code_simp
  have "sorted (map sc_slot_size ?t)" by (simp add: t)
  from class_choice [OF this, of 81] show ?thesis
    by (auto simp: t less_Suc_eq_0_disj nth_Cons' split: sum.splits if_splits)
qed



end
