(* ===== verification/KV_Float.thy ===== *)
theory KV_Float
  imports KV_Prelude
begin

text \<open>
  The floating-point arithmetic the source uses on block counts: products of a \<^verbatim>\<open>float\<close> option or
  a \<^verbatim>\<open>double\<close> literal with an \<^verbatim>\<open>int\<close>, and their conversion to \<^verbatim>\<open>int\<close>. A value \<open>(m, e)\<close> is the
  number \<open>m * 2 ^ e\<close>; every operation rounds to the precision of its type (24 bits for
  \<^verbatim>\<open>float\<close>, 53 for \<^verbatim>\<open>double\<close>), to nearest with ties to even, as IEEE 754 prescribes. The exponent
  range is not limited: the products here stay far from its ends.
\<close>

type_synonym fval = "int \<times> int"

fun nbits :: "nat \<Rightarrow> nat" where
  "nbits n = (if n = 0 then 0 else Suc (nbits (n div 2)))"

declare nbits.simps [simp del]

definition round_div :: "int \<Rightarrow> int \<Rightarrow> int" where
  "round_div m d =
     (let q = m div d; r = m mod d
      in if 2 * r < d \<or> (2 * r = d \<and> even q) then q else q + 1)"

definition fl_round :: "nat \<Rightarrow> fval \<Rightarrow> fval" where
  "fl_round p x =
     (let k = nbits (nat \<bar>fst x\<bar>) - p in (round_div (fst x) (2 ^ k), snd x + int k))"

definition fl_of_int :: "nat \<Rightarrow> int \<Rightarrow> fval" where
  "fl_of_int p n = fl_round p (n, 0)"

definition fl_mult :: "nat \<Rightarrow> fval \<Rightarrow> fval \<Rightarrow> fval" where
  "fl_mult p x y = fl_round p (fst x * fst y, snd x + snd y)"

definition fl_add :: "nat \<Rightarrow> fval \<Rightarrow> fval \<Rightarrow> fval" where
  "fl_add p x y =
     (let e = min (snd x) (snd y)
      in fl_round p (fst x * 2 ^ nat (snd x - e) + fst y * 2 ^ nat (snd y - e), e))"

text \<open>Conversion to \<^verbatim>\<open>int\<close> truncates towards zero.\<close>

definition fl_trunc :: "fval \<Rightarrow> int" where
  "fl_trunc x =
     (if 0 \<le> snd x then fst x * 2 ^ nat (snd x)
      else sgn (fst x) * (\<bar>fst x\<bar> div 2 ^ nat (- snd x)))"

text \<open>\<^verbatim>\<open>static_cast<int>(option * n)\<close> with a \<^verbatim>\<open>float\<close> option, and \<^verbatim>\<open>literal * n\<close> with a \<^verbatim>\<open>double\<close>.\<close>

definition float_times_int :: "fval \<Rightarrow> int \<Rightarrow> int" where
  "float_times_int f n = fl_trunc (fl_mult 24 f (fl_of_int 24 n))"

definition double_times :: "fval \<Rightarrow> int \<Rightarrow> fval" where
  "double_times f n = fl_mult 53 f (fl_of_int 53 n)"

definition double_times_int :: "fval \<Rightarrow> int \<Rightarrow> int" where
  "double_times_int f n = fl_trunc (double_times f n)"

text \<open>The literals of the source as the nearest \<^verbatim>\<open>double\<close> or \<^verbatim>\<open>float\<close>.\<close>

definition d_0_3 :: fval where "d_0_3 = (5404319552844595, -54)"
definition d_0_9 :: fval where "d_0_9 = (8106479329266893, -53)"
definition d_1_1 :: fval where "d_1_1 = (4953959590107546, -52)"
definition d_1_5 :: fval where "d_1_5 = (3, -1)"
definition f_0_2 :: fval where "f_0_2 = (13421773, -26)"
definition f_0_02 :: fval where "f_0_02 = (10737418, -29)"
definition f_0_07 :: fval where "f_0_07 = (9395241, -27)"
definition f_0_8 :: fval where "f_0_8 = (13421773, -24)"
definition f_0_9 :: fval where "f_0_9 = (15099494, -24)"

lemmas literal_defs = d_0_3_def d_0_9_def d_1_1_def d_1_5_def
  f_0_2_def f_0_02_def f_0_07_def f_0_8_def f_0_9_def

subsection \<open>Rounding\<close>

lemma nbits_bounds: "n < 2 ^ nbits n" "0 < n \<Longrightarrow> 2 ^ nbits n \<le> 2 * n"
proof (induction n rule: nbits.induct)
  case (1 n)
  {
    case 1
    show ?case
      using "1.IH"(1) by (cases "n = 0") (auto simp: nbits.simps [of n])
  next
    case 2
    show ?case
    proof (cases "n div 2 = 0")
      case True
      with 2 have "n = 1" by auto
      then show ?thesis by (simp add: nbits.simps [of "Suc 0"] nbits.simps [of 0])
    next
      case False
      with 2 "1.IH"(2) have "2 ^ nbits (n div 2) \<le> 2 * (n div 2)" by simp
      with 2 show ?thesis by (simp add: nbits.simps [of n])
    qed
  }
qed

lemma nbits_le: "n < 2 ^ p \<Longrightarrow> nbits n \<le> p"
proof (cases "n = 0")
  case True
  then show ?thesis by (simp add: nbits.simps)
next
  case False
  assume "n < 2 ^ p"
  then have "2 ^ nbits n < (2::nat) ^ Suc p" using nbits_bounds(2) [of n] False by simp
  then have "nbits n < Suc p" by (rule power_less_imp_less_exp [rotated]) simp
  then show ?thesis by simp
qed

lemma round_div_1 [simp]: "round_div m 1 = m"
  by (simp add: round_div_def)

lemma fl_round_exact: "\<bar>fst x\<bar> < 2 ^ p \<Longrightarrow> fl_round p x = x"
proof -
  assume "\<bar>fst x\<bar> < 2 ^ p"
  then have "nat \<bar>fst x\<bar> < 2 ^ p" by (simp add: nat_less_iff)
  then have "nbits (nat \<bar>fst x\<bar>) \<le> p" by (rule nbits_le)
  then show ?thesis by (simp add: fl_round_def)
qed

lemma round_div_error:
  assumes "0 < d"
  shows "2 * \<bar>round_div m d * d - m\<bar> \<le> d"
proof -
  have m: "m div d * d = m - m mod d" by (simp add: minus_mod_eq_div_mult)
  have r: "0 \<le> m mod d" "m mod d < d" using assms by simp_all
  have "round_div m d * d - m = - (m mod d) \<and> 2 * (m mod d) \<le> d \<or>
      round_div m d * d - m = d - m mod d \<and> d \<le> 2 * (m mod d)"
    using m by (simp add: round_div_def Let_def distrib_right)
  then show ?thesis using r by auto
qed

text \<open>Rounding never crosses a representable number that is closer than half a unit.\<close>

lemma round_div_ge: "0 < d \<Longrightarrow> 2 * (c * d - m) < d \<Longrightarrow> c \<le> round_div m d"
proof (rule ccontr)
  assume d: "0 < d" and close: "2 * (c * d - m) < d" and "\<not> c \<le> round_div m d"
  then have "(round_div m d + 1) * d \<le> c * d" by (intro mult_right_mono) auto
  then have "d \<le> c * d - round_div m d * d" by (simp add: distrib_right)
  moreover have "- d \<le> 2 * x" if "2 * \<bar>x\<bar> \<le> d" for x
    using that by linarith
  note this [OF round_div_error [OF d, of m]]
  ultimately show False using close by (simp add: algebra_simps)
qed

end
