(* ===== verification/KV_State.thy ===== *)
theory KV_State
  imports KV_Slab KV_SSD KV_Index KV_Class KV_Float
begin

text \<open>
  The state of a \<^verbatim>\<open>KVCache\<close> object (\<^verbatim>\<open>include/kvcache.h\<close>): the slabs, the lists they travel
  through, the slab classes, the index, the counters and water marks. A \<^verbatim>\<open>List\<close> is the sequence
  of the numbers of the slabs on it (first entry first) with its \<^verbatim>\<open>size_\<close> field. The exclusive
  hold on \<^verbatim>\<open>index_mutex_\<close> is part of the state, so that locking it twice shows as a blocked
  thread.
\<close>

subsection \<open>Lists of slabs\<close>

record slist =
  items :: "nat list"
  lsize :: int

definition slist_init :: slist where
  "slist_init = \<lparr>items = [], lsize = 0\<rparr>"

text \<open>\<^verbatim>\<open>list_add(&slab->list, &l.list_); l.size_++\<close>\<close>

definition slist_add :: "nat \<Rightarrow> slist \<Rightarrow> slist" where
  "slist_add x l = l\<lparr>items := x # items l, lsize := lsize l + 1\<rparr>"

text \<open>\<^verbatim>\<open>list_del(&slab->list); l.size_--\<close>\<close>

definition slist_del :: "nat \<Rightarrow> slist \<Rightarrow> slist" where
  "slist_del x l = l\<lparr>items := remove1 x (items l), lsize := lsize l - 1\<rparr>"

definition slist_ok :: "slist \<Rightarrow> bool" where
  "slist_ok l \<longleftrightarrow> lsize l = int (length (items l))"

text \<open>One list per channel.\<close>

definition chan_add :: "nat \<Rightarrow> nat \<Rightarrow> slist list \<Rightarrow> slist list" where
  "chan_add c x ls = ls[c := slist_add x (ls ! c)]"

definition chan_del :: "nat \<Rightarrow> nat \<Rightarrow> slist list \<Rightarrow> slist list" where
  "chan_del c x ls = ls[c := slist_del x (ls ! c)]"

subsection \<open>The cache\<close>

record 'db kv =
  ssd :: "'db ssd"
  enable_background_flush :: bool
  enable_background_gc :: bool
  slab_size :: nat
  nr_mslab :: nat
  nr_dslab :: nat
  mslab_base :: nat
  slabs :: "slab list"
  mslab_free :: slist
  mslab_full :: slist
  dslab_free :: "slist list"
  dslab_full :: "slist list"
  ops_pool :: "slist list"
  max_ops_pool_size :: int
  ops_pool_size :: int
  nr_free_dslab :: int
  nr_full_dslab :: int
  slab_class_table :: "slab_class list"
  index :: index
  next_mslab_flush_channel :: nat
  next_ops_pool_remove_channel :: nat
  water_mark_low :: int
  water_mark_high :: int
  water_mark_low_min :: int
  water_mark_high_max :: int
  shutdown :: bool
  slab_flush_thread_started :: bool
  slab_gc_thread_started :: bool
  index_locked :: bool

text \<open>
  What the cache gets from outside: RocksDB, the hash functions, and the element that
  \<^verbatim>\<open>std::priority_queue::top\<close> picks among the queued ones, given by its position (the standard
  only says that it is a greatest one). \<open>ndebug\<close> is the build flag that compiles \<^verbatim>\<open>assert\<close> away; it
  matters where the argument of \<^verbatim>\<open>assert\<close> has a side effect.
\<close>

record 'db env =
  rdb :: "'db rocksdb"
  hash :: hashing
  heap_pick :: "int list \<Rightarrow> nat"
  ndebug :: bool

definition heap_pick_ok :: "'db env \<Rightarrow> bool" where
  "heap_pick_ok E \<longleftrightarrow> (\<forall>ps. ps \<noteq> [] \<longrightarrow>
     heap_pick E ps < length ps \<and> (\<forall>p \<in> set ps. p \<le> ps ! heap_pick E ps))"

definition upd_slab :: "nat \<Rightarrow> (slab \<Rightarrow> slab) \<Rightarrow> 'db kv \<Rightarrow> 'db kv" where
  "upd_slab i f s = s\<lparr>slabs := (slabs s)[i := f (slabs s ! i)]\<rparr>"

definition slab_by_sid :: "nat \<Rightarrow> 'db kv \<Rightarrow> (slab, 'db kv) outcome" where
  "slab_by_sid i s =
     seq (check (i < nr_mslab s + nr_dslab s) ''sid < nr_mslab_ + nr_dslab_'' s)
       (\<lambda>_ s. Ret (slabs s ! i) s)"

definition gc_buffer :: "'db kv \<Rightarrow> nat" where
  "gc_buffer s = nr_mslab s - 1"

definition next_channel :: "'db kv \<Rightarrow> nat \<Rightarrow> nat" where
  "next_channel s c = (c + 1) mod nat (nr_channels (ssd s))"

text \<open>The channel of a disk slab, as an index of the per-channel lists.\<close>

definition slab_channel :: "'db kv \<Rightarrow> nat \<Rightarrow> nat" where
  "slab_channel s d = nat (channel_id (ssd s) (block_id (slabs s ! d)))"

text \<open>Locking and unlocking \<^verbatim>\<open>index_mutex_\<close> exclusively.\<close>

definition lock_index :: "'db kv \<Rightarrow> (unit, 'db kv) outcome" where
  "lock_index s = (if index_locked s then Wait ''index_mutex_'' s else Ret () (s\<lparr>index_locked := True\<rparr>))"

definition unlock_index :: "'db kv \<Rightarrow> 'db kv" where
  "unlock_index s = s\<lparr>index_locked := False\<rparr>"

definition index_lookup :: "'db env \<Rightarrow> bytes \<Rightarrow> 'db kv \<Rightarrow> (nat option, 'db kv) outcome" where
  "index_lookup E key s =
     (case get_index_entry (hash E) key (index s) of Inl e \<Rightarrow> Exc e s | Inr r \<Rightarrow> Ret r s)"

text \<open>A run with a local variable that is not part of the object.\<close>

fun with_local :: "('a, 's \<times> 'l) outcome \<Rightarrow> ('a \<times> 'l, 's) outcome" where
  "with_local (Ret a (s, l)) = Ret (a, l) s"
| "with_local (Exc e (s, l)) = Exc e s"
| "with_local (Abort m) = Abort m"
| "with_local (Wait w (s, l)) = Wait w s"
| "with_local Hang = Hang"

subsection \<open>Simplification\<close>

lemma slist_simps [simp]:
  "items slist_init = []" "lsize slist_init = 0"
  "items (slist_add x l) = x # items l" "lsize (slist_add x l) = lsize l + 1"
  "items (slist_del x l) = remove1 x (items l)" "lsize (slist_del x l) = lsize l - 1"
  by (simp_all add: slist_init_def slist_add_def slist_del_def)

lemma slist_ok_simps [simp]:
  "slist_ok slist_init" "slist_ok (slist_add x l) = slist_ok l"
  by (simp_all add: slist_ok_def)

lemma slist_ok_del: "slist_ok l \<Longrightarrow> x \<in> set (items l) \<Longrightarrow> slist_ok (slist_del x l)"
  by (auto simp: slist_ok_def length_remove1 Suc_le_eq dest: length_pos_if_in_set)

lemma length_chan [simp]: "length (chan_add c x ls) = length ls" "length (chan_del c x ls) = length ls"
  by (simp_all add: chan_add_def chan_del_def)

lemma length_slabs_upd [simp]: "length (slabs (upd_slab i f s)) = length (slabs s)"
  by (simp add: upd_slab_def)

lemma slabs_upd: "i < length (slabs s) \<Longrightarrow>
    slabs (upd_slab i f s) ! j = (if j = i then f (slabs s ! i) else slabs s ! j)"
  by (auto simp: upd_slab_def nth_list_update)

lemma safe_with_local [simp]:
  "safe I Q (with_local m) = safe (\<lambda>(s, l). I s) (\<lambda>a (s, l). Q (a, l) s) m"
  by (cases m rule: with_local.cases) auto

lemma total_with_local [simp]:
  "total Q (with_local m) = total (\<lambda>a (s, l). Q (a, l) s) m"
  by (cases m rule: with_local.cases) auto

end
