(* ===== verification/KV_Inv.thy ===== *)
theory KV_Inv
  imports KV_State
begin

text \<open>
  The abstract contents of a cache and the invariants that relate its parts.
  \<open>cache E s\<close> is the partial map from keys to values that the cache stands for. \<open>data_inv\<close> ties the
  index to the slabs: every entry points to an allocated slot whose key has the hash key of the
  entry, slots stay inside their slab, a disk slab with objects is backed by its block, and the
  use count of a slab bounds the entries that point into it. \<open>list_inv\<close> is about the lists the
  slabs travel through.
\<close>

subsection \<open>Contents\<close>

text \<open>The data area of a slab: in memory, or in its block.\<close>

definition slab_data :: "'db env \<Rightarrow> 'db kv \<Rightarrow> nat \<Rightarrow> bytes" where
  "slab_data E s i =
     (if im_memory (slabs s ! i) then data (slabs s ! i)
      else case read_block (rdb E) (ssd s) (block_id (slabs s ! i)) of
             Inl st \<Rightarrow> [] | Inr b \<Rightarrow> drop slab_header_size b)"

definition content :: "'db env \<Rightarrow> 'db kv \<Rightarrow> loc \<Rightarrow> bytes \<times> bytes" where
  "content E s l = slot_kv (slab_data E s (fst l)) (slab_slot (slabs s ! fst l) (snd l))"

abbreviation view :: "'db kv \<Rightarrow> hkey \<Rightarrow> loc option" where
  "view s \<equiv> index_view (index s)"

definition hk :: "'db env \<Rightarrow> 'db kv \<Rightarrow> bytes \<Rightarrow> hkey" where
  "hk E s key = hkey (hash E) (length (itable (index s))) key"

definition cache :: "'db env \<Rightarrow> 'db kv \<Rightarrow> bytes \<Rightarrow> bytes option" where
  "cache E s key =
     (case view s (hk E s key) of
        None \<Rightarrow> None
      | Some l \<Rightarrow> if fst (content E s l) = key then Some (snd (content E s l)) else None)"

subsection \<open>The data invariant\<close>

definition geom :: "'db env \<Rightarrow> 'db kv \<Rightarrow> bool" where
  "geom E s \<longleftrightarrow> ssd_ok (rdb E) (ssd s) \<and> int (slab_size s) = block_size (ssd s) \<and>
     44 < slab_size s \<and> slab_size s < 2 ^ 31 \<and> 0 < nr_mslab s \<and>
     int (nr_dslab s) = nr_blocks (ssd s) \<and> length (slabs s) = nr_mslab s + nr_dslab s \<and>
     length (slabs s) < 2 ^ 31 \<and> mslab_base s mod slab_size s = 0 \<and>
     (\<forall>i < length (slabs s). sid (slabs s ! i) = i) \<and>
     (\<forall>i < nr_mslab s. block_id (slabs s ! i) = -1 \<and> length (data (slabs s ! i)) = slab_size s - 44) \<and>
     (\<forall>i. nr_mslab s \<le> i \<and> i < length (slabs s) \<longrightarrow>
        0 \<le> block_id (slabs s ! i) \<and> block_id (slabs s ! i) < nr_blocks (ssd s)) \<and>
     inj_on (\<lambda>i. block_id (slabs s ! i)) {nr_mslab s..<length (slabs s)} \<and>
     (\<forall>c < length (slab_class_table s). sc_cid (slab_class_table s ! c) = int c \<and>
        0 < sc_slot_size (slab_class_table s ! c) \<and>
        sc_slot_size (slab_class_table s ! c) \<le> slab_size s - 44) \<and>
     length (slab_class_table s) < 2 ^ 31"

text \<open>A header is reset, or it is that of its class; the use count is within the allocated slots.\<close>

definition hdr_ok :: "'db kv \<Rightarrow> slab \<Rightarrow> bool" where
  "hdr_ok s sl \<longleftrightarrow> 0 \<le> nr_used sl \<and> nr_used sl \<le> int (nr_alloc sl) \<and> nr_alloc sl \<le> nr_slots sl \<and>
     (cid sl = -1 \<and> slot_size sl = 0 \<and> nr_slots sl = 0 \<or>
      0 \<le> cid sl \<and> cid sl < int (length (slab_class_table s)) \<and>
      slot_size sl = sc_slot_size (slab_class_table s ! nat (cid sl)) \<and>
      nr_slots sl = (slab_size s - 44) div slot_size sl)"

text \<open>A disk slab with objects is backed by its block, whose header agrees on the slots.\<close>

definition backed :: "'db env \<Rightarrow> 'db kv \<Rightarrow> nat \<Rightarrow> bool" where
  "backed E s i \<longleftrightarrow> im_memory (slabs s ! i) \<or> nr_alloc (slabs s ! i) = 0 \<or>
     (\<exists>b. read_block (rdb E) (ssd s) (block_id (slabs s ! i)) = Inr b \<and> length b = slab_size s \<and>
        nr_alloc (slab_of_bytes b) = nr_alloc (slabs s ! i) \<and>
        slot_size (slab_of_bytes b) = slot_size (slabs s ! i))"

definition slots_fit :: "'db env \<Rightarrow> 'db kv \<Rightarrow> nat \<Rightarrow> bool" where
  "slots_fit E s i \<longleftrightarrow> (\<forall>j < nr_alloc (slabs s ! i).
     slot_fits (slot_size (slabs s ! i)) (slab_data E s i) (slab_slot (slabs s ! i) j))"

definition slabs_ok :: "'db env \<Rightarrow> 'db kv \<Rightarrow> bool" where
  "slabs_ok E s \<longleftrightarrow> (\<forall>i < length (slabs s).
     hdr_ok s (slabs s ! i) \<and> backed E s i \<and> slots_fit E s i)"

definition points_ok :: "'db env \<Rightarrow> 'db kv \<Rightarrow> bool" where
  "points_ok E s \<longleftrightarrow> (\<forall>h i j. view s h = Some (i, j) \<longrightarrow>
     i < length (slabs s) \<and> j < nr_alloc (slabs s ! i) \<and> hk E s (fst (content E s (i, j))) = h)"

text \<open>The slots of a slab that some entry points to.\<close>

definition live :: "'db kv \<Rightarrow> nat \<Rightarrow> nat set" where
  "live s i = {j. \<exists>h. view s h = Some (i, j)}"

definition used_ok :: "'db kv \<Rightarrow> bool" where
  "used_ok s \<longleftrightarrow> (\<forall>i < length (slabs s). int (card (live s i)) \<le> nr_used (slabs s ! i))"

definition data_inv :: "'db env \<Rightarrow> 'db kv \<Rightarrow> bool" where
  "data_inv E s \<longleftrightarrow> geom E s \<and> slabs_ok E s \<and> index_ok (index s) \<and> points_ok E s \<and> used_ok s"

text \<open>The fields the data invariant and the contents do not depend on.\<close>

definition same_data :: "'db kv \<Rightarrow> 'db kv \<Rightarrow> bool" where
  "same_data s s' \<longleftrightarrow> ssd s' = ssd s \<and> slab_size s' = slab_size s \<and> nr_mslab s' = nr_mslab s \<and>
     nr_dslab s' = nr_dslab s \<and> mslab_base s' = mslab_base s \<and> slabs s' = slabs s \<and>
     index s' = index s \<and>
     map (\<lambda>sc. (sc_cid sc, sc_slot_size sc)) (slab_class_table s') =
     map (\<lambda>sc. (sc_cid sc, sc_slot_size sc)) (slab_class_table s)"

lemma same_data_classes:
  assumes "same_data s s'"
  shows "length (slab_class_table s') = length (slab_class_table s)"
    and "c < length (slab_class_table s) \<Longrightarrow>
      sc_cid (slab_class_table s' ! c) = sc_cid (slab_class_table s ! c) \<and>
      sc_slot_size (slab_class_table s' ! c) = sc_slot_size (slab_class_table s ! c)"
proof -
  have m: "map (\<lambda>sc. (sc_cid sc, sc_slot_size sc)) (slab_class_table s') =
     map (\<lambda>sc. (sc_cid sc, sc_slot_size sc)) (slab_class_table s)"
    using assms by (simp add: same_data_def)
  show len: "length (slab_class_table s') = length (slab_class_table s)"
    using m by (rule map_eq_imp_length_eq)
  show "sc_cid (slab_class_table s' ! c) = sc_cid (slab_class_table s ! c) \<and>
      sc_slot_size (slab_class_table s' ! c) = sc_slot_size (slab_class_table s ! c)"
    if "c < length (slab_class_table s)"
    using that len arg_cong [OF m, of "\<lambda>xs. xs ! c"] by simp
qed

lemma same_data_view:
  assumes "same_data s s'"
  shows "slab_data E s' = slab_data E s" "content E s' = content E s" "hk E s' = hk E s"
    "cache E s' = cache E s" "live s' = live s"
proof -
  show d: "slab_data E s' = slab_data E s"
    using assms by (simp add: same_data_def slab_data_def fun_eq_iff)
  show c: "content E s' = content E s"
    using assms d by (simp add: same_data_def content_def fun_eq_iff)
  show h: "hk E s' = hk E s"
    using assms by (simp add: same_data_def hk_def fun_eq_iff)
  show "cache E s' = cache E s"
    unfolding cache_def c h using assms by (simp add: same_data_def)
  show "live s' = live s"
    using assms by (intro ext) (simp add: same_data_def live_def)
qed

lemma same_data_inv:
  assumes "same_data s s'"
  shows "data_inv E s' \<longleftrightarrow> data_inv E s"
proof -
  note cl = same_data_classes [OF assms] and v = same_data_view [OF assms]
  have "hdr_ok s' sl = hdr_ok s sl" for sl
    using cl assms by (auto simp: hdr_ok_def same_data_def nat_less_iff)
  moreover have "geom E s' = geom E s"
    using cl assms by (auto simp: geom_def same_data_def)
  ultimately show ?thesis
    using assms v
    by (simp add: data_inv_def slabs_ok_def points_ok_def used_ok_def backed_def slots_fit_def
        same_data_def)
qed

lemma same_data_refl [simp]: "same_data s s"
  by (simp add: same_data_def)

lemma same_data_updates [simp]:
  "same_data s (s\<lparr>mslab_free := x1\<rparr>)" "same_data s (s\<lparr>mslab_full := x1\<rparr>)"
  "same_data s (s\<lparr>dslab_free := x2\<rparr>)" "same_data s (s\<lparr>dslab_full := x2\<rparr>)"
  "same_data s (s\<lparr>ops_pool := x2\<rparr>)" "same_data s (s\<lparr>ops_pool_size := x3\<rparr>)"
  "same_data s (s\<lparr>nr_free_dslab := x3\<rparr>)" "same_data s (s\<lparr>nr_full_dslab := x3\<rparr>)"
  "same_data s (s\<lparr>next_mslab_flush_channel := x4\<rparr>)"
  "same_data s (s\<lparr>next_ops_pool_remove_channel := x4\<rparr>)"
  "same_data s (s\<lparr>water_mark_low := x3\<rparr>)" "same_data s (s\<lparr>water_mark_high := x3\<rparr>)"
  "same_data s (s\<lparr>slab_flush_thread_started := x5\<rparr>)"
  "same_data s (s\<lparr>slab_gc_thread_started := x5\<rparr>)" "same_data s (s\<lparr>index_locked := x5\<rparr>)"
  by (simp_all add: same_data_def)

lemma same_data_trans: "same_data s t \<Longrightarrow> same_data t u \<Longrightarrow> same_data s u"
  by (simp add: same_data_def)

subsection \<open>Consequences\<close>

lemma data_invD:
  assumes "data_inv E s"
  shows "geom E s" "slabs_ok E s" "index_ok (index s)" "points_ok E s" "used_ok s"
  using assms by (simp_all add: data_inv_def)

lemma data_inv_slab:
  assumes "data_inv E s" and "i < length (slabs s)"
  shows "hdr_ok s (slabs s ! i)" "backed E s i" "slots_fit E s i" "sid (slabs s ! i) = i"
    "int (card (live s i)) \<le> nr_used (slabs s ! i)"
  using assms by (auto simp: data_inv_def slabs_ok_def used_ok_def geom_def)

lemma data_inv_point:
  assumes "data_inv E s" and "view s h = Some (i, j)"
  shows "i < length (slabs s)" "j < nr_alloc (slabs s ! i)" "hk E s (fst (content E s (i, j))) = h"
    "j \<in> live s i"
proof -
  have "points_ok E s" using assms(1) by (simp add: data_inv_def)
  then show "i < length (slabs s)" "j < nr_alloc (slabs s ! i)"
    "hk E s (fst (content E s (i, j))) = h"
    using assms(2) unfolding points_ok_def by blast+
  show "j \<in> live s i" using assms(2) unfolding live_def by blast
qed

lemma im_memory_iff:
  assumes "geom E s" and "i < length (slabs s)"
  shows "im_memory (slabs s ! i) \<longleftrightarrow> i < nr_mslab s"
proof (cases "i < nr_mslab s")
  case True
  then show ?thesis using assms(1) by (simp add: geom_def im_memory_def)
next
  case False
  then have "0 \<le> block_id (slabs s ! i)" using assms unfolding geom_def by simp
  with False show ?thesis by (simp add: im_memory_def)
qed

lemma geom_class:
  assumes "geom E s" and "0 \<le> c" and "c < int (length (slab_class_table s))"
  shows "0 < sc_slot_size (slab_class_table s ! nat c)"
    "sc_slot_size (slab_class_table s ! nat c) \<le> slab_size s - 44" "c < 2 ^ 31"
    "sc_cid (slab_class_table s ! nat c) = c"
proof -
  have "nat c < length (slab_class_table s)" using assms(2,3) by linarith
  then show "0 < sc_slot_size (slab_class_table s ! nat c)"
    "sc_slot_size (slab_class_table s ! nat c) \<le> slab_size s - 44"
    "sc_cid (slab_class_table s ! nat c) = c"
    using assms(1,2) unfolding geom_def by auto
  have "length (slab_class_table s) < 2 ^ 31" using assms(1) unfolding geom_def by blast
  then show "c < 2 ^ 31" using assms(3) by simp
qed

text \<open>The index is one-to-one: the key in a slot determines the hash key that points to it.\<close>

lemma view_inj:
  assumes "data_inv E s" and "view s h = Some l" and "view s h' = Some l"
  shows "h = h'"
  using data_inv_point(3) [OF assms(1), of h "fst l" "snd l"]
    data_inv_point(3) [OF assms(1), of h' "fst l" "snd l"] assms(2,3) by simp

lemma live_subset: "data_inv E s \<Longrightarrow> live s i \<subseteq> {..<nr_alloc (slabs s ! i)}"
  using data_inv_point(2) unfolding live_def by blast

lemma finite_live: "data_inv E s \<Longrightarrow> finite (live s i)"
  using live_subset [of E s i] finite_subset [OF _ finite_lessThan] by metis

lemma live_empty_alloc: "data_inv E s \<Longrightarrow> nr_alloc (slabs s ! i) = 0 \<Longrightarrow> live s i = {}"
  using live_subset [of E s i] by simp

lemma hdr_ok_reset [simp]: "hdr_ok s (slab_reset sl)"
  by (simp add: hdr_ok_def slab_reset_def)

lemma hdr_ok_slots:
  assumes "geom E s" and "hdr_ok s sl"
  shows "slot_size sl * nr_slots sl \<le> slab_size s - 44" and "nr_slots sl < 2 ^ 31" "slot_size sl < 2 ^ 31"
    "nr_alloc sl < 2 ^ 31" "cid sl < 2 ^ 31" "- (2 ^ 31) \<le> cid sl"
    and "0 < nr_slots sl \<Longrightarrow> 0 < slot_size sl"
proof -
  have c: "cid sl = -1 \<and> slot_size sl = 0 \<and> nr_slots sl = 0 \<or>
      0 < slot_size sl \<and> slot_size sl \<le> slab_size s - 44 \<and> nr_slots sl = (slab_size s - 44) div slot_size sl
      \<and> 0 \<le> cid sl \<and> cid sl < 2 ^ 31"
    using assms(2) geom_class [OF assms(1), of "cid sl"] unfolding hdr_ok_def by auto
  then show le: "slot_size sl * nr_slots sl \<le> slab_size s - 44"
    by (auto simp: times_div_less_eq_dividend)
  have "slab_size s < 2 ^ 31" using assms(1) by (simp add: geom_def)
  moreover have "nr_slots sl \<le> slab_size s - 44" using c by auto
  moreover have "slot_size sl \<le> slab_size s - 44" using c by auto
  moreover have "nr_alloc sl \<le> nr_slots sl" using assms(2) by (simp add: hdr_ok_def)
  ultimately show "nr_slots sl < 2 ^ 31" "slot_size sl < 2 ^ 31" "nr_alloc sl < 2 ^ 31" by auto
  show "cid sl < 2 ^ 31" "- (2 ^ 31) \<le> cid sl" "0 < nr_slots sl \<Longrightarrow> 0 < slot_size sl" using c by auto
qed

text \<open>Every allocated slot lies inside the data area of its slab.\<close>

lemma slot_in_slab:
  assumes "geom E s" and "hdr_ok s sl" and "j < nr_slots sl"
  shows "slab_slot sl j + slot_size sl \<le> slab_size s - 44"
proof -
  have "slot_size sl * Suc j \<le> slot_size sl * nr_slots sl"
    using assms(3) by (intro mult_le_mono2) simp
  then show ?thesis using hdr_ok_slots(1) [OF assms(1,2)] by (simp add: slab_slot_def)
qed

subsection \<open>Frames\<close>

lemma upd_slab_simps [simp]:
  "ssd (upd_slab i f s) = ssd s" "slab_size (upd_slab i f s) = slab_size s"
  "nr_mslab (upd_slab i f s) = nr_mslab s" "nr_dslab (upd_slab i f s) = nr_dslab s"
  "mslab_base (upd_slab i f s) = mslab_base s" "index (upd_slab i f s) = index s"
  "slab_class_table (upd_slab i f s) = slab_class_table s"
  "mslab_free (upd_slab i f s) = mslab_free s" "mslab_full (upd_slab i f s) = mslab_full s"
  "dslab_free (upd_slab i f s) = dslab_free s" "dslab_full (upd_slab i f s) = dslab_full s"
  "ops_pool (upd_slab i f s) = ops_pool s" "ops_pool_size (upd_slab i f s) = ops_pool_size s"
  "max_ops_pool_size (upd_slab i f s) = max_ops_pool_size s"
  "nr_free_dslab (upd_slab i f s) = nr_free_dslab s" "nr_full_dslab (upd_slab i f s) = nr_full_dslab s"
  "index_locked (upd_slab i f s) = index_locked s" "shutdown (upd_slab i f s) = shutdown s"
  "enable_background_flush (upd_slab i f s) = enable_background_flush s"
  "enable_background_gc (upd_slab i f s) = enable_background_gc s"
  "next_ops_pool_remove_channel (upd_slab i f s) = next_ops_pool_remove_channel s"
  "next_mslab_flush_channel (upd_slab i f s) = next_mslab_flush_channel s"
  "water_mark_low (upd_slab i f s) = water_mark_low s" "water_mark_high (upd_slab i f s) = water_mark_high s"
  "gc_buffer (upd_slab i f s) = gc_buffer s"
  by (simp_all add: upd_slab_def gc_buffer_def)

lemma slabs_upd_other [simp]: "j \<noteq> i \<Longrightarrow> slabs (upd_slab i f s) ! j = slabs s ! j"
  by (simp add: upd_slab_def)

lemma slabs_upd_same [simp]: "i < length (slabs s) \<Longrightarrow> slabs (upd_slab i f s) ! i = f (slabs s ! i)"
  by (simp add: upd_slab_def)

lemma hk_upd_slab [simp]: "hk E (upd_slab i f s) = hk E s"
  by (simp add: hk_def fun_eq_iff)

lemma live_upd_slab [simp]: "live (upd_slab i f s) = live s"
  by (simp add: live_def fun_eq_iff)

lemma hdr_ok_upd_slab [simp]: "hdr_ok (upd_slab i f s) = hdr_ok s"
  by (simp add: hdr_ok_def fun_eq_iff)

lemma hdr_ok_index [simp]: "hdr_ok (s\<lparr>index := ix\<rparr>) = hdr_ok s"
  by (simp add: hdr_ok_def fun_eq_iff)

lemma slab_data_upd_other: "j \<noteq> i \<Longrightarrow> slab_data E (upd_slab i f s) j = slab_data E s j"
  by (simp add: slab_data_def)

lemma content_upd_other: "fst l \<noteq> i \<Longrightarrow> content E (upd_slab i f s) l = content E s l"
  by (simp add: content_def slab_data_upd_other)

lemma backed_upd_other: "j \<noteq> i \<Longrightarrow> backed E (upd_slab i f s) j = backed E s j"
  by (simp add: backed_def)

lemma slots_fit_upd_other: "j \<noteq> i \<Longrightarrow> slots_fit E (upd_slab i f s) j = slots_fit E s j"
  by (simp add: slots_fit_def slab_data_upd_other)

definition keeps_place :: "(slab \<Rightarrow> slab) \<Rightarrow> bool" where
  "keeps_place f \<longleftrightarrow> (\<forall>sl. sid (f sl) = sid sl \<and> block_id (f sl) = block_id sl \<and> data (f sl) = data sl)"

lemma geom_upd_slab:
  assumes "geom E s" and "sid (f (slabs s ! i)) = sid (slabs s ! i)"
    and "block_id (f (slabs s ! i)) = block_id (slabs s ! i)"
    and "length (data (f (slabs s ! i))) = length (data (slabs s ! i))"
  shows "geom E (upd_slab i f s)"
proof (cases "i < length (slabs s)")
  case True
  have same: "sid (slabs (upd_slab i f s) ! j) = sid (slabs s ! j)"
    "block_id (slabs (upd_slab i f s) ! j) = block_id (slabs s ! j)"
    "length (data (slabs (upd_slab i f s) ! j)) = length (data (slabs s ! j))" for j
    using assms(2-4) True by (cases "j = i"; simp)+
  show ?thesis
    using assms(1) unfolding geom_def same upd_slab_simps length_slabs_upd .
next
  case False
  then show ?thesis using assms(1) by (simp add: upd_slab_def list_update_beyond)
qed

text \<open>
  \<open>refines E s s'\<close>: every object of \<open>s'\<close> is an object of \<open>s\<close>, possibly at another place; \<open>keeps\<close>:
  none is lost either. This is how every step of flushing and garbage collection is related to
  the abstract contents.
\<close>

definition refines :: "'db env \<Rightarrow> 'db kv \<Rightarrow> 'db kv \<Rightarrow> bool" where
  "refines E s s' \<longleftrightarrow> length (itable (index s')) = length (itable (index s)) \<and>
     (\<forall>h l'. view s' h = Some l' \<longrightarrow> (\<exists>l. view s h = Some l \<and> content E s' l' = content E s l))"

definition keeps :: "'db env \<Rightarrow> 'db kv \<Rightarrow> 'db kv \<Rightarrow> bool" where
  "keeps E s s' \<longleftrightarrow> refines E s s' \<and> dom (view s') = dom (view s)"

lemma refines_hk: "refines E s s' \<Longrightarrow> hk E s' = hk E s"
  by (simp add: refines_def hk_def fun_eq_iff)

lemma refinesD:
  "refines E s s' \<Longrightarrow> view s' h = Some l' \<Longrightarrow> \<exists>l. view s h = Some l \<and> content E s' l' = content E s l"
  unfolding refines_def by blast

lemma refines_trans: "refines E s t \<Longrightarrow> refines E t u \<Longrightarrow> refines E s u"
  unfolding refines_def by metis

lemma refines_refl [simp]: "refines E s s"
  unfolding refines_def by blast

lemma keeps_trans: "keeps E s t \<Longrightarrow> keeps E t u \<Longrightarrow> keeps E s u"
  unfolding keeps_def using refines_trans by metis

lemma keeps_refl [simp]: "keeps E s s"
  by (simp add: keeps_def)

lemma keeps_refines: "keeps E s s' \<Longrightarrow> refines E s s'"
  by (simp add: keeps_def)

lemma keepsI:
  assumes "index s' = index s" and "\<And>h l. view s h = Some l \<Longrightarrow> content E s' l = content E s l"
  shows "keeps E s s'"
  unfolding keeps_def refines_def assms(1) using assms(2) by blast

lemma same_data_keeps: "same_data s s' \<Longrightarrow> keeps E s s'"
  using same_data_view(2) [of s s' E] by (intro keepsI) (simp_all add: same_data_def)

lemma refines_cache:
  assumes "refines E s s'"
  shows "cache E s' \<subseteq>\<^sub>m cache E s"
proof (unfold map_le_def, intro ballI)
  fix key assume "key \<in> dom (cache E s')"
  then obtain l' where l': "view s' (hk E s' key) = Some l'" "fst (content E s' l') = key"
    by (auto simp: cache_def split: option.splits if_splits)
  then obtain l where "view s (hk E s key) = Some l" "content E s' l' = content E s l"
    using refinesD [OF assms] refines_hk [OF assms] by metis
  then show "cache E s' key = cache E s key"
    using l' refines_hk [OF assms] by (simp add: cache_def)
qed

lemma keeps_cache:
  assumes "keeps E s s'"
  shows "cache E s' = cache E s"
proof (rule map_le_antisym [OF refines_cache [OF keeps_refines [OF assms]]], unfold map_le_def, intro ballI)
  fix key assume "key \<in> dom (cache E s)"
  then obtain l where l: "view s (hk E s key) = Some l" "fst (content E s l) = key"
    by (auto simp: cache_def split: option.splits if_splits)
  note r = keeps_refines [OF assms] and hk = refines_hk [OF keeps_refines [OF assms]]
  have "hk E s key \<in> dom (view s')" using assms l unfolding keeps_def by blast
  then obtain l' where l': "view s' (hk E s key) = Some l'" by blast
  then have "content E s' l' = content E s l" using refinesD [OF r l'] l(1) by auto
  then show "cache E s key = cache E s' key" using l l' hk by (simp add: cache_def)
qed

text \<open>The general step: the points of the new state come from the old one.\<close>

lemma data_inv_step:
  assumes inv: "data_inv E s" and r: "refines E s s'"
    and "geom E s'" "slabs_ok E s'" "index_ok (index s')"
    and pts: "\<And>h i j. view s' h = Some (i, j) \<Longrightarrow> i < length (slabs s') \<and> j < nr_alloc (slabs s' ! i)"
    and used: "\<And>i. i < length (slabs s') \<Longrightarrow> int (card (live s' i)) \<le> nr_used (slabs s' ! i)"
  shows "data_inv E s'"
proof -
  have "points_ok E s'"
    unfolding points_ok_def
  proof (intro allI impI conjI)
    fix h i j assume v: "view s' h = Some (i, j)"
    show "i < length (slabs s')" "j < nr_alloc (slabs s' ! i)" using pts [OF v] by auto
    obtain i0 j0 where "view s h = Some (i0, j0)" "content E s' (i, j) = content E s (i0, j0)"
      using refinesD [OF r v] by auto
    then show "hk E s' (fst (content E s' (i, j))) = h"
      using data_inv_point(3) [OF inv] refines_hk [OF r] by simp
  qed
  moreover have "used_ok s'" using used by (simp add: used_ok_def)
  ultimately show ?thesis using assms by (simp add: data_inv_def)
qed

lemma slabs_ok_upd:
  assumes "slabs_ok E s" and "i < length (slabs s)" and "hdr_ok s (f (slabs s ! i))"
    and "backed E (upd_slab i f s) i" and "slots_fit E (upd_slab i f s) i"
  shows "slabs_ok E (upd_slab i f s)"
  unfolding slabs_ok_def
proof (intro allI impI)
  fix j assume "j < length (slabs (upd_slab i f s))"
  then show "hdr_ok (upd_slab i f s) (slabs (upd_slab i f s) ! j) \<and> backed E (upd_slab i f s) j
      \<and> slots_fit E (upd_slab i f s) j"
    using assms by (cases "j = i") (simp_all add: slabs_ok_def backed_upd_other slots_fit_upd_other)
qed

subsection \<open>Steps\<close>

text \<open>Changing the header of a slab no entry points to: resetting it, or giving it to a class.\<close>

lemma unused_other: "live s i = {} \<Longrightarrow> view s h = Some (i', j) \<Longrightarrow> i' \<noteq> i"
  unfolding live_def by blast

lemma upd_unused_slab:
  assumes inv: "data_inv E s" and i: "i < length (slabs s)" and f: "keeps_place f"
    and unused: "live s i = {}" and n: "nr_alloc (f (slabs s ! i)) = 0"
    and h: "hdr_ok s (f (slabs s ! i))"
  shows "data_inv E (upd_slab i f s)" and "keeps E s (upd_slab i f s)"
proof -
  let ?s = "upd_slab i f s"
  show k: "keeps E s ?s"
    using unused_other [OF unused]
    by (intro keepsI) (simp, metis content_upd_other prod.collapse)
  show "data_inv E ?s"
  proof (rule data_inv_step [OF inv keeps_refines [OF k]])
    show "geom E ?s"
      using data_invD(1) [OF inv] f by (intro geom_upd_slab) (auto simp: keeps_place_def)
    show "slabs_ok E ?s"
      using data_invD(2) [OF inv] i n h by (intro slabs_ok_upd) (simp_all add: backed_def slots_fit_def)
    show "index_ok (index ?s)" using data_invD(3) [OF inv] by simp
  next
    fix h i' j assume v: "view ?s h = Some (i', j)"
    then have "i' \<noteq> i" using unused_other [OF unused] by simp
    then show "i' < length (slabs ?s) \<and> j < nr_alloc (slabs ?s ! i')"
      using data_inv_point(1,2) [OF inv] v by simp
  next
    fix j assume "j < length (slabs ?s)"
    then show "int (card (live ?s j)) \<le> nr_used (slabs ?s ! j)"
      using data_inv_slab(5) [OF inv, of j] unused h i
      by (cases "j = i") (auto simp: hdr_ok_def)
  qed
qed

text \<open>Setting the use count of a slab.\<close>

lemma upd_nr_used:
  assumes inv: "data_inv E s" and i: "i < length (slabs s)"
    and n: "int (card (live s i)) \<le> n" "n \<le> int (nr_alloc (slabs s ! i))"
  defines "s' \<equiv> upd_slab i (\<lambda>sl. sl\<lparr>nr_used := n\<rparr>) s"
  shows "data_inv E s'" and "keeps E s s'"
proof -
  have fld: "block_id (slabs s' ! j) = block_id (slabs s ! j)" "data (slabs s' ! j) = data (slabs s ! j)"
    "nr_alloc (slabs s' ! j) = nr_alloc (slabs s ! j)" "slot_size (slabs s' ! j) = slot_size (slabs s ! j)"
    for j using i by (cases "j = i"; simp add: s'_def)+
  have sd: "slab_data E s' = slab_data E s"
    by (rule ext) (simp add: slab_data_def im_memory_def fld, simp add: s'_def)
  then have c: "content E s' = content E s"
    by (intro ext) (simp add: content_def slab_slot_def fld)
  show k: "keeps E s s'" by (rule keepsI) (simp_all add: c, simp add: s'_def)
  have ok: "backed E s' i" "slots_fit E s' i"
    using data_inv_slab [OF inv i]
    by (simp_all add: backed_def slots_fit_def im_memory_def slab_slot_def fld sd) (simp add: s'_def)
  show "data_inv E s'"
  proof (rule data_inv_step [OF inv keeps_refines [OF k]])
    show "geom E s'"
      unfolding s'_def using data_invD(1) [OF inv] by (intro geom_upd_slab) simp_all
    show "slabs_ok E s'"
      unfolding s'_def using ok data_inv_slab(1) [OF inv i] n data_invD(2) [OF inv] i
      by (intro slabs_ok_upd) (auto simp: hdr_ok_def s'_def)
    show "index_ok (index s')" using data_invD(3) [OF inv] by (simp add: s'_def)
  next
    fix h i' j assume "view s' h = Some (i', j)"
    then show "i' < length (slabs s') \<and> j < nr_alloc (slabs s' ! i')"
      using data_inv_point(1,2) [OF inv] unfolding fld by (simp add: s'_def)
  next
    fix j assume "j < length (slabs s')"
    then show "int (card (live s' j)) \<le> nr_used (slabs s' ! j)"
      using data_inv_slab(5) [OF inv, of j] n i by (cases "j = i") (auto simp: s'_def)
  qed
qed

text \<open>Changing the index, the slabs staying as they are.\<close>

lemma slab_data_index [simp]: "slab_data E (s\<lparr>index := ix\<rparr>) = slab_data E s"
  by (simp add: slab_data_def fun_eq_iff)

lemma content_index [simp]: "content E (s\<lparr>index := ix\<rparr>) = content E s"
  by (simp add: content_def fun_eq_iff)

lemma geom_index [simp]: "geom E (s\<lparr>index := ix\<rparr>) = geom E s"
  unfolding geom_def by simp

lemma upd_index:
  assumes inv: "data_inv E s" and ok: "index_ok ix"
    and len: "length (itable ix) = length (itable (index s))"
    and old: "\<And>h i' j'. index_view ix h = Some (i', j') \<Longrightarrow>
      i' < length (slabs s) \<and> j' < nr_alloc (slabs s ! i') \<and>
      (\<exists>l. view s h = Some l \<and> content E s (i', j') = content E s l)"
    and used: "\<And>i. i < length (slabs s) \<Longrightarrow> int (card (live (s\<lparr>index := ix\<rparr>) i)) \<le> nr_used (slabs s ! i)"
  shows "data_inv E (s\<lparr>index := ix\<rparr>)" and "refines E s (s\<lparr>index := ix\<rparr>)"
proof -
  show r: "refines E s (s\<lparr>index := ix\<rparr>)"
    unfolding refines_def
  proof (intro conjI allI impI)
    fix h l' assume v: "view (s\<lparr>index := ix\<rparr>) h = Some l'"
    then have "index_view ix h = Some (fst l', snd l')" by simp
    from old [OF this] show "\<exists>l. view s h = Some l \<and> content E (s\<lparr>index := ix\<rparr>) l' = content E s l"
      by simp
  qed (simp add: len)
  show "data_inv E (s\<lparr>index := ix\<rparr>)"
  proof (rule data_inv_step [OF inv r])
    show "geom E (s\<lparr>index := ix\<rparr>)" using data_invD(1) [OF inv] by simp
    show "slabs_ok E (s\<lparr>index := ix\<rparr>)"
      using data_invD(2) [OF inv] by (simp add: slabs_ok_def backed_def slots_fit_def)
    show "index_ok (index (s\<lparr>index := ix\<rparr>))" using ok by simp
  qed (use old used in simp_all)
qed

end
