(* ===== verification/KV_Move.thy ===== *)
theory KV_Move
  imports KV_Inv
begin

text \<open>
  Moving objects between memory and disk: writing a memory slab to the block of a disk slab
  (\<^verbatim>\<open>flush_mslab_to_dslab\<close>), reading a disk slab back (\<^verbatim>\<open>read_dslab\<close>), redirecting the index from one
  slab to another (\<^verbatim>\<open>modify_index_to\<close>) and dropping the objects of a slab from the index
  (\<^verbatim>\<open>evict_dslab\<close>).
\<close>

definition read_dslab :: "'db env \<Rightarrow> slab \<Rightarrow> 'db kv \<Rightarrow> (slab, 'db kv) outcome" where
  "read_dslab E dslab s =
     (case read_block (rdb E) (ssd s) (block_id dslab) of
        Inl st \<Rightarrow> Exc ''Failed to read block'' s
      | Inr read_buffer \<Rightarrow> Ret (slab_assign (slab_of_bytes read_buffer) dslab) s)"

definition mslab_bytes :: "'db kv \<Rightarrow> nat \<Rightarrow> bytes" where
  "mslab_bytes s m = slab_bytes (slab_addr (mslab_base s) (slab_size s) (nr_mslab s) m) (slabs s ! m)"

definition copy_header :: "slab \<Rightarrow> slab \<Rightarrow> slab" where
  "copy_header mslab dslab =
     dslab\<lparr>cid := cid mslab, slot_size := slot_size mslab, nr_slots := nr_slots mslab,
           nr_alloc := nr_alloc mslab, nr_used := nr_used mslab\<rparr>"

definition flush_mslab_to_dslab :: "'db env \<Rightarrow> nat \<Rightarrow> nat \<Rightarrow> 'db kv \<Rightarrow> (unit, 'db kv) outcome" where
  "flush_mslab_to_dslab E m d s =
     (case write_block (rdb E) (ssd s) (block_id (slabs s ! d)) (mslab_bytes s m) of
        (st, dev') \<Rightarrow>
          let s = s\<lparr>ssd := dev'\<rparr>
          in if \<not> Status_ok st then Exc ''Failed to flush mslab to dslab'' s
             else Ret () (upd_slab d (copy_header (slabs s ! m)) s))"

text \<open>The callback of \<^verbatim>\<open>modify_index_to\<close>, with its local counter \<^verbatim>\<open>nr_used\<close>.\<close>

definition modify_slot :: "'db env \<Rightarrow> slab \<Rightarrow> nat \<Rightarrow> nat \<Rightarrow> 'db kv \<times> int \<Rightarrow> (bool, 'db kv \<times> int) outcome" where
  "modify_slot E src dst i sn =
     (case sn of (s, used) \<Rightarrow>
        case get_index_entry (hash E) (slot_key (data src) (slab_slot src i)) (index s) of
          Inl e \<Rightarrow> Exc e (s, used)
        | Inr None \<Rightarrow> Ret True (s, used)
        | Inr (Some e) \<Rightarrow>
            if entry_loc (index s) e = (sid src, i)
            then Ret True (s\<lparr>index := set_entry_loc e (sid (slabs s ! dst), i) (index s)\<rparr>, used + 1)
            else Ret True (s, used))"

definition modify_index_to :: "'db env \<Rightarrow> nat \<Rightarrow> nat \<Rightarrow> 'db kv \<Rightarrow> (unit, 'db kv) outcome" where
  "modify_index_to E src dst s =
     seq (with_local (for_each_slot (slabs s ! src) (modify_slot E (slabs s ! src) dst) (s, 0)))
       (\<lambda>(_, used) s.
          Ret () (upd_slab dst (\<lambda>sl. sl\<lparr>nr_used := used\<rparr>)
                    (upd_slab src (\<lambda>sl. sl\<lparr>nr_used := 0\<rparr>) s)))"

text \<open>
  \<^verbatim>\<open>evict_dslab(fake_slab, read_buffer)\<close> is called with \<open>fake_slab\<close> in the very buffer it reads
  into: the read replaces the header of \<open>fake_slab\<close> by the one on disk, and the assignment
  \<^verbatim>\<open>*slab = *dslab\<close> of \<^verbatim>\<open>read_dslab\<close> copies the object to itself. So the loop runs over the header
  that was written with the block.
\<close>

definition del_slot :: "'db env \<Rightarrow> slab \<Rightarrow> nat \<Rightarrow> 'db kv \<Rightarrow> (bool, 'db kv) outcome" where
  "del_slot E fake i s =
     (case del_index_entry (hash E) (slot_key (data fake) (slab_slot fake i)) (index s) of
        Inl e \<Rightarrow> Exc e s
      | Inr ix \<Rightarrow> Ret True (s\<lparr>index := ix\<rparr>))"

definition evict_dslab :: "'db env \<Rightarrow> slab \<Rightarrow> 'db kv \<Rightarrow> (unit, 'db kv) outcome" where
  "evict_dslab E fake_slab s =
     (case read_block (rdb E) (ssd s) (block_id fake_slab) of
        Inl st \<Rightarrow> Exc ''Failed to read block'' s
      | Inr read_buffer \<Rightarrow>
          let fake = slab_of_bytes read_buffer in for_each_slot fake (del_slot E fake) s)"

subsection \<open>Writing a slab to its block\<close>

lemma geom_block:
  assumes "geom E s" and "nr_mslab s \<le> d" and "d < length (slabs s)"
  shows "0 \<le> block_id (slabs s ! d)" "block_id (slabs s ! d) < nr_blocks (ssd s)" "\<not> im_memory (slabs s ! d)"
proof -
  show b: "0 \<le> block_id (slabs s ! d)" "block_id (slabs s ! d) < nr_blocks (ssd s)"
    using assms unfolding geom_def by blast+
  show "\<not> im_memory (slabs s ! d)" using b by (simp add: im_memory_def)
qed

lemma geom_block_inj:
  assumes "geom E s" and "nr_mslab s \<le> d" "d < length (slabs s)" "nr_mslab s \<le> i" "i < length (slabs s)" "i \<noteq> d"
  shows "block_id (slabs s ! i) \<noteq> block_id (slabs s ! d)"
proof -
  have "inj_on (\<lambda>i. block_id (slabs s ! i)) {nr_mslab s..<length (slabs s)}"
    using assms(1) unfolding geom_def by blast
  from inj_onD [OF this, of i d] show ?thesis using assms(2-) by auto
qed

lemma geom_size:
  assumes "geom E s"
  shows "ssd_ok (rdb E) (ssd s)" "int (slab_size s) = block_size (ssd s)" "44 < slab_size s"
    "slab_size s < 2 ^ 31" "length (slabs s) = nr_mslab s + nr_dslab s" "0 < nr_mslab s"
    "length (slabs s) < 2 ^ 31" "int (nr_dslab s) = nr_blocks (ssd s)"
    "mslab_base s mod slab_size s = 0"
  using assms unfolding geom_def by blast+

lemma geom_mem:
  assumes "geom E s" and "m < nr_mslab s"
  shows "length (data (slabs s ! m)) = slab_size s - 44" "block_id (slabs s ! m) = -1"
    "im_memory (slabs s ! m)" "m < length (slabs s)"
proof -
  show "length (data (slabs s ! m)) = slab_size s - 44" "block_id (slabs s ! m) = -1"
    using assms unfolding geom_def by blast+
  then show "im_memory (slabs s ! m)" by (simp add: im_memory_def)
  show "m < length (slabs s)" using assms(2) geom_size(5) [OF assms(1)] by simp
qed

lemma length_mslab_bytes:
  "geom E s \<Longrightarrow> m < nr_mslab s \<Longrightarrow> length (mslab_bytes s m) = slab_size s"
  using geom_mem [of E s m] geom_size(3) [of E s] by (simp add: mslab_bytes_def)

lemma mslab_header_in_range:
  assumes inv: "data_inv E s" and m: "m < nr_mslab s"
  shows "header_in_range (slabs s ! m)"
proof -
  note g = data_invD(1) [OF inv]
  note mem = geom_mem [OF g m]
  note h = data_inv_slab(1,4) [OF inv mem(4)]
  note hs = hdr_ok_slots [OF g h(1)]
  have "0 \<le> nr_used (slabs s ! m)" "nr_used (slabs s ! m) \<le> int (nr_alloc (slabs s ! m))"
    using h(1) by (simp_all add: hdr_ok_def)
  then show ?thesis
    using mem(2,4) h(2) hs geom_size(7) [OF g] unfolding header_in_range_def by auto
qed

text \<open>A write to the block of a disk slab, successful or not, is seen through that slab only.\<close>

lemma write_dev:
  assumes g: "geom E s" and d: "nr_mslab s \<le> d" "d < length (slabs s)"
    and w: "write_block (rdb E) (ssd s) (block_id (slabs s ! d)) v = (st, dev')"
    and v: "length v = slab_size s"
  shows "geom E (s\<lparr>ssd := dev'\<rparr>)"
    and "i < length (slabs s) \<Longrightarrow> i \<noteq> d \<Longrightarrow> slab_data E (s\<lparr>ssd := dev'\<rparr>) i = slab_data E s i"
    and "i < length (slabs s) \<Longrightarrow> i \<noteq> d \<Longrightarrow> backed E (s\<lparr>ssd := dev'\<rparr>) i = backed E s i"
    and "Status_ok st \<Longrightarrow> read_block (rdb E) dev' (block_id (slabs s ! d)) = Inr v"
proof -
  note ok = geom_size(1) [OF g] and b = geom_block(1,2) [OF g d]
  have len: "int (length v) = block_size (ssd s)" using v geom_size(2) [OF g] by simp
  note k = bs.wr_keeps [OF ok b len w]
  have "geom E (s\<lparr>ssd := dev'\<rparr>) = geom E s" unfolding geom_def using k ok by simp
  then show "geom E (s\<lparr>ssd := dev'\<rparr>)" using g by simp
  have rd: "read_block (rdb E) dev' (block_id (slabs s ! i)) = read_block (rdb E) (ssd s) (block_id (slabs s ! i))"
    if "i < length (slabs s)" "i \<noteq> d" "\<not> im_memory (slabs s ! i)" for i
  proof -
    have i: "nr_mslab s \<le> i" using that im_memory_iff [OF g that(1)] by simp
    show ?thesis
      by (rule bs.rd_wr_other [OF ok b len w])
        (use geom_block [OF g i that(1)] geom_block_inj [OF g d i that(1,2)] in auto)
  qed
  show "i < length (slabs s) \<Longrightarrow> i \<noteq> d \<Longrightarrow> slab_data E (s\<lparr>ssd := dev'\<rparr>) i = slab_data E s i"
    using rd by (simp add: slab_data_def)
  show "i < length (slabs s) \<Longrightarrow> i \<noteq> d \<Longrightarrow> backed E (s\<lparr>ssd := dev'\<rparr>) i = backed E s i"
    using rd by (cases "im_memory (slabs s ! i)") (simp_all add: backed_def)
  show "Status_ok st \<Longrightarrow> read_block (rdb E) dev' (block_id (slabs s ! d)) = Inr v"
    by (rule bs.rd_wr_same [OF ok b len w])
qed

lemma write_dev_inv:
  assumes inv: "data_inv E s" and d: "nr_mslab s \<le> d" "d < length (slabs s)"
    and w: "write_block (rdb E) (ssd s) (block_id (slabs s ! d)) v = (st, dev')"
    and v: "length v = slab_size s" and z: "nr_alloc (slabs s ! d) = 0"
  shows "data_inv E (s\<lparr>ssd := dev'\<rparr>)" and "keeps E s (s\<lparr>ssd := dev'\<rparr>)"
proof -
  let ?s = "s\<lparr>ssd := dev'\<rparr>"
  note g = data_invD(1) [OF inv]
  note wd = write_dev [OF g d w v]
  have un: "view s h = Some (i, j) \<Longrightarrow> i \<noteq> d" for h i j
    using unused_other [OF live_empty_alloc [OF inv z]] by blast
  show k: "keeps E s ?s"
  proof (rule keepsI)
    fix h l assume a: "view s h = Some l"
    then have "view s h = Some (fst l, snd l)" by simp
    from un [OF this] data_inv_point(1) [OF inv this] show "content E ?s l = content E s l"
      by (simp add: content_def wd(2))
  qed simp
  show "data_inv E ?s"
  proof (rule data_inv_step [OF inv keeps_refines [OF k] wd(1)])
    show "slabs_ok E ?s"
      unfolding slabs_ok_def
    proof (intro allI impI)
      fix i assume "i < length (slabs ?s)"
      then have i: "i < length (slabs s)" by simp
      have "hdr_ok ?s = hdr_ok s" by (simp add: hdr_ok_def fun_eq_iff)
      then show "hdr_ok ?s (slabs ?s ! i) \<and> backed E ?s i \<and> slots_fit E ?s i"
        using data_inv_slab(1-3) [OF inv i] z i
        by (cases "i = d") (simp_all add: wd(2,3) slots_fit_def, simp_all add: backed_def)
    qed
    show "index_ok (index ?s)" using data_invD(3) [OF inv] by simp
  next
    fix h i j assume "view ?s h = Some (i, j)"
    then show "i < length (slabs ?s) \<and> j < nr_alloc (slabs ?s ! i)"
      using data_inv_point(1,2) [OF inv] by simp
  next
    fix i assume "i < length (slabs ?s)"
    then show "int (card (live ?s i)) \<le> nr_used (slabs ?s ! i)"
      using data_inv_slab(5) [OF inv, of i] by (simp add: live_def)
  qed
qed

text \<open>
  After a successful flush the disk slab holds, slot by slot, what the memory slab holds, and
  nothing else has changed. After a failed write no object is lost.
\<close>

definition flushed :: "'db env \<Rightarrow> nat \<Rightarrow> nat \<Rightarrow> 'db kv \<Rightarrow> 'db kv \<Rightarrow> bool" where
  "flushed E m d s s' \<longleftrightarrow> (\<exists>dev'. s' = upd_slab d (copy_header (slabs s ! m)) (s\<lparr>ssd := dev'\<rparr>) \<and>
     nr_channels dev' = nr_channels (ssd s) \<and> blocks_per_channel dev' = blocks_per_channel (ssd s) \<and>
     nr_blocks dev' = nr_blocks (ssd s) \<and> is_dev dev' = is_dev (ssd s)) \<and>
     (\<forall>j. content E s' (d, j) = content E s (m, j)) \<and>
     (\<forall>i < length (slabs s). i \<noteq> d \<longrightarrow> slab_data E s' i = slab_data E s i)"

definition dev_changed :: "'db kv \<Rightarrow> 'db kv \<Rightarrow> bool" where
  "dev_changed s s' \<longleftrightarrow> (\<exists>dev'. s' = s\<lparr>ssd := dev'\<rparr>)"

text \<open>What the disk slab holds once the block and the header are written.\<close>

lemma flush_copies:
  assumes inv: "data_inv E s" and m: "m < nr_mslab s" and d: "nr_mslab s \<le> d" "d < length (slabs s)"
    and w: "write_block (rdb E) (ssd s) (block_id (slabs s ! d)) (mslab_bytes s m) = (st, dev')" and st: "Status_ok st"
  defines "s2 \<equiv> upd_slab d (copy_header (slabs s ! m)) (s\<lparr>ssd := dev'\<rparr>)"
  shows "content E s2 (d, j) = content E s (m, j)" and "hdr_ok (s\<lparr>ssd := dev'\<rparr>) (slabs s2 ! d)" and "backed E s2 d" and "slots_fit E s2 d"
proof -
  note g = data_invD(1) [OF inv]
  note mem = geom_mem [OF g m] and v = length_mslab_bytes [OF g m]
  have sl2: "slabs s2 ! d = copy_header (slabs s ! m) (slabs s ! d)" using d by (simp add: s2_def)
  have "\<not> im_memory (slabs s ! d)" by (rule geom_block(3) [OF g d])
  moreover have rd: "read_block (rdb E) (ssd s2) (block_id (slabs s2 ! d)) = Inr (mslab_bytes s m)"
    using write_dev(4) [OF g d w v st] sl2 by (simp add: s2_def copy_header_def)
  ultimately have dat: "slab_data E s2 d = data (slabs s ! m)"
    using sl2 by (simp add: slab_data_def im_memory_def mslab_bytes_def slab_bytes_def copy_header_def)
  have dm0: "slab_data E s m = data (slabs s ! m)" using mem(3) by (simp add: slab_data_def)
  have hdr: "slab_of_bytes (mslab_bytes s m) = slabs s ! m"
    unfolding mslab_bytes_def by (rule slab_of_bytes_slab_bytes [OF mslab_header_in_range [OF inv m]])
  have hm: "hdr_ok s (slabs s ! m)" "slots_fit E s m" using data_inv_slab(1,3) [OF inv mem(4)] by auto
  show "content E s2 (d, j) = content E s (m, j)"
    using sl2 dat dm0 by (simp add: content_def slab_slot_def copy_header_def)
  show "hdr_ok (s\<lparr>ssd := dev'\<rparr>) (slabs s2 ! d)" using hm(1) sl2 by (simp add: hdr_ok_def copy_header_def)
  show "backed E s2 d" using rd hdr v sl2 by (simp add: backed_def copy_header_def s2_def)
  show "slots_fit E s2 d" using hm(2) dat dm0 sl2 by (simp add: slots_fit_def slab_slot_def copy_header_def s2_def)
qed

lemma flush_written:
  assumes inv: "data_inv E s" and m: "m < nr_mslab s" and d: "nr_mslab s \<le> d" "d < length (slabs s)"
    and z: "nr_alloc (slabs s ! d) = 0"
    and w: "write_block (rdb E) (ssd s) (block_id (slabs s ! d)) (mslab_bytes s m) = (st, dev')" and st: "Status_ok st"
  defines "s2 \<equiv> upd_slab d (copy_header (slabs s ! m)) (s\<lparr>ssd := dev'\<rparr>)"
  shows "data_inv E s2 \<and> keeps E s s2 \<and> flushed E m d s s2"
proof -
  let ?s1 = "s\<lparr>ssd := dev'\<rparr>"
  note g = data_invD(1) [OF inv]
  note v = length_mslab_bytes [OF g m]
  note wi = write_dev_inv [OF inv d w v z] and wd = write_dev [OF g d w v] and cp = flush_copies [OF inv m d w st, folded s2_def]
  have d1: "d < length (slabs ?s1)" and sl: "slabs s2 ! d = copy_header (slabs s ! m) (slabs s ! d)" using d by (simp_all add: s2_def)
  have un: "live ?s1 d = {}" using live_empty_alloc [OF wi(1)] z by simp
  have hm: "hdr_ok s (slabs s ! m)" using data_inv_slab(1) [OF inv geom_mem(4) [OF g m]] by simp
  have k2: "keeps E ?s1 s2"
    unfolding s2_def using unused_other [OF un] by (intro keepsI) (simp, metis content_upd_other prod.collapse)
  have "data_inv E s2"
  proof (rule data_inv_step [OF wi(1) keeps_refines [OF k2]])
    show "geom E s2" unfolding s2_def using wd(1) by (intro geom_upd_slab) (simp_all add: copy_header_def)
    show "slabs_ok E s2"
      unfolding s2_def by (rule slabs_ok_upd [OF data_invD(2) [OF wi(1)] d1]) (use cp(2-4) sl in \<open>simp_all add: s2_def\<close>)
    show "index_ok (index s2)" using data_invD(3) [OF inv] by (simp add: s2_def)
  next
    fix h i j assume a: "view s2 h = Some (i, j)"
    then have "i \<noteq> d" using unused_other [OF un, of h i j] by (simp add: s2_def)
    then show "i < length (slabs s2) \<and> j < nr_alloc (slabs s2 ! i)"
      using data_inv_point(1,2) [OF inv] a by (simp add: s2_def)
  next
    fix i assume i: "i < length (slabs s2)"
    show "int (card (live s2 i)) \<le> nr_used (slabs s2 ! i)"
    proof (cases "i = d")
      case True
      then show ?thesis using hm un sl by (simp add: hdr_ok_def copy_header_def s2_def)
    next
      case False
      then show ?thesis using data_inv_slab(5) [OF wi(1), of i] i by (simp add: s2_def)
    qed
  qed
  moreover have "flushed E m d s s2"
    unfolding flushed_def s2_def using write_block_frame [OF w] cp(1) wd(2) by (auto simp: slab_data_upd_other s2_def)
  ultimately show ?thesis using keeps_trans [OF wi(2) k2] by simp
qed

lemma flush_mslab_to_dslab_safe:
  assumes inv: "data_inv E s" and m: "m < nr_mslab s" and d: "nr_mslab s \<le> d" "d < length (slabs s)"
    and z: "nr_alloc (slabs s ! d) = 0"
  shows "safe (\<lambda>s'. data_inv E s' \<and> keeps E s s' \<and> dev_changed s s')
     (\<lambda>_ s'. data_inv E s' \<and> keeps E s s' \<and> flushed E m d s s') (flush_mslab_to_dslab E m d s)"
proof -
  note g = data_invD(1) [OF inv]
  obtain st dev' where w: "write_block (rdb E) (ssd s) (block_id (slabs s ! d)) (mslab_bytes s m) = (st, dev')"
    by (cases "write_block (rdb E) (ssd s) (block_id (slabs s ! d)) (mslab_bytes s m)") auto
  show ?thesis
  proof (cases "Status_ok st")
    case True
    with flush_written [OF inv m d z w] w show ?thesis by (simp add: flush_mslab_to_dslab_def)
  next
    case False
    with write_dev_inv [OF inv d w length_mslab_bytes [OF g m] z] w show ?thesis
      by (auto simp: flush_mslab_to_dslab_def dev_changed_def)
  qed
qed

subsection \<open>Redirecting the index from one slab to another\<close>

text \<open>The index after the first \<open>i\<close> slots of slab \<open>m\<close> have been redirected to slab \<open>d\<close>.\<close>

definition moved_view :: "nat \<Rightarrow> nat \<Rightarrow> nat \<Rightarrow> (hkey \<Rightarrow> loc option) \<Rightarrow> hkey \<Rightarrow> loc option" where
  "moved_view m d i v h = map_option (\<lambda>l. if fst l = m \<and> snd l < i then (d, snd l) else l) (v h)"

lemma moved_view_0 [simp]: "moved_view m d 0 v = v"
  by (simp add: moved_view_def fun_eq_iff option.map_ident)

lemma moved_view_Suc:
  assumes "\<And>h. v h = Some (m, i) \<Longrightarrow> h = h0"
  shows "moved_view m d (Suc i) v =
    (if v h0 = Some (m, i) then (moved_view m d i v)(h0 \<mapsto> (d, i)) else moved_view m d i v)"
proof
  fix h
  show "moved_view m d (Suc i) v h =
    (if v h0 = Some (m, i) then (moved_view m d i v)(h0 \<mapsto> (d, i)) else moved_view m d i v) h"
  proof (cases "v h")
    case None
    then show ?thesis by (auto simp: moved_view_def)
  next
    case (Some l)
    show ?thesis
    proof (cases "l = (m, i)")
      case True
      then show ?thesis using Some assms [of h] by (simp add: moved_view_def)
    next
      case False
      then have "fst l = m \<and> snd l < Suc i \<longleftrightarrow> fst l = m \<and> snd l < i"
        by (auto simp: prod_eq_iff less_Suc_eq)
      then show ?thesis using Some False by (auto simp: moved_view_def)
    qed
  qed
qed

lemma moved_view_source:
  "d \<noteq> m \<Longrightarrow> moved_view m d i v h = Some (m, i) \<longleftrightarrow> v h = Some (m, i)"
  by (cases "v h") (auto simp: moved_view_def)

lemma live_moved:
  assumes v: "index_view ix = moved_view m d i (view s)" and dm: "d \<noteq> m" and un: "live s d = {}"
  shows "live (s\<lparr>index := ix\<rparr>) m = {j \<in> live s m. i \<le> j}"
    and "live (s\<lparr>index := ix\<rparr>) d = {j \<in> live s m. j < i}"
    and "a \<noteq> m \<Longrightarrow> a \<noteq> d \<Longrightarrow> live (s\<lparr>index := ix\<rparr>) a = live s a"
proof -
  have *: "index_view ix h = Some (a, j) \<longleftrightarrow>
      (if a = m then view s h = Some (m, j) \<and> i \<le> j
       else if a = d then view s h = Some (m, j) \<and> j < i else view s h = Some (a, j))" for h a j
    using dm unused_other [OF un, of h]
    by (cases "view s h") (auto simp: v moved_view_def split: if_splits)
  show "live (s\<lparr>index := ix\<rparr>) m = {j \<in> live s m. i \<le> j}"
    "live (s\<lparr>index := ix\<rparr>) d = {j \<in> live s m. j < i}"
    "a \<noteq> m \<Longrightarrow> a \<noteq> d \<Longrightarrow> live (s\<lparr>index := ix\<rparr>) a = live s a"
    using dm by (simp_all add: live_def *)
qed

text \<open>Slab \<open>d\<close> holds, slot by slot, what slab \<open>m\<close> holds, and counts as many used slots at least.\<close>

definition mirror :: "'db env \<Rightarrow> 'db kv \<Rightarrow> nat \<Rightarrow> nat \<Rightarrow> bool" where
  "mirror E s m d \<longleftrightarrow> nr_alloc (slabs s ! d) = nr_alloc (slabs s ! m) \<and>
     int (card (live s m)) \<le> nr_used (slabs s ! d) \<and> (\<forall>j. content E s (d, j) = content E s (m, j))"

lemma moved_inv:
  assumes inv: "data_inv E s" and m: "m < length (slabs s)" and d: "d < length (slabs s)" "d \<noteq> m"
    and mir: "mirror E s m d" and un: "live s d = {}" and ix: "index_ok ix"
    and len: "length (itable ix) = length (itable (index s))"
    and v: "index_view ix = moved_view m d i (view s)"
  shows "data_inv E (s\<lparr>index := ix\<rparr>)" and "keeps E s (s\<lparr>index := ix\<rparr>)"
proof -
  note lv = live_moved [OF v d(2) un]
  have pt: "i' < length (slabs s) \<and> j' < nr_alloc (slabs s ! i') \<and>
      (\<exists>l. view s h = Some l \<and> content E s (i', j') = content E s l)"
    if at: "index_view ix h = Some (i', j')" for h i' j'
  proof -
    obtain l where l: "view s h = Some l" and l': "(i', j') = (if fst l = m \<and> snd l < i then (d, snd l) else l)"
      using at unfolding v moved_view_def by auto
    have "view s h = Some (fst l, snd l)" using l by simp
    note p = data_inv_point(1,2) [OF inv this]
    show ?thesis
      using l l' p d mir unfolding mirror_def by (cases "fst l = m \<and> snd l < i") auto
  qed
  have used: "int (card (live (s\<lparr>index := ix\<rparr>) a)) \<le> nr_used (slabs s ! a)" if a: "a < length (slabs s)" for a
  proof -
    have sub: "card {j \<in> live s m. Q j} \<le> card (live s m)" for Q
      by (rule card_mono [OF finite_live [OF inv]]) blast
    have "int (card (live s m)) \<le> nr_used (slabs s ! d)" using mir by (simp add: mirror_def)
    then show ?thesis
      using sub [of "\<lambda>j. i \<le> j"] sub [of "\<lambda>j. j < i"] lv data_inv_slab(5) [OF inv m] data_inv_slab(5) [OF inv a]
      by (cases "a = m"; cases "a = d") auto
  qed
  note u = upd_index [OF inv ix len pt used]
  show "data_inv E (s\<lparr>index := ix\<rparr>)" by (rule u(1))
  have "dom (view (s\<lparr>index := ix\<rparr>)) = dom (view s)" by (auto simp: v moved_view_def dom_def)
  then show "keeps E s (s\<lparr>index := ix\<rparr>)" using u(2) by (simp add: keeps_def)
qed

lemma card_filter_Suc:
  "finite A \<Longrightarrow> card {j \<in> A. j < Suc i} = card {j \<in> A. j < i} + (if i \<in> A then 1 else 0)"
proof -
  assume "finite A"
  moreover have "{j \<in> A. j < Suc i} = (if i \<in> A then insert i {j \<in> A. j < i} else {j \<in> A. j < i})"
    by (auto simp: less_Suc_eq)
  ultimately show ?thesis by simp
qed

definition modify_loop :: "nat \<Rightarrow> nat \<Rightarrow> 'db kv \<Rightarrow> nat \<Rightarrow> 'db kv \<times> int \<Rightarrow> bool" where
  "modify_loop m d s i sn \<longleftrightarrow> (\<exists>ix. fst sn = s\<lparr>index := ix\<rparr> \<and> index_ok ix \<and>
     length (itable ix) = length (itable (index s)) \<and>
     index_view ix = moved_view m d i (view s) \<and> snd sn = int (card {j \<in> live s m. j < i}))"

text \<open>The entry of a slot, if there is one, is found under the key stored in the slot.\<close>

lemma slot_owner:
  fixes i :: nat
  assumes inv: "data_inv E s" and m: "m < nr_mslab s"
  defines "h \<equiv> hk E s (slot_key (data (slabs s ! m)) (slab_slot (slabs s ! m) i))"
  shows "view s h' = Some (m, i) \<Longrightarrow> h' = h" and "i \<in> live s m \<longleftrightarrow> view s h = Some (m, i)"
proof -
  have "slot_key (data (slabs s ! m)) (slab_slot (slabs s ! m) i) = fst (content E s (m, i))"
    using geom_mem(3) [OF data_invD(1) [OF inv] m] by (simp add: content_def slab_data_def slot_kv_def)
  then have uniq: "view s h' = Some (m, i) \<Longrightarrow> h' = h" for h'
    using data_inv_point(3) [OF inv, of h' m i] h_def by simp
  then show "view s h' = Some (m, i) \<Longrightarrow> h' = h" .
  show "i \<in> live s m \<longleftrightarrow> view s h = Some (m, i)" unfolding live_def using uniq by blast
qed

lemma modify_slot_step:
  assumes inv: "data_inv E s" and m: "m < nr_mslab s" and d: "d < length (slabs s)" "d \<noteq> m"
    and loop: "modify_loop m d s i sn"
  shows "safe (modify_loop m d s i) (\<lambda>go sn'. go \<and> modify_loop m d s (Suc i) sn')
    (modify_slot E (slabs s ! m) d i sn)"
proof -
  note mem = geom_mem [OF data_invD(1) [OF inv] m]
  obtain ix where sn: "sn = (s\<lparr>index := ix\<rparr>, int (card {j \<in> live s m. j < i}))" and ok: "index_ok ix"
    and len: "length (itable ix) = length (itable (index s))"
    and v: "index_view ix = moved_view m d i (view s)"
    using loop by (cases sn) (auto simp: modify_loop_def)
  define key where "key = slot_key (data (slabs s ! m)) (slab_slot (slabs s ! m) i)"
  define h0 where "h0 = hk E s key"
  have h0: "hkey (hash E) (length (itable ix)) key = h0" by (simp only: h0_def hk_def len)
  note uniq = slot_owner(1) [OF inv m, of _ i, folded key_def, folded h0_def]
    and live = slot_owner(2) [OF inv m, of i, folded key_def, folded h0_def]
  note sv = moved_view_Suc [of "view s" m i h0, OF uniq] moved_view_source [OF d(2), of i "view s" h0]
  note cs = card_filter_Suc [OF finite_live [OF inv, of m], of i]
  have sid: "sid (slabs s ! m) = m" "sid (slabs s ! d) = d"
    using data_inv_slab(4) [OF inv] mem(4) d(1) by auto
  show ?thesis
  proof (cases "get_index_entry (hash E) key ix")
    case (Inl e)
    then show ?thesis using loop sn by (simp add: modify_slot_def key_def)
  next
    case (Inr r)
    show ?thesis
    proof (cases r)
      case None
      have "view s h0 \<noteq> Some (m, i)"
        using get_index_entry_None [OF ok Inr [unfolded None]] sv(2) v h0 by simp
      then show ?thesis
        using Inr None ok len v sv cs live sn by (auto simp: modify_slot_def key_def modify_loop_def)
    next
      case (Some e)
      note gs = get_index_entry_Some [OF ok Inr [unfolded Some], unfolded h0]
      have at: "entry_loc ix e = (m, i) \<longleftrightarrow> view s h0 = Some (m, i)"
        using gs(1) sv(2) v by auto
      show ?thesis
      proof (cases "view s h0 = Some (m, i)")
        case True
        have "index_view (set_entry_loc e (d, i) ix) = moved_view m d (Suc i) (view s)"
          using gs(2) True sv(1) v by simp
        then show ?thesis
          using True at Inr Some ok len sid cs live sn
          by (auto simp: modify_slot_def key_def modify_loop_def set_entry_loc_ok)
      next
        case False
        then show ?thesis
          using at Inr Some ok len v sv cs live sid sn
          by (auto simp: modify_slot_def key_def modify_loop_def)
      qed
    qed
  qed
qed

text \<open>
  \<^verbatim>\<open>modify_index_to\<close> keeps every object; afterwards no entry points into the source slab, the
  target slab has its live slots and counts them exactly.
\<close>

definition redirected :: "nat \<Rightarrow> nat \<Rightarrow> 'db kv \<Rightarrow> 'db kv \<Rightarrow> bool" where
  "redirected m d s s' \<longleftrightarrow>
     (\<exists>ix. s' = upd_slab d (\<lambda>sl. sl\<lparr>nr_used := int (card (live s m))\<rparr>)
            (upd_slab m (\<lambda>sl. sl\<lparr>nr_used := 0\<rparr>) (s\<lparr>index := ix\<rparr>))) \<and>
     live s' m = {} \<and> live s' d = live s m \<and> (\<forall>a. a \<noteq> m \<longrightarrow> a \<noteq> d \<longrightarrow> live s' a = live s a)"

definition index_changed :: "'db kv \<Rightarrow> 'db kv \<Rightarrow> bool" where
  "index_changed s s' \<longleftrightarrow> (\<exists>ix. s' = s\<lparr>index := ix\<rparr>)"

lemma modify_index_to_safe:
  assumes inv: "data_inv E s" and m: "m < nr_mslab s" and d: "d < length (slabs s)" "d \<noteq> m"
    and mir: "mirror E s m d" and un: "live s d = {}"
  shows "safe (\<lambda>s'. data_inv E s' \<and> keeps E s s' \<and> index_changed s s')
    (\<lambda>_ s'. data_inv E s' \<and> keeps E s s' \<and> redirected m d s s') (modify_index_to E m d s)"
proof -
  let ?n = "nr_alloc (slabs s ! m)"
  note ml = geom_mem(4) [OF data_invD(1) [OF inv] m]
  have loop0: "modify_loop m d s 0 (s, 0)"
    using data_invD(3) [OF inv] by (auto simp: modify_loop_def intro!: exI [of _ "index s"])
  have "safe (\<lambda>sn. \<exists>i. modify_loop m d s i sn) (\<lambda>_ sn. modify_loop m d s ?n sn)
      (visit_slots (modify_slot E (slabs s ! m) d) [0..<?n] (s, 0))"
  proof (rule safe_visit_slots)
    show "modify_loop m d s 0 (s, 0)" by (rule loop0)
    fix i sn assume "modify_loop m d s i sn"
    from modify_slot_step [OF inv m d this]
    show "safe (\<lambda>sn. \<exists>i. modify_loop m d s i sn) (\<lambda>go sn'. go \<and> modify_loop m d s (Suc i) sn')
        (modify_slot E (slabs s ! m) d i sn)"
      by (rule safe_mono) blast+
  qed simp
  moreover have "data_inv E s' \<and> keeps E s s' \<and> index_changed s s'" if "modify_loop m d s i (s', u)" for i s' u
    using that moved_inv [OF inv ml d mir un] by (auto simp: modify_loop_def index_changed_def)
  moreover have "data_inv E s2 \<and> keeps E s s2 \<and> redirected m d s s2"
    if lp: "modify_loop m d s ?n (s', u)"
      and s2: "s2 = upd_slab d (\<lambda>sl. sl\<lparr>nr_used := u\<rparr>) (upd_slab m (\<lambda>sl. sl\<lparr>nr_used := 0\<rparr>) s')" for s' s2 u
  proof -
    obtain ix where s': "s' = s\<lparr>index := ix\<rparr>" and ok: "index_ok ix"
      and len: "length (itable ix) = length (itable (index s))"
      and v: "index_view ix = moved_view m d ?n (view s)" and u: "u = int (card {j \<in> live s m. j < ?n})"
      using lp by (auto simp: modify_loop_def)
    have all: "{j \<in> live s m. j < ?n} = live s m" "{j \<in> live s m. ?n \<le> j} = {}"
      using live_subset [OF inv, of m] by auto
    note mi = moved_inv [OF inv ml d mir un ok len v]
    note lv = live_moved [OF v d(2) un, folded s', unfolded all]
    let ?s1 = "upd_slab m (\<lambda>sl. sl\<lparr>nr_used := 0\<rparr>) s'"
    have s1: "data_inv E ?s1" "keeps E s' ?s1"
      using mi ml lv by (intro upd_nr_used [of E s' m]; simp add: s')+
    have "card (live s m) \<le> card {..<?n}" using live_subset [OF inv, of m] by (intro card_mono) auto
    then have s2': "data_inv E s2" "keeps E ?s1 s2"
      unfolding s2 using s1(1) d lv mir by (intro upd_nr_used [of E ?s1 d]; simp add: s' u all mirror_def)+
    have "keeps E s s2" using mi(2) s1(2) s2'(2) keeps_trans unfolding s' by blast
    then show ?thesis using s2' lv unfolding redirected_def s2 by (auto simp: s' u all)
  qed
  ultimately show ?thesis
    unfolding modify_index_to_def for_each_slot_def
    by (simp add: split_def) (erule safe_mono; auto)
qed

subsection \<open>Dropping the objects of a slab\<close>

text \<open>Removing keys from the index loses objects and nothing else.\<close>

definition dropped :: "'db kv \<Rightarrow> 'db kv \<Rightarrow> bool" where
  "dropped s s' \<longleftrightarrow> (\<exists>ix. s' = s\<lparr>index := ix\<rparr> \<and> index_ok ix \<and> index_view ix \<subseteq>\<^sub>m view s \<and>
     length (itable ix) = length (itable (index s)))"

lemma dropped_trans: "dropped s t \<Longrightarrow> dropped t u \<Longrightarrow> dropped s u"
proof -
  assume "dropped s t" and "dropped t u"
  then obtain ix ix' where t: "t = s\<lparr>index := ix\<rparr>" "index_view ix \<subseteq>\<^sub>m view s"
      "length (itable ix) = length (itable (index s))"
    and u: "u = t\<lparr>index := ix'\<rparr>" "index_ok ix'" "index_view ix' \<subseteq>\<^sub>m view t"
      "length (itable ix') = length (itable (index t))"
    unfolding dropped_def by blast
  have "u = s\<lparr>index := ix'\<rparr>" "length (itable ix') = length (itable (index s))"
    using u(1,4) t(1,3) by simp_all
  moreover have "index_view ix' \<subseteq>\<^sub>m view s"
    using u(3) t(1,2) map_le_trans [of "index_view ix'" "index_view ix" "view s"] by simp
  ultimately show "dropped s u" unfolding dropped_def using u(2) by blast
qed

lemma dropped_refl: "data_inv E s \<Longrightarrow> dropped s s"
  using data_invD(3) [of E s] by (auto simp: dropped_def intro!: exI [of _ "index s"])

lemma dropped_live: "dropped s s' \<Longrightarrow> live s' i \<subseteq> live s i"
proof -
  assume "dropped s s'"
  then have "view s' \<subseteq>\<^sub>m view s" unfolding dropped_def by auto
  then have "view s' h = Some l \<Longrightarrow> view s h = Some l" for h l
    unfolding map_le_def by (metis domI)
  then show ?thesis unfolding live_def by blast
qed

lemma dropped_inv:
  assumes inv: "data_inv E s" and dr: "dropped s s'"
  shows "data_inv E s'" and "refines E s s'"
proof -
  obtain ix where s': "s' = s\<lparr>index := ix\<rparr>" and ok: "index_ok ix" and le: "index_view ix \<subseteq>\<^sub>m view s"
    and len: "length (itable ix) = length (itable (index s))"
    using dr unfolding dropped_def by blast
  have sub: "index_view ix h = Some l \<Longrightarrow> view s h = Some l" for h l
    using le unfolding map_le_def by (metis domI)
  have pt: "i' < length (slabs s) \<and> j' < nr_alloc (slabs s ! i') \<and>
      (\<exists>l. view s h = Some l \<and> content E s (i', j') = content E s l)"
    if at: "index_view ix h = Some (i', j')" for h i' j'
    using data_inv_point(1,2) [OF inv sub [OF at]] sub [OF at] by blast
  have used: "int (card (live (s\<lparr>index := ix\<rparr>) a)) \<le> nr_used (slabs s ! a)" if a: "a < length (slabs s)" for a
  proof -
    have "card (live s' a) \<le> card (live s a)"
      by (rule card_mono [OF finite_live [OF inv] dropped_live [OF dr]])
    then show ?thesis using data_inv_slab(5) [OF inv a] by (simp add: s')
  qed
  note u = upd_index [OF inv ok len pt used]
  show "data_inv E s'" "refines E s s'" using u unfolding s' by simp_all
qed

lemma del_slot_step:
  assumes inv: "data_inv E s"
  shows "safe (dropped s) (\<lambda>go s'. go \<and> dropped s s' \<and>
      view s' (hk E s (slot_key (data fake) (slab_slot fake i))) = None) (del_slot E fake i s)"
proof -
  define key where "key = slot_key (data fake) (slab_slot fake i)"
  note ok = data_invD(3) [OF inv] and dr = dropped_refl [OF inv]
  show ?thesis
  proof (cases "get_index_entry (hash E) key (index s)")
    case (Inl e)
    then show ?thesis using dr by (simp add: del_slot_def del_index_entry_def key_def)
  next
    case (Inr r)
    show ?thesis
    proof (cases r)
      case None
      then show ?thesis
        using Inr dr get_index_entry_None [OF ok Inr [unfolded None]]
        by (simp add: del_slot_def del_index_entry_def key_def hk_def)
    next
      case (Some e)
      note gs = get_index_entry_Some(3,4) [OF ok Inr [unfolded Some]]
      have "dropped s (s\<lparr>index := index_entry_free e (chain_del (index_bucket (hash E) (index s) key) e (index s))\<rparr>)"
        unfolding dropped_def
        by (intro exI conjI, rule refl, rule gs(2), simp only: gs(1))
          (auto simp: map_le_def index_entry_free_def chain_del_def)
      then show ?thesis
        using Inr Some gs(1) by (simp add: del_slot_def del_index_entry_def key_def hk_def)
    qed
  qed
qed

text \<open>
  \<^verbatim>\<open>evict_dslab\<close> on a disk slab backed by its block: objects are dropped, among them every object
  of the slab.
\<close>

lemma evict_dslab_safe:
  assumes inv: "data_inv E s" and d: "nr_mslab s \<le> d" "d < length (slabs s)"
    and b: "block_id fake = block_id (slabs s ! d)"
  shows "safe (dropped s) (\<lambda>_ s'. dropped s s' \<and> live s' d = {}) (evict_dslab E fake s)"
proof (cases "read_block (rdb E) (ssd s) (block_id (slabs s ! d))")
  case (Inl st)
  then show ?thesis using b dropped_refl [OF inv] by (simp add: evict_dslab_def)
next
  case (Inr buf)
  let ?fk = "slab_of_bytes buf"
  define key where "key i = slot_key (data ?fk) (slab_slot ?fk i)" for i
  have "safe (dropped s) (\<lambda>_ s'. dropped s s' \<and> (\<forall>i < nr_alloc ?fk. view s' (hk E s (key i)) = None))
    (visit_slots (del_slot E ?fk) [0..<nr_alloc ?fk] s)"
  proof (rule safe_visit_slots [where P = "\<lambda>n s'. dropped s s' \<and> (\<forall>i < n. view s' (hk E s (key i)) = None)"])
    show "dropped s s \<and> (\<forall>i < 0. view s (hk E s (key i)) = None)"
      using dropped_refl [OF inv] by simp
  next
    fix n s1 assume P: "dropped s s1 \<and> (\<forall>i < n. view s1 (hk E s (key i)) = None)"
    have i1: "data_inv E s1" "refines E s s1" using dropped_inv [OF inv] P by auto
    show "safe (dropped s) (\<lambda>go s'. go \<and> dropped s s' \<and> (\<forall>i < Suc n. view s' (hk E s (key i)) = None))
        (del_slot E ?fk n s1)"
    proof (rule safe_mono [OF del_slot_step [OF i1(1)]])
      show "dropped s1 s' \<Longrightarrow> dropped s s'" for s' using P dropped_trans by blast
      fix go s' assume q: "go \<and> dropped s1 s' \<and> view s' (hk E s1 (slot_key (data ?fk) (slab_slot ?fk n))) = None"
      then have "view s' \<subseteq>\<^sub>m view s1" unfolding dropped_def by auto
      then have "view s1 h = None \<Longrightarrow> view s' h = None" for h by (metis domIff map_le_implies_dom_le subsetD)
      then show "go \<and> dropped s s' \<and> (\<forall>i < Suc n. view s' (hk E s (key i)) = None)"
        using q P dropped_trans refines_hk [OF i1(2)] by (auto simp: less_Suc_eq key_def)
    qed
  qed simp
  moreover have "live s' d = {}"
    if dr: "dropped s s'" and gone: "\<forall>i < nr_alloc ?fk. view s' (hk E s (key i)) = None" for s'
  proof (rule ccontr)
    assume "live s' d \<noteq> {}"
    then obtain h j where v': "view s' h = Some (d, j)" unfolding live_def by blast
    have "view s' \<subseteq>\<^sub>m view s" using dr unfolding dropped_def by auto
    then have v: "view s h = Some (d, j)" using v' unfolding map_le_def by (metis domI)
    have nm: "\<not> im_memory (slabs s ! d)" by (rule geom_block(3) [OF data_invD(1) [OF inv] d])
    have bk: "nr_alloc ?fk = nr_alloc (slabs s ! d)" "slot_size ?fk = slot_size (slabs s ! d)"
      using data_inv_slab(2) [OF inv d(2)] data_inv_point(2) [OF inv v] nm Inr by (auto simp: backed_def)
    have "key j = fst (content E s (d, j))"
      using nm Inr bk
      by (simp add: key_def content_def slab_data_def slot_kv_def slab_slot_def slab_of_bytes_def)
    then have "hk E s (key j) = h" using data_inv_point(3) [OF inv v] by simp
    then show False using gone data_inv_point(2) [OF inv v] bk v' by auto
  qed
  ultimately show ?thesis
    using Inr b by (simp add: evict_dslab_def for_each_slot_def Let_def) (erule safe_weaken, simp)
qed

subsection \<open>Reading and writing objects\<close>

lemma read_dslab_safe:
  assumes "geom E s" and d: "nr_mslab s \<le> d" "d < length (slabs s)"
  shows "safe (\<lambda>s'. s' = s) (\<lambda>fake s'. s' = s \<and> fake = (slabs s ! d)\<lparr>data := slab_data E s d\<rparr>)
    (read_dslab E (slabs s ! d) s)"
  using geom_block(3) [OF assms]
  by (auto simp: read_dslab_def slab_data_def slab_assign_def slab_of_bytes_def split: sum.split)

text \<open>A new object in the next free slot of a memory slab: it is there, and no other object changes.\<close>

definition add_object :: "bytes \<Rightarrow> bytes \<Rightarrow> slab \<Rightarrow> slab" where
  "add_object key value sl =
     sl\<lparr>nr_alloc := nr_alloc sl + 1, nr_used := nr_used sl + 1,
        data := slot_Write (data sl) (slab_slot sl (nr_alloc sl)) key value\<rparr>"

lemma add_object_slots:
  assumes inv: "data_inv E s" and m: "m < nr_mslab s" and room: "nr_alloc (slabs s ! m) < nr_slots (slabs s ! m)"
    and sz: "slot_size_of key value \<le> slot_size (slabs s ! m)"
  defines "d \<equiv> data (slabs s ! m)" and "d' \<equiv> data (add_object key value (slabs s ! m))"
    and "n \<equiv> nr_alloc (slabs s ! m)" and "off \<equiv> slab_slot (slabs s ! m)"
  shows "length d' = length d" and "slot_kv d' (off n) = (key, value)"
    and "slot_fits (slot_size (slabs s ! m)) d' (off n)"
    and "j < n \<Longrightarrow> slot_kv d' (off j) = slot_kv d (off j)"
    and "j < n \<Longrightarrow> slot_fits (slot_size (slabs s ! m)) d' (off j)"
proof -
  note g = data_invD(1) [OF inv]
  note mem = geom_mem [OF g m]
  note hdr = data_inv_slab(1) [OF inv mem(4)]
  have fits: "off n + slot_size (slabs s ! m) \<le> length d"
    using slot_in_slab [OF g hdr room] mem(1) by (simp add: off_def n_def d_def)
  then have fit: "off n + slot_size_of key value \<le> length d" using sz by simp
  have small: "slot_size_of key value < 2 ^ 31" using sz hdr_ok_slots(3) [OF g hdr] by simp
  have d': "d' = slot_Write d (off n) key value"
    by (simp add: d'_def d_def n_def off_def add_object_def)
  show "length d' = length d" "slot_kv d' (off n) = (key, value)"
    "slot_fits (slot_size (slabs s ! m)) d' (off n)"
    unfolding d' using fit small sz by (simp_all add: slot_kv_Write slot_fits_Write)
  assume j: "j < n"
  then have "slot_fits (slot_size (slabs s ! m)) d (off j)"
    using data_inv_slab(3) [OF inv mem(4)] mem(3) by (simp add: slots_fit_def slab_data_def n_def d_def off_def)
  then show "slot_kv d' (off j) = slot_kv d (off j)" "slot_fits (slot_size (slabs s ! m)) d' (off j)"
    using slot_Write_other [of n j key "value" "slot_size (slabs s ! m)" d] j sz fits
    by (simp_all add: d' off_def slab_slot_def)
qed

lemma add_object_step:
  assumes inv: "data_inv E s" and m: "m < nr_mslab s" and room: "nr_alloc (slabs s ! m) < nr_slots (slabs s ! m)"
    and sz: "slot_size_of key value \<le> slot_size (slabs s ! m)"
  defines "s' \<equiv> upd_slab m (add_object key value) s"
  shows "data_inv E s'" and "keeps E s s'" and "content E s' (m, nr_alloc (slabs s ! m)) = (key, value)"
proof -
  note g = data_invD(1) [OF inv]
  note mem = geom_mem [OF g m]
  note sl = add_object_slots [OF inv m room sz]
  have at: "slabs s' ! m = add_object key value (slabs s ! m)" using mem(4) by (simp add: s'_def)
  have fld: "block_id (add_object key value x) = block_id x" "sid (add_object key value x) = sid x"
    "slot_size (add_object key value x) = slot_size x" "slab_slot (add_object key value x) = slab_slot x"
    "nr_alloc (add_object key value x) = Suc (nr_alloc x)" for x
    by (simp_all add: add_object_def slab_slot_def fun_eq_iff)
  have dat: "slab_data E s' m = data (add_object key value (slabs s ! m))" "slab_data E s m = data (slabs s ! m)"
    using mem(3) by (simp_all add: slab_data_def at im_memory_def fld)
  show "content E s' (m, nr_alloc (slabs s ! m)) = (key, value)"
    using sl(2) by (simp add: content_def dat at fld)
  show k: "keeps E s s'"
  proof (rule keepsI)
    fix h l assume "view s h = Some l"
    then have v: "view s h = Some (fst l, snd l)" by simp
    show "content E s' l = content E s l"
    proof (cases "fst l = m")
      case True
      then show ?thesis using sl(4) data_inv_point(2) [OF inv v] by (simp add: content_def dat at fld)
    next
      case False
      then show ?thesis by (simp add: s'_def content_upd_other)
    qed
  qed (simp add: s'_def)
  have hdr: "hdr_ok s (add_object key value (slabs s ! m))"
    using data_inv_slab(1) [OF inv mem(4)] room by (auto simp: hdr_ok_def add_object_def)
  have bk: "backed E s' m" using mem(3) by (simp add: backed_def at im_memory_def fld)
  have ft: "slots_fit E s' m" using sl(3,5) by (auto simp: slots_fit_def dat at fld less_Suc_eq)
  show "data_inv E s'"
  proof (rule data_inv_step [OF inv keeps_refines [OF k]])
    show "geom E s'" unfolding s'_def using g sl(1) by (intro geom_upd_slab) (simp_all add: fld)
    show "slabs_ok E s'"
      unfolding s'_def by (rule slabs_ok_upd [OF data_invD(2) [OF inv] mem(4) hdr bk [unfolded s'_def] ft [unfolded s'_def]])
    show "index_ok (index s')" using data_invD(3) [OF inv] by (simp add: s'_def)
  next
    fix h i j assume "view s' h = Some (i, j)"
    then have "view s h = Some (i, j)" by (simp add: s'_def)
    from data_inv_point(1,2) [OF inv this] show "i < length (slabs s') \<and> j < nr_alloc (slabs s' ! i)"
      using at fld by (cases "i = m") (simp_all add: s'_def)
  next
    fix i assume i: "i < length (slabs s')"
    show "int (card (live s' i)) \<le> nr_used (slabs s' ! i)"
      using data_inv_slab(5) [OF inv, of i] i mem(4)
      by (cases "i = m") (auto simp: s'_def add_object_def)
  qed
qed

subsection \<open>Pointing one hash key to a new place\<close>

lemma live_point:
  assumes inv: "data_inv E s" and v: "index_view ix = (view s)(h0 \<mapsto> (g, j))"
  shows "live (s\<lparr>index := ix\<rparr>) a =
    (live s a - {i. view s h0 = Some (a, i)}) \<union> (if a = g then {j} else {})"
proof -
  have "view (s\<lparr>index := ix\<rparr>) h = Some (a, i) \<longleftrightarrow>
      (if h = h0 then a = g \<and> i = j else view s h = Some (a, i))" for h i
    using v by auto
  then have "i \<in> live (s\<lparr>index := ix\<rparr>) a \<longleftrightarrow> (\<exists>h. h \<noteq> h0 \<and> view s h = Some (a, i)) \<or> a = g \<and> i = j" for i
    unfolding live_def by (simp only: mem_Collect_eq) (metis (full_types))
  moreover have "(\<exists>h. h \<noteq> h0 \<and> view s h = Some (a, i)) \<longleftrightarrow> i \<in> live s a \<and> view s h0 \<noteq> Some (a, i)" for i
    unfolding live_def mem_Collect_eq using view_inj [OF inv, of _ "(a, i)" h0] by metis
  ultimately show ?thesis by auto
qed

lemma point_inv:
  assumes inv: "data_inv E s" and ix: "index_ok ix" "length (itable ix) = length (itable (index s))"
    and v: "index_view ix = (view s)(h0 \<mapsto> (g, j))"
    and g: "g < length (slabs s)" "j < nr_alloc (slabs s ! g)" "hk E s (fst (content E s (g, j))) = h0"
    and room: "int (card (live s g)) + 1 \<le> nr_used (slabs s ! g)"
  shows "data_inv E (s\<lparr>index := ix\<rparr>)"
proof -
  let ?s = "s\<lparr>index := ix\<rparr>"
  have hk: "hk E ?s = hk E s" using ix(2) by (simp add: hk_def fun_eq_iff)
  have "points_ok E ?s"
    unfolding points_ok_def
  proof (intro allI impI)
    fix h a i assume a: "view ?s h = Some (a, i)"
    show "a < length (slabs ?s) \<and> i < nr_alloc (slabs ?s ! a) \<and> hk E ?s (fst (content E ?s (a, i))) = h"
    proof (cases "h = h0")
      case True
      then show ?thesis using a v g hk by simp
    next
      case False
      then have "view s h = Some (a, i)" using a v by simp
      from data_inv_point [OF inv this] show ?thesis using hk by simp
    qed
  qed
  moreover have "used_ok ?s"
    unfolding used_ok_def
  proof (intro allI impI)
    fix a assume a: "a < length (slabs ?s)"
    have fin: "finite (live s a)" by (rule finite_live [OF inv])
    have "card (live ?s a) \<le> card (live s a) + (if a = g then 1 else 0)"
    proof -
      have "live ?s a \<subseteq> live s a \<union> (if a = g then {j} else {})" unfolding live_point [OF inv v] by auto
      then have "card (live ?s a) \<le> card (live s a \<union> (if a = g then {j} else {}))"
        using fin by (intro card_mono) auto
      also have "\<dots> \<le> card (live s a) + card (if a = g then {j} else {})" by (rule card_Un_le)
      finally show ?thesis by (simp split: if_splits)
    qed
    then show "int (card (live ?s a)) \<le> nr_used (slabs ?s ! a)"
      using data_inv_slab(5) [OF inv, of a] a room by (auto split: if_splits)
  qed
  moreover have "slabs_ok E ?s"
    using data_invD(2) [OF inv] by (simp add: slabs_ok_def backed_def slots_fit_def)
  ultimately show ?thesis using ix data_invD(1) [OF inv] by (simp add: data_inv_def)
qed

lemma point_keeps:
  assumes "length (itable ix) = length (itable (index s))" and "index_view ix = (view s)(h0 \<mapsto> (g, j))"
    and "view s h0 = Some l0" and "content E s (g, j) = content E s l0"
  shows "keeps E s (s\<lparr>index := ix\<rparr>)"
proof -
  have "refines E s (s\<lparr>index := ix\<rparr>)"
    unfolding refines_def
  proof (intro conjI allI impI)
    fix h l' assume "view (s\<lparr>index := ix\<rparr>) h = Some l'"
    then show "\<exists>l. view s h = Some l \<and> content E (s\<lparr>index := ix\<rparr>) l' = content E s l"
      using assms(2-4) by (cases "h = h0") auto
  qed (simp add: assms(1))
  moreover have "dom (view (s\<lparr>index := ix\<rparr>)) = dom (view s)" using assms(2,3) by auto
  ultimately show ?thesis by (simp add: keeps_def)
qed

lemma length_slot_kv:
  "slot_fits sz d off \<Longrightarrow> slot_size_of (slot_key d off) (slot_value d off) \<le> sz"
  by (auto simp: slot_fits_def slot_size_of_def slot_key_def slot_value_def bread_def)

end
