(* ===== verification/KV_Lists.thy ===== *)
theory KV_Lists
  imports KV_Move
begin

text \<open>
  The lists the slabs travel through. \<open>slab_pool\<close> is the contract of a list (or of an array of
  per-channel lists) with its size field; from it follows that moving a slab between pools
  conserves the slabs. \<open>disk_inv\<close> and \<open>mem_inv\<close> say where the disk slabs and the memory slabs are,
  that the size counters are right, and what the headers of the slabs on each list look like.
\<close>

subsection \<open>Shared pieces of the two collectors\<close>

definition check_ops_pool :: "'db kv \<Rightarrow> bool" where
  "check_ops_pool s \<longleftrightarrow>
     list_all (\<lambda>l. int (length (items l)) = lsize l) (ops_pool s) \<and>
     (\<Sum>l \<leftarrow> ops_pool s. lsize l) = ops_pool_size s"

definition back_to_free :: "nat \<Rightarrow> nat \<Rightarrow> 'db kv \<Rightarrow> (unit, 'db kv) outcome" where
  "back_to_free c d s =
     (let s = s\<lparr>dslab_free := chan_add c d (dslab_free s), nr_free_dslab := nr_free_dslab s + 1\<rparr>
      in check (0 \<le> nr_free_dslab s \<and> nr_free_dslab s \<le> nr_blocks (ssd s))
           ''nr_free_dslab_ >= 0 && nr_free_dslab_ <= nr_blocks_'' s)"

subsection \<open>Pools\<close>

locale slab_pool =
  fixes ok :: "'p \<Rightarrow> bool"
    and mem :: "'p \<Rightarrow> nat multiset"
    and count_of :: "'p \<Rightarrow> int"
    and may :: "'p \<Rightarrow> nat \<Rightarrow> bool"
    and add :: "nat \<Rightarrow> 'p \<Rightarrow> 'p"
    and del :: "nat \<Rightarrow> 'p \<Rightarrow> 'p"
  assumes add_ok: "ok p \<Longrightarrow> may p x \<Longrightarrow> ok (add x p)"
    and mem_add: "ok p \<Longrightarrow> may p x \<Longrightarrow> mem (add x p) = add_mset x (mem p)"
    and del_ok: "ok p \<Longrightarrow> x \<in># mem p \<Longrightarrow> ok (del x p)"
    and mem_del: "ok p \<Longrightarrow> x \<in># mem p \<Longrightarrow> add_mset x (mem (del x p)) = mem p"
    and count_mem: "ok p \<Longrightarrow> count_of p = int (size (mem p))"
begin

lemma move_conserves:
  assumes "ok p" "ok q" and "x \<in># mem p" and "may q x"
  shows "mem (del x p) + mem (add x q) = mem p + mem q" and "ok (del x p)" and "ok (add x q)"
proof -
  have "mem (del x p) + mem (add x q) = add_mset x (mem (del x p)) + mem q"
    using assms by (simp add: mem_add)
  then show "mem (del x p) + mem (add x q) = mem p + mem q" using assms by (simp add: mem_del)
qed (use assms add_ok del_ok in auto)

lemma count_add: "ok p \<Longrightarrow> may p x \<Longrightarrow> count_of (add x p) = count_of p + 1"
  using add_ok count_mem mem_add by simp

lemma count_del:
  assumes "ok p" "x \<in># mem p"
  shows "count_of (del x p) = count_of p - 1"
proof -
  have "size (mem p) = Suc (size (mem (del x p)))" using mem_del [OF assms] by (metis size_add_mset)
  then show ?thesis using assms del_ok count_mem by simp
qed

end

text \<open>A single list.\<close>

interpretation one: slab_pool slist_ok "\<lambda>l. mset (items l)" lsize "\<lambda>l x. True" slist_add slist_del
  by unfold_locales (auto simp: slist_ok_del, simp add: slist_ok_def)

text \<open>An array of lists, one per channel; \<open>ch\<close> gives the channel of a slab.\<close>

definition members :: "slist list \<Rightarrow> nat list" where
  "members ls = concat (map items ls)"

definition total_size :: "slist list \<Rightarrow> int" where
  "total_size ls = (\<Sum>l \<leftarrow> ls. lsize l)"

definition chans :: "(nat \<Rightarrow> nat) \<Rightarrow> nat \<Rightarrow> slist list \<Rightarrow> bool" where
  "chans ch n ls \<longleftrightarrow> length ls = n \<and>
     (\<forall>c < n. slist_ok (ls ! c) \<and> (\<forall>d \<in> set (items (ls ! c)). ch d = c))"

lemma members_update:
  assumes "c < length ls"
  shows "\<exists>A. mset (members ls) = A + mset (items (ls ! c)) \<and>
    mset (members (ls[c := l])) = A + mset (items l)"
  using mset_concat_update [of c "map items ls" "items l"] assms by (simp add: members_def map_update)

lemma members_chan:
  "chans ch n ls \<Longrightarrow> d \<in> set (members ls) \<Longrightarrow> ch d < n \<and> d \<in> set (items (ls ! ch d))"
  unfolding chans_def members_def by (fastforce simp: in_set_conv_nth [of _ ls])

lemma total_size_members: "chans ch n ls \<Longrightarrow> total_size ls = int (length (members ls))"
proof -
  assume "chans ch n ls"
  then have "l \<in> set ls \<Longrightarrow> lsize l = int (length (items l))" for l
    by (auto simp: chans_def in_set_conv_nth slist_ok_def)
  then show ?thesis by (induction ls) (simp_all add: total_size_def members_def)
qed

lemma chans_add:
  assumes "chans ch n ls" and "ch d < n"
  shows "chans ch n (chan_add (ch d) d ls)"
    and "mset (members (chan_add (ch d) d ls)) = add_mset d (mset (members ls))"
proof -
  show "chans ch n (chan_add (ch d) d ls)"
    using assms by (auto simp: chans_def chan_add_def nth_list_update)
  have "ch d < length ls" using assms by (simp add: chans_def)
  from members_update [OF this, of "slist_add d (ls ! ch d)"]
  show "mset (members (chan_add (ch d) d ls)) = add_mset d (mset (members ls))"
    by (auto simp: chan_add_def)
qed

lemma chans_del:
  assumes "chans ch n ls" and "c < n" and "d \<in> set (items (ls ! c))"
  shows "chans ch n (chan_del c d ls)"
    and "add_mset d (mset (members (chan_del c d ls))) = mset (members ls)"
    and "d \<in> set (members ls)" and "ch d = c"
proof -
  have sub: "x \<in> set (items (slist_del d (ls ! c))) \<Longrightarrow> x \<in> set (items (ls ! c))" for x
    using set_remove1_subset by fastforce
  show "chans ch n (chan_del c d ls)"
    using assms sub by (auto simp: chans_def chan_del_def nth_list_update intro: slist_ok_del)
  have c: "c < length ls" using assms by (simp add: chans_def)
  from members_update [OF this, of "slist_del d (ls ! c)"] assms(3)
  show "add_mset d (mset (members (chan_del c d ls))) = mset (members ls)"
    by (auto simp: chan_del_def)
  show "d \<in> set (members ls)" using c assms(3) unfolding members_def by auto
  show "ch d = c" using assms by (simp add: chans_def)
qed

interpretation pool: slab_pool "chans ch n" "\<lambda>ls. mset (members ls)" total_size "\<lambda>ls d. ch d < n"
  "\<lambda>d. chan_add (ch d) d" "\<lambda>d. chan_del (ch d) d" for ch n
proof unfold_locales
  fix p x
  assume ok: "chans ch n p"
  show "ch x < n \<Longrightarrow> chans ch n (chan_add (ch x) x p)"
    "ch x < n \<Longrightarrow> mset (members (chan_add (ch x) x p)) = add_mset x (mset (members p))"
    by (rule chans_add [OF ok]; assumption)+
  assume "x \<in># mset (members p)"
  then have x: "ch x < n" "x \<in> set (items (p ! ch x))" using members_chan [OF ok] by auto
  show "chans ch n (chan_del (ch x) x p)"
    "add_mset x (mset (members (chan_del (ch x) x p))) = mset (members p)"
    using chans_del [OF ok x] by auto
qed (simp add: total_size_members)

subsection \<open>Where the disk slabs are\<close>

definition nch :: "'db kv \<Rightarrow> nat" where
  "nch s = nat (nr_channels (ssd s))"

abbreviation chan_lists :: "'db kv \<Rightarrow> slist list \<Rightarrow> bool" where
  "chan_lists s \<equiv> chans (slab_channel s) (nch s)"

definition is_dslab :: "'db kv \<Rightarrow> nat \<Rightarrow> bool" where
  "is_dslab s d \<longleftrightarrow> nr_mslab s \<le> d \<and> d < length (slabs s)"

text \<open>All slabs on the lists of the object.\<close>

definition on_lists :: "'db kv \<Rightarrow> nat multiset" where
  "on_lists s = mset (members (dslab_free s)) + mset (members (dslab_full s)) + mset (members (ops_pool s))"

definition placed :: "nat list \<Rightarrow> 'db kv \<Rightarrow> nat multiset" where
  "placed H s = mset H + on_lists s"

text \<open>
  \<open>disk_inv H X s\<close>: \<open>H\<close> are the slabs that the running operation holds off the lists, \<open>X\<close> the slabs
  on the lists of full slabs that have no class yet.
\<close>

definition disk_inv :: "nat list \<Rightarrow> nat set \<Rightarrow> 'db kv \<Rightarrow> bool" where
  "disk_inv H X s \<longleftrightarrow>
     chan_lists s (dslab_free s) \<and> chan_lists s (dslab_full s) \<and> chan_lists s (ops_pool s) \<and>
     (\<forall>d. count (placed H s) d \<le> 1) \<and> (\<forall>d \<in># placed H s. is_dslab s d) \<and>
     nr_free_dslab s = total_size (dslab_free s) \<and> ops_pool_size s = total_size (ops_pool s) \<and>
     (\<forall>d \<in> set (members (dslab_free s)) \<union> set (members (ops_pool s)).
        nr_alloc (slabs s ! d) = 0 \<and> cid (slabs s ! d) = -1) \<and>
     (\<forall>d \<in> set (members (dslab_full s)) - X. cid (slabs s ! d) \<noteq> -1)"

definition ops_in_range :: "'db kv \<Rightarrow> bool" where
  "ops_in_range s \<longleftrightarrow> 0 < ops_pool_size s \<and> ops_pool_size s \<le> max_ops_pool_size s"

subsection \<open>Where the memory slabs are\<close>

definition partials :: "'db kv \<Rightarrow> nat list" where
  "partials s = concat (map slab_partial (slab_class_table s))"

definition mem_lists :: "'db kv \<Rightarrow> nat multiset" where
  "mem_lists s = mset (items (mslab_free s)) + mset (items (mslab_full s)) + mset (partials s)"

definition mem_inv :: "nat list \<Rightarrow> 'db kv \<Rightarrow> bool" where
  "mem_inv H s \<longleftrightarrow> slist_ok (mslab_free s) \<and> slist_ok (mslab_full s) \<and>
     (\<forall>m. count (mset H + mem_lists s) m \<le> 1) \<and>
     (\<forall>m \<in># mset H + mem_lists s. m < nr_mslab s - 1) \<and>
     (\<forall>m \<in> set (items (mslab_free s)). nr_alloc (slabs s ! m) = 0) \<and>
     (\<forall>m \<in> set (items (mslab_full s)). cid (slabs s ! m) \<noteq> -1) \<and>
     (\<forall>c < length (slab_class_table s). \<forall>m \<in> set (slab_partial (slab_class_table s ! c)).
        cid (slabs s ! m) = int c \<and> nr_alloc (slabs s ! m) < nr_slots (slabs s ! m))"

text \<open>The rotating channel pointers stay in range.\<close>

definition ptrs_ok :: "'db kv \<Rightarrow> bool" where
  "ptrs_ok s \<longleftrightarrow> next_ops_pool_remove_channel s < nch s \<and> next_mslab_flush_channel s < nch s"

text \<open>The whole invariant between operations: the buffer of the collector holds no object.\<close>

definition kv_inv :: "'db env \<Rightarrow> 'db kv \<Rightarrow> bool" where
  "kv_inv E s \<longleftrightarrow> data_inv E s \<and> disk_inv [] {} s \<and> mem_inv [] s \<and> ops_in_range s \<and>
     ptrs_ok s \<and> live s (gc_buffer s) = {}"

subsection \<open>Frames\<close>

lemma nch_pos: "geom E s \<Longrightarrow> 0 < nch s"
  by (simp add: geom_def nch_def ssd_ok_def)

lemma slab_channel_less:
  assumes g: "geom E s" and d: "is_dslab s d"
  shows "slab_channel s d < nch s"
proof -
  have b: "0 \<le> block_id (slabs s ! d)" "block_id (slabs s ! d) < nr_blocks (ssd s)"
    using g d unfolding geom_def is_dslab_def by blast+
  have ok: "ssd_ok (rdb E) (ssd s)" using g unfolding geom_def by blast
  from channel_id_less [OF ok b] show ?thesis by (simp add: slab_channel_def nch_def)
qed

text \<open>The fields \<open>disk_inv\<close> and \<open>mem_inv\<close> depend on besides the headers of the slabs.\<close>

definition same_place :: "'db kv \<Rightarrow> 'db kv \<Rightarrow> bool" where
  "same_place s s' \<longleftrightarrow> nch s' = nch s \<and> slab_channel s' = slab_channel s \<and> nr_mslab s' = nr_mslab s \<and>
     length (slabs s') = length (slabs s) \<and> slab_size s' = slab_size s \<and> mslab_base s' = mslab_base s \<and>
     shutdown s' = shutdown s \<and> enable_background_flush s' = enable_background_flush s \<and>
     enable_background_gc s' = enable_background_gc s \<and> nr_blocks (ssd s') = nr_blocks (ssd s) \<and>
     is_dev (ssd s') = is_dev (ssd s) \<and> (ptrs_ok s \<longrightarrow> ptrs_ok s')"

definition same_lists :: "'db kv \<Rightarrow> 'db kv \<Rightarrow> bool" where
  "same_lists s s' \<longleftrightarrow> dslab_free s' = dslab_free s \<and> dslab_full s' = dslab_full s \<and>
     ops_pool s' = ops_pool s \<and> nr_free_dslab s' = nr_free_dslab s \<and>
     ops_pool_size s' = ops_pool_size s \<and> max_ops_pool_size s' = max_ops_pool_size s \<and>
     mslab_free s' = mslab_free s \<and> mslab_full s' = mslab_full s \<and>
     slab_class_table s' = slab_class_table s \<and> nr_full_dslab s' = nr_full_dslab s"

lemma same_place_refl [simp]: "same_place s s"
  by (simp add: same_place_def)

lemma same_place_trans: "same_place s t \<Longrightarrow> same_place t u \<Longrightarrow> same_place s u"
  by (simp add: same_place_def)

lemma same_lists_refl [simp]: "same_lists s s"
  by (simp add: same_lists_def)

lemma same_lists_trans: "same_lists s t \<Longrightarrow> same_lists t u \<Longrightarrow> same_lists s u"
  by (simp add: same_lists_def)

lemma same_place_upd_slab:
  "block_id (f (slabs s ! i)) = block_id (slabs s ! i) \<Longrightarrow> same_place s (upd_slab i f s)"
  by (cases "i < length (slabs s)")
    (auto simp: same_place_def ptrs_ok_def nch_def slab_channel_def upd_slab_def nth_list_update fun_eq_iff
      list_update_beyond)

lemma same_lists_upd_slab [simp]: "same_lists s (upd_slab i f s)"
  by (simp add: same_lists_def)

lemma disk_inv_frame:
  assumes "disk_inv H X s" and "same_place s s'" and "same_lists s s'"
    and "\<And>d. d \<in> set (members (dslab_free s)) \<union> set (members (ops_pool s)) \<Longrightarrow>
      nr_alloc (slabs s' ! d) = 0 \<and> cid (slabs s' ! d) = -1"
    and "\<And>d. d \<in> set (members (dslab_full s)) \<Longrightarrow> d \<notin> X' \<Longrightarrow> cid (slabs s' ! d) \<noteq> -1"
  shows "disk_inv H X' s'"
  using assms unfolding disk_inv_def same_place_def same_lists_def is_dslab_def placed_def on_lists_def
  by simp

lemma mem_inv_frame:
  assumes "mem_inv H s" and "same_place s s'" and "same_lists s s'"
    and "\<And>m. m \<in># mem_lists s \<Longrightarrow> nr_alloc (slabs s' ! m) = nr_alloc (slabs s ! m) \<and>
      cid (slabs s' ! m) = cid (slabs s ! m) \<and> nr_slots (slabs s' ! m) = nr_slots (slabs s ! m)"
  shows "mem_inv H s'"
proof -
  have "m \<in># mem_lists s" if "m \<in> set (slab_partial (slab_class_table s ! c))" "c < length (slab_class_table s)" for m c
    using that by (auto simp: mem_lists_def partials_def)
  moreover have "m \<in># mem_lists s" if "m \<in> set (items (mslab_free s)) \<or> m \<in> set (items (mslab_full s))" for m
    using that by (auto simp: mem_lists_def)
  ultimately show ?thesis
    using assms unfolding mem_inv_def same_place_def same_lists_def
    by (simp add: mem_lists_def partials_def)
qed

lemma place_updates [simp]:
  "slab_channel (s\<lparr>dslab_free := x1\<rparr>) = slab_channel s" "slab_channel (s\<lparr>dslab_full := x1\<rparr>) = slab_channel s"
  "slab_channel (s\<lparr>ops_pool := x1\<rparr>) = slab_channel s" "slab_channel (s\<lparr>nr_free_dslab := x2\<rparr>) = slab_channel s"
  "slab_channel (s\<lparr>nr_full_dslab := x2\<rparr>) = slab_channel s" "slab_channel (s\<lparr>ops_pool_size := x2\<rparr>) = slab_channel s"
  "slab_channel (s\<lparr>index := x3\<rparr>) = slab_channel s" "slab_channel (s\<lparr>index_locked := x4\<rparr>) = slab_channel s"
  "slab_channel (s\<lparr>next_ops_pool_remove_channel := x5\<rparr>) = slab_channel s"
  "slab_channel (s\<lparr>next_mslab_flush_channel := x5\<rparr>) = slab_channel s"
  "slab_channel (s\<lparr>water_mark_low := x2\<rparr>) = slab_channel s" "slab_channel (s\<lparr>water_mark_high := x2\<rparr>) = slab_channel s"
  "slab_channel (s\<lparr>mslab_free := x6\<rparr>) = slab_channel s" "slab_channel (s\<lparr>mslab_full := x6\<rparr>) = slab_channel s"
  "slab_channel (s\<lparr>slab_class_table := x7\<rparr>) = slab_channel s"
  "slab_channel (s\<lparr>slab_gc_thread_started := x4\<rparr>) = slab_channel s"
  "slab_channel (s\<lparr>slab_flush_thread_started := x4\<rparr>) = slab_channel s"
  by (simp_all add: slab_channel_def fun_eq_iff)

lemma nch_updates [simp]:
  "nch (s\<lparr>dslab_free := x1\<rparr>) = nch s" "nch (s\<lparr>dslab_full := x1\<rparr>) = nch s"
  "nch (s\<lparr>ops_pool := x1\<rparr>) = nch s" "nch (s\<lparr>nr_free_dslab := x2\<rparr>) = nch s"
  "nch (s\<lparr>nr_full_dslab := x2\<rparr>) = nch s" "nch (s\<lparr>ops_pool_size := x2\<rparr>) = nch s"
  "nch (s\<lparr>index := x3\<rparr>) = nch s" "nch (s\<lparr>index_locked := x4\<rparr>) = nch s"
  "nch (s\<lparr>next_ops_pool_remove_channel := x5\<rparr>) = nch s" "nch (s\<lparr>next_mslab_flush_channel := x5\<rparr>) = nch s"
  "nch (s\<lparr>water_mark_low := x2\<rparr>) = nch s" "nch (s\<lparr>water_mark_high := x2\<rparr>) = nch s"
  "nch (s\<lparr>mslab_free := x6\<rparr>) = nch s" "nch (s\<lparr>mslab_full := x6\<rparr>) = nch s"
  "nch (s\<lparr>slab_class_table := x7\<rparr>) = nch s" "nch (s\<lparr>slab_gc_thread_started := x4\<rparr>) = nch s"
  "nch (s\<lparr>slab_flush_thread_started := x4\<rparr>) = nch s" "nch (upd_slab i f s) = nch s"
  by (simp_all add: nch_def)

lemma is_dslab_simps [simp]:
  "is_dslab (s\<lparr>dslab_free := x1\<rparr>) = is_dslab s" "is_dslab (s\<lparr>dslab_full := x1\<rparr>) = is_dslab s"
  "is_dslab (s\<lparr>ops_pool := x1\<rparr>) = is_dslab s" "is_dslab (s\<lparr>nr_free_dslab := x2\<rparr>) = is_dslab s"
  "is_dslab (s\<lparr>nr_full_dslab := x2\<rparr>) = is_dslab s" "is_dslab (s\<lparr>ops_pool_size := x2\<rparr>) = is_dslab s"
  "is_dslab (s\<lparr>index := x3\<rparr>) = is_dslab s" "is_dslab (s\<lparr>index_locked := x4\<rparr>) = is_dslab s"
  "is_dslab (s\<lparr>next_ops_pool_remove_channel := x5\<rparr>) = is_dslab s" "is_dslab (upd_slab i f s) = is_dslab s"
  "is_dslab (s\<lparr>next_mslab_flush_channel := x5\<rparr>) = is_dslab s"
  by (simp_all add: is_dslab_def fun_eq_iff)

lemma ptrs_ok_updates [simp]:
  "ptrs_ok (s\<lparr>index_locked := x4\<rparr>) = ptrs_ok s" "ptrs_ok (s\<lparr>index := x3\<rparr>) = ptrs_ok s"
  "ptrs_ok (upd_slab i f s) = ptrs_ok s"
  by (simp_all add: ptrs_ok_def)

lemma relock_frames [simp]:
  "same_place (s\<lparr>index_locked := x4\<rparr>) s' = same_place s s'"
  "same_place s (s'\<lparr>index_locked := x4\<rparr>) = same_place s s'"
  "same_lists (s\<lparr>index_locked := x4\<rparr>) s' = same_lists s s'"
  "same_lists s (s'\<lparr>index_locked := x4\<rparr>) = same_lists s s'"
  "live (s\<lparr>index_locked := x4\<rparr>) = live s" "gc_buffer (s\<lparr>index_locked := x4\<rparr>) = gc_buffer s"
  by (simp_all add: same_place_def same_lists_def live_def gc_buffer_def fun_eq_iff)

subsection \<open>Taking a slab off a list and putting it on one\<close>

lemma disk_invD:
  assumes "disk_inv H X s"
  shows "chan_lists s (dslab_free s)" "chan_lists s (dslab_full s)" "chan_lists s (ops_pool s)"
    "nr_free_dslab s = total_size (dslab_free s)" "ops_pool_size s = total_size (ops_pool s)"
    "d \<in> set (members (dslab_free s)) \<Longrightarrow> is_dslab s d \<and> nr_alloc (slabs s ! d) = 0 \<and> cid (slabs s ! d) = -1"
    "d \<in> set (members (ops_pool s)) \<Longrightarrow> is_dslab s d \<and> nr_alloc (slabs s ! d) = 0 \<and> cid (slabs s ! d) = -1"
    "d \<in> set (members (dslab_full s)) \<Longrightarrow> is_dslab s d"
    "d \<in> set (members (dslab_full s)) \<Longrightarrow> d \<notin> X \<Longrightarrow> cid (slabs s ! d) \<noteq> -1"
    "d \<in> set H \<Longrightarrow> is_dslab s d"
  using assms unfolding disk_inv_def placed_def on_lists_def by auto

lemma disk_inv_step:
  assumes "disk_inv H X s" and "placed H' s' = placed H s" and "same_place s s'"
    and "chan_lists s (dslab_free s')" "chan_lists s (dslab_full s')" "chan_lists s (ops_pool s')"
    and "nr_free_dslab s' = total_size (dslab_free s')" and "ops_pool_size s' = total_size (ops_pool s')"
    and "\<And>d. d \<in> set (members (dslab_free s')) \<union> set (members (ops_pool s')) \<Longrightarrow>
        nr_alloc (slabs s' ! d) = 0 \<and> cid (slabs s' ! d) = -1"
    and "\<And>d. d \<in> set (members (dslab_full s')) \<Longrightarrow> d \<notin> X' \<Longrightarrow> cid (slabs s' ! d) \<noteq> -1"
  shows "disk_inv H' X' s'"
  using assms unfolding disk_inv_def same_place_def is_dslab_def by simp

lemma chan_del_subset:
  "add_mset d (mset (members ls')) = mset (members ls) \<Longrightarrow> x \<in> set (members ls') \<Longrightarrow> x \<in> set (members ls)"
  by (metis insert_iff set_mset_add_mset_insert set_mset_mset)

lemma chan_add_set:
  "mset (members ls') = add_mset d (mset (members ls)) \<Longrightarrow> set (members ls') = insert d (set (members ls))"
  by (metis set_mset_add_mset_insert set_mset_mset)

lemma take_free:
  assumes inv: "disk_inv H X s" and c: "c < nch s" and d: "d \<in> set (items (dslab_free s ! c))"
  shows "disk_inv (d # H) X (s\<lparr>dslab_free := chan_del c d (dslab_free s), nr_free_dslab := nr_free_dslab s - 1\<rparr>)"
    and "0 < nr_free_dslab s"
proof -
  note D = disk_invD [OF inv]
  note dl = chans_del [OF D(1) c d]
  note cnt = pool.count_del [OF D(1), of d]
  show "disk_inv (d # H) X (s\<lparr>dslab_free := chan_del c d (dslab_free s), nr_free_dslab := nr_free_dslab s - 1\<rparr>)"
    by (rule disk_inv_step [OF inv])
      (use D dl cnt chan_del_subset [OF dl(2)] in
        \<open>auto simp: placed_def on_lists_def same_place_def ptrs_ok_def simp flip: dl(2)\<close>)
  have "0 < length (members (dslab_free s))" using dl(3) by (cases "members (dslab_free s)") auto
  then show "0 < nr_free_dslab s" using D(1,4) total_size_members by simp
qed

lemma take_full:
  assumes inv: "disk_inv H X s" and c: "c < nch s" and d: "d \<in> set (items (dslab_full s ! c))"
  shows "disk_inv (d # H) X (s\<lparr>dslab_full := chan_del c d (dslab_full s), nr_full_dslab := n\<rparr>)"
proof -
  note D = disk_invD [OF inv]
  note dl = chans_del [OF D(2) c d]
  show ?thesis
    by (rule disk_inv_step [OF inv])
      (use D dl chan_del_subset [OF dl(2)] in
        \<open>auto simp: placed_def on_lists_def same_place_def ptrs_ok_def simp flip: dl(2)\<close>)
qed

lemma take_ops_pool:
  assumes inv: "disk_inv H X s" and c: "c < nch s" and d: "d \<in> set (items (ops_pool s ! c))"
  shows "disk_inv (d # H) X (s\<lparr>ops_pool := chan_del c d (ops_pool s), ops_pool_size := ops_pool_size s - 1\<rparr>)"
proof -
  note D = disk_invD [OF inv]
  note dl = chans_del [OF D(3) c d]
  note cnt = pool.count_del [OF D(3), of d]
  show ?thesis
    by (rule disk_inv_step [OF inv])
      (use D dl cnt chan_del_subset [OF dl(2)] in
        \<open>auto simp: placed_def on_lists_def same_place_def ptrs_ok_def simp flip: dl(2)\<close>)
qed

lemma give_free:
  assumes g: "geom E s" and inv: "disk_inv (d # H) X s" and r: "nr_alloc (slabs s ! d) = 0" "cid (slabs s ! d) = -1"
  shows "disk_inv H X (s\<lparr>dslab_free := chan_add (slab_channel s d) d (dslab_free s),
    nr_free_dslab := nr_free_dslab s + 1\<rparr>)"
proof -
  note D = disk_invD [OF inv]
  have ch: "slab_channel s d < nch s" using slab_channel_less [OF g] D(10) by simp
  note ad = chans_add [OF D(1) ch]
  show ?thesis
    by (rule disk_inv_step [OF inv])
      (use D ad r pool.count_add [OF D(1) ch] chan_add_set [OF ad(2)] in
        \<open>auto simp: placed_def on_lists_def same_place_def ptrs_ok_def ad(2)\<close>)
qed

lemma give_ops:
  assumes g: "geom E s" and inv: "disk_inv (d # H) X s" and r: "nr_alloc (slabs s ! d) = 0" "cid (slabs s ! d) = -1"
  shows "disk_inv H X (s\<lparr>ops_pool := chan_add (slab_channel s d) d (ops_pool s),
    ops_pool_size := ops_pool_size s + 1\<rparr>)"
proof -
  note D = disk_invD [OF inv]
  have ch: "slab_channel s d < nch s" using slab_channel_less [OF g] D(10) by simp
  note ad = chans_add [OF D(3) ch]
  show ?thesis
    by (rule disk_inv_step [OF inv])
      (use D ad r pool.count_add [OF D(3) ch] chan_add_set [OF ad(2)] in
        \<open>auto simp: placed_def on_lists_def same_place_def ptrs_ok_def ad(2)\<close>)
qed

lemma give_full:
  assumes g: "geom E s" and inv: "disk_inv (d # H) X s" and r: "cid (slabs s ! d) \<noteq> -1 \<or> d \<in> X"
  shows "disk_inv H X (s\<lparr>dslab_full := chan_add (slab_channel s d) d (dslab_full s), nr_full_dslab := n\<rparr>)"
proof -
  note D = disk_invD [OF inv]
  have ch: "slab_channel s d < nch s" using slab_channel_less [OF g] D(10) by simp
  note ad = chans_add [OF D(2) ch]
  show ?thesis
    by (rule disk_inv_step [OF inv])
      (use D ad r chan_add_set [OF ad(2)] in
        \<open>auto simp: placed_def on_lists_def same_place_def ptrs_ok_def ad(2)\<close>)
qed

text \<open>A slab the operation holds is on no list, and held once.\<close>

lemma held_unlisted:
  assumes "disk_inv (d # H) X s"
  shows "d \<notin> set H" "d \<notin> set (members (dslab_free s))" "d \<notin> set (members (dslab_full s))"
    "d \<notin> set (members (ops_pool s))"
proof -
  have "count (placed (d # H) s) d \<le> 1" using assms by (simp add: disk_inv_def)
  then have "count (mset H + on_lists s) d = 0" by (simp add: placed_def)
  then show "d \<notin> set H" "d \<notin> set (members (dslab_free s))" "d \<notin> set (members (dslab_full s))"
    "d \<notin> set (members (ops_pool s))"
    by (auto simp: on_lists_def)
qed

lemma disk_inv_perm: "disk_inv H X s \<Longrightarrow> mset H' = mset H \<Longrightarrow> disk_inv H' X s"
  unfolding disk_inv_def placed_def by simp

text \<open>Forgetting a held slab: what the early exit of the reclaim loop does.\<close>

lemma disk_inv_forget: "disk_inv (d # H) X s \<Longrightarrow> disk_inv H X s"
proof -
  assume inv: "disk_inv (d # H) X s"
  have "placed (d # H) s = add_mset d (placed H s)" by (simp add: placed_def)
  then have "count (placed H s) x \<le> count (placed (d # H) s) x" and "x \<in># placed H s \<Longrightarrow> x \<in># placed (d # H) s" for x
    by simp_all
  then show ?thesis using inv unfolding disk_inv_def by (meson le_trans)
qed

subsection \<open>Steps that leave the lists and the headers alone\<close>

definition calm :: "'db kv \<Rightarrow> 'db kv \<Rightarrow> bool" where
  "calm s s' \<longleftrightarrow> same_place s s' \<and> same_lists s s' \<and> index_locked s' = index_locked s \<and> ssd s' = ssd s \<and>
     (\<forall>i. nr_alloc (slabs s' ! i) = nr_alloc (slabs s ! i) \<and> cid (slabs s' ! i) = cid (slabs s ! i) \<and>
        nr_slots (slabs s' ! i) = nr_slots (slabs s ! i) \<and> slot_size (slabs s' ! i) = slot_size (slabs s ! i) \<and>
        data (slabs s' ! i) = data (slabs s ! i) \<and> block_id (slabs s' ! i) = block_id (slabs s ! i))"

lemma calm_refl [simp]: "calm s s"
  by (simp add: calm_def)

lemma calm_trans: "calm s t \<Longrightarrow> calm t u \<Longrightarrow> calm s u"
  unfolding calm_def using same_place_trans same_lists_trans by metis

lemma calm_disk: "disk_inv H X s \<Longrightarrow> calm s s' \<Longrightarrow> disk_inv H X s'"
proof -
  assume inv: "disk_inv H X s" and c: "calm s s'"
  show ?thesis
    by (rule disk_inv_frame [OF inv]) (use c disk_invD(6,7,9) [OF inv] in \<open>auto simp: calm_def\<close>)
qed

lemma calm_mem: "mem_inv H s \<Longrightarrow> calm s s' \<Longrightarrow> mem_inv H s'"
  by (erule mem_inv_frame) (auto simp: calm_def)

lemma calm_ops: "ops_in_range s \<Longrightarrow> calm s s' \<Longrightarrow> ops_in_range s'"
  by (simp add: calm_def same_lists_def ops_in_range_def)

lemma calm_place: "calm s s' \<Longrightarrow> same_place s s' \<and> same_lists s s'"
  by (simp add: calm_def)

lemma calm_is_dslab: "calm s s' \<Longrightarrow> is_dslab s' = is_dslab s"
  by (simp add: calm_def same_place_def is_dslab_def fun_eq_iff)

lemma calm_nr_used: "calm s (upd_slab i (\<lambda>sl. sl\<lparr>nr_used := n\<rparr>) s)"
proof -
  have "slabs (upd_slab i (\<lambda>sl. sl\<lparr>nr_used := n\<rparr>) s) ! j \<in> {slabs s ! j, (slabs s ! j)\<lparr>nr_used := n\<rparr>}" for j
    by (cases "j = i"; cases "i < length (slabs s)") (simp_all add: upd_slab_def list_update_beyond)
  then have "\<forall>j. slabs (upd_slab i (\<lambda>sl. sl\<lparr>nr_used := n\<rparr>) s) ! j = slabs s ! j \<or>
      slabs (upd_slab i (\<lambda>sl. sl\<lparr>nr_used := n\<rparr>) s) ! j = (slabs s ! j)\<lparr>nr_used := n\<rparr>" by simp
  then have "nr_alloc (slabs (upd_slab i (\<lambda>sl. sl\<lparr>nr_used := n\<rparr>) s) ! j) = nr_alloc (slabs s ! j) \<and>
      cid (slabs (upd_slab i (\<lambda>sl. sl\<lparr>nr_used := n\<rparr>) s) ! j) = cid (slabs s ! j) \<and>
      nr_slots (slabs (upd_slab i (\<lambda>sl. sl\<lparr>nr_used := n\<rparr>) s) ! j) = nr_slots (slabs s ! j) \<and>
      slot_size (slabs (upd_slab i (\<lambda>sl. sl\<lparr>nr_used := n\<rparr>) s) ! j) = slot_size (slabs s ! j) \<and>
      data (slabs (upd_slab i (\<lambda>sl. sl\<lparr>nr_used := n\<rparr>) s) ! j) = data (slabs s ! j) \<and>
      block_id (slabs (upd_slab i (\<lambda>sl. sl\<lparr>nr_used := n\<rparr>) s) ! j) = block_id (slabs s ! j)" for j
    by (elim allE [of _ j] disjE) simp_all
  moreover have "same_place s (upd_slab i (\<lambda>sl. sl\<lparr>nr_used := n\<rparr>) s)" by (rule same_place_upd_slab) simp
  ultimately show ?thesis by (simp add: calm_def)
qed

lemma calm_index: "calm s (s\<lparr>index := ix\<rparr>)"
  by (simp add: calm_def same_place_def same_lists_def ptrs_ok_def)

subsection \<open>Changing the header of one slab\<close>

lemma disk_inv_upd:
  assumes inv: "disk_inv H X s" and b: "block_id (f (slabs s ! i)) = block_id (slabs s ! i)"
    and out: "i \<notin> set (members (dslab_free s))" "i \<notin> set (members (ops_pool s))"
    and full: "i \<in> set (members (dslab_full s)) \<Longrightarrow> i \<notin> X' \<Longrightarrow> cid (f (slabs s ! i)) \<noteq> -1"
    and X: "X - {i} \<subseteq> X'"
  shows "disk_inv H X' (upd_slab i f s)"
proof (rule disk_inv_frame [OF inv same_place_upd_slab [of f s i, OF b] same_lists_upd_slab])
  fix d assume d: "d \<in> set (members (dslab_free s)) \<union> set (members (ops_pool s))"
  then have "d \<noteq> i" using out by blast
  then show "nr_alloc (slabs (upd_slab i f s) ! d) = 0 \<and> cid (slabs (upd_slab i f s) ! d) = -1"
    using disk_invD(6,7) [OF inv] d by auto
next
  fix d assume d: "d \<in> set (members (dslab_full s))" "d \<notin> X'"
  show "cid (slabs (upd_slab i f s) ! d) \<noteq> -1"
    using disk_invD(8,9) [OF inv, of d] d full X by (cases "d = i") (auto simp: is_dslab_def)
qed

lemma mem_inv_upd:
  assumes "mem_inv H s" and "i \<notin># mem_lists s" and b: "block_id (f (slabs s ! i)) = block_id (slabs s ! i)"
  shows "mem_inv H (upd_slab i f s)"
proof (rule mem_inv_frame [OF assms(1) same_place_upd_slab [of f s i, OF b] same_lists_upd_slab])
  fix m assume "m \<in># mem_lists s"
  then have "m \<noteq> i" using assms(2) by blast
  then show "nr_alloc (slabs (upd_slab i f s) ! m) = nr_alloc (slabs s ! m) \<and>
      cid (slabs (upd_slab i f s) ! m) = cid (slabs s ! m) \<and>
      nr_slots (slabs (upd_slab i f s) ! m) = nr_slots (slabs s ! m)" by simp
qed

lemma mem_lists_dslab: "mem_inv H s \<Longrightarrow> is_dslab s i \<or> i = gc_buffer s \<Longrightarrow> i \<notin># mem_lists s"
proof
  assume "mem_inv H s" and i: "is_dslab s i \<or> i = gc_buffer s" and "i \<in># mem_lists s"
  then have "i < nr_mslab s - 1" by (simp add: mem_inv_def)
  then show False using i by (auto simp: is_dslab_def gc_buffer_def)
qed

text \<open>Resetting a disk slab the operation holds.\<close>

lemma slab_reset_place [simp]: "keeps_place slab_reset" "block_id (slab_reset x) = block_id x"
  "nr_alloc (slab_reset x) = 0" "cid (slab_reset x) = -1" "nr_used (slab_reset x) = 0"
  by (simp_all add: keeps_place_def slab_reset_def)

lemma reset_held:
  assumes inv: "data_inv E s" and di: "disk_inv (d # H) X s" and mi: "mem_inv Hm s" and un: "live s d = {}"
  shows "data_inv E (upd_slab d slab_reset s)" "keeps E s (upd_slab d slab_reset s)"
    "disk_inv (d # H) X (upd_slab d slab_reset s)" "mem_inv Hm (upd_slab d slab_reset s)"
    "same_place s (upd_slab d slab_reset s)"
    "slabs (upd_slab d slab_reset s) ! d = slab_reset (slabs s ! d)"
proof -
  have isd: "is_dslab s d" using disk_invD(10) [OF di] by simp
  then have d: "d < length (slabs s)" by (simp add: is_dslab_def)
  show "data_inv E (upd_slab d slab_reset s)" "keeps E s (upd_slab d slab_reset s)"
    by (rule upd_unused_slab [OF inv d _ un]; simp)+
  show "disk_inv (d # H) X (upd_slab d slab_reset s)"
    by (rule disk_inv_upd [OF di]) (use held_unlisted [OF di] in auto)
  show "mem_inv Hm (upd_slab d slab_reset s)"
    by (rule mem_inv_upd [OF mi]) (use mem_lists_dslab [OF mi] isd in auto)
  show "same_place s (upd_slab d slab_reset s)" by (rule same_place_upd_slab) simp
  show "slabs (upd_slab d slab_reset s) ! d = slab_reset (slabs s ! d)" using d by simp
qed

lemma check_ops_pool_inv:
  assumes "disk_inv H X s"
  shows "check_ops_pool s"
proof -
  note D = disk_invD(3,5) [OF assms]
  have "l \<in> set (ops_pool s) \<Longrightarrow> int (length (items l)) = lsize l" for l
    using D(1) by (auto simp: chans_def in_set_conv_nth slist_ok_def)
  then show ?thesis using D(2) by (simp add: check_ops_pool_def list_all_iff total_size_def)
qed

subsection \<open>Steps that only move disk slabs between lists\<close>

definition list_move :: "'db kv \<Rightarrow> 'db kv \<Rightarrow> bool" where
  "list_move s s' \<longleftrightarrow> same_data s s' \<and> same_place s s' \<and> mslab_free s' = mslab_free s \<and>
     mslab_full s' = mslab_full s \<and> slab_class_table s' = slab_class_table s \<and>
     max_ops_pool_size s' = max_ops_pool_size s \<and> index_locked s' = index_locked s"

lemma list_move_refl [simp]: "list_move s s"
  by (simp add: list_move_def)

lemma list_move_trans: "list_move s t \<Longrightarrow> list_move t u \<Longrightarrow> list_move s u"
  unfolding list_move_def using same_data_trans same_place_trans by metis

lemma list_move_mem: "list_move s s' \<Longrightarrow> mem_inv H s' = mem_inv H s"
  by (simp add: list_move_def same_data_def same_place_def mem_inv_def mem_lists_def partials_def)

lemma list_move_simps [simp]:
  "list_move s (s\<lparr>dslab_free := x1, nr_free_dslab := x2\<rparr>)"
  "list_move s (s\<lparr>dslab_full := x1, nr_full_dslab := x2\<rparr>)" "list_move s (s\<lparr>dslab_full := x1\<rparr>)"
  "list_move s (s\<lparr>ops_pool := x1, ops_pool_size := x2\<rparr>)"
  "x5 < nch s \<Longrightarrow> list_move s (s\<lparr>next_ops_pool_remove_channel := x5\<rparr>)"
  "x5 < nch s \<Longrightarrow> list_move s (s\<lparr>next_mslab_flush_channel := x5\<rparr>)"
  "list_move s (s\<lparr>water_mark_low := x2\<rparr>)" "list_move s (s\<lparr>water_mark_high := x2\<rparr>)"
  "list_move s (s\<lparr>water_mark_high := x2, water_mark_low := x3\<rparr>)"
  "list_move s (s\<lparr>water_mark_low := x2, water_mark_high := x3\<rparr>)"
  by (simp_all add: list_move_def same_data_def same_place_def ptrs_ok_def)

lemma list_move_live: "list_move s s' \<Longrightarrow> live s' = live s"
  by (simp add: list_move_def same_data_view)

lemma list_move_data:
  assumes "list_move s s'"
  shows "data_inv E s' = data_inv E s" "keeps E s s'" "slabs s' = slabs s" "is_dslab s' = is_dslab s"
proof -
  have d: "same_data s s'" and p: "same_place s s'" using assms by (simp_all add: list_move_def)
  show "data_inv E s' = data_inv E s" "keeps E s s'"
    by (rule same_data_inv [OF d], rule same_data_keeps [OF d])
  show "slabs s' = slabs s" using d by (simp add: same_data_def)
  show "is_dslab s' = is_dslab s" using p by (simp add: same_place_def is_dslab_def fun_eq_iff)
qed

text \<open>Channel pointers and water marks do not matter to the lists.\<close>

lemma disk_inv_pointers [simp]:
  "disk_inv H X (s\<lparr>next_ops_pool_remove_channel := x5\<rparr>) = disk_inv H X s"
  "disk_inv H X (s\<lparr>next_mslab_flush_channel := x5\<rparr>) = disk_inv H X s"
  "disk_inv H X (s\<lparr>water_mark_low := x2\<rparr>) = disk_inv H X s"
  "disk_inv H X (s\<lparr>water_mark_high := x2\<rparr>) = disk_inv H X s"
  "disk_inv H X (s\<lparr>index_locked := x4\<rparr>) = disk_inv H X s"
  by (simp_all add: disk_inv_def placed_def on_lists_def is_dslab_def)

text \<open>The numbers of free slabs and of pool slabs are within the number of blocks.\<close>

lemma count_placed_bound:
  assumes "geom E s" and "disk_inv H X s"
  shows "int (length H) + int (size (on_lists s)) \<le> nr_blocks (ssd s)"
proof -
  have u: "count (placed H s) d \<le> 1" and isd: "d \<in># placed H s \<Longrightarrow> is_dslab s d" for d
    using assms(2) by (auto simp: disk_inv_def)
  have "size (placed H s) = (\<Sum>d \<in> set_mset (placed H s). count (placed H s) d)"
    by (simp add: size_multiset_overloaded_eq)
  also have "\<dots> \<le> (\<Sum>d \<in> set_mset (placed H s). 1)" by (rule sum_mono) (rule u)
  also have "\<dots> = card (set_mset (placed H s))" by simp
  also have "\<dots> \<le> card {nr_mslab s..<length (slabs s)}"
    by (rule card_mono) (use isd in \<open>auto simp: is_dslab_def\<close>)
  also have "\<dots> = nr_dslab s" using assms(1) by (simp add: geom_def)
  finally have "size (placed H s) \<le> nr_dslab s" .
  moreover have "int (nr_dslab s) = nr_blocks (ssd s)" using assms(1) by (simp add: geom_def)
  ultimately show ?thesis by (simp add: placed_def)
qed

text \<open>Giving a reset slab to the free list: the assertion on the number of free slabs holds.\<close>

lemma back_to_free_safe:
  assumes inv: "data_inv E s" and di: "disk_inv (d # H) X s" and r: "nr_alloc (slabs s ! d) = 0" "cid (slabs s ! d) = -1"
  shows "\<exists>s'. back_to_free (slab_channel s d) d s = Ret () s' \<and> disk_inv H X s' \<and> list_move s s' \<and>
    placed H s' = placed (d # H) s \<and> ops_pool_size s' = ops_pool_size s \<and> nr_free_dslab s' = nr_free_dslab s + 1 \<and>
    dslab_full s' = dslab_full s \<and> nr_full_dslab s' = nr_full_dslab s"
proof -
  let ?s = "s\<lparr>dslab_free := chan_add (slab_channel s d) d (dslab_free s), nr_free_dslab := nr_free_dslab s + 1\<rparr>"
  note g = data_invD(1) [OF inv]
  have di': "disk_inv H X ?s" by (rule give_free [OF g di r])
  have d: "slab_channel s d < nch s" using slab_channel_less [OF g] disk_invD(10) [OF di] by simp
  note D = disk_invD [OF di'] and ad = chans_add(2) [OF disk_invD(1) [OF di] d]
  have g': "geom E ?s" using data_invD(1) list_move_data(1) [of s ?s E] inv by simp
  have "int (size (on_lists ?s)) \<le> nr_blocks (ssd s)" using count_placed_bound [OF g' di'] by simp
  moreover have "nr_free_dslab ?s = int (length (members (dslab_free ?s)))"
    using D(1,4) total_size_members by metis
  ultimately have "0 \<le> nr_free_dslab ?s \<and> nr_free_dslab ?s \<le> nr_blocks (ssd ?s)"
    by (simp add: on_lists_def)
  then have "back_to_free (slab_channel s d) d s = Ret () ?s"
    by (simp add: back_to_free_def Let_def)
  moreover have "placed H ?s = placed (d # H) s" by (simp add: placed_def on_lists_def ad)
  ultimately show ?thesis using di' by simp
qed

lemma disk_inv_weaken: "disk_inv H X s \<Longrightarrow> X \<subseteq> X' \<Longrightarrow> disk_inv H X' s"
  unfolding disk_inv_def by blast

subsection \<open>Flushing and redirecting\<close>

lemma locked_same_data: "same_data s (s\<lparr>index_locked := b\<rparr>)"
  by (simp add: same_data_def)

lemma locked_data [simp]:
  "data_inv E (s\<lparr>index_locked := b\<rparr>) = data_inv E s" "keeps E s (s\<lparr>index_locked := b\<rparr>)"
  by (rule same_data_inv [OF locked_same_data], rule same_data_keeps [OF locked_same_data])

text \<open>After a flush the two slabs mirror each other, and the disk slab has the class of the memory slab.\<close>

lemma flushed_mirror:
  assumes f: "flushed E m d s s'" and inv: "data_inv E s" and m: "m < nr_mslab s"
    and d: "nr_mslab s \<le> d" "d < length (slabs s)"
  shows "mirror E s' m d" and "cid (slabs s' ! d) = cid (slabs s ! m)" and "same_place s s'" and "same_lists s s'"
    and "index_locked s' = index_locked s" and "live s' = live s"
    and "i \<noteq> d \<Longrightarrow> slabs s' ! i = slabs s ! i" and "nr_mslab s' = nr_mslab s"
    and "i \<noteq> d \<Longrightarrow> i < length (slabs s) \<Longrightarrow> slab_data E s' i = slab_data E s i"
proof -
  obtain dev' where s': "s' = upd_slab d (copy_header (slabs s ! m)) (s\<lparr>ssd := dev'\<rparr>)"
    and dv: "nr_channels dev' = nr_channels (ssd s)" "blocks_per_channel dev' = blocks_per_channel (ssd s)"
      "nr_blocks dev' = nr_blocks (ssd s)" "is_dev dev' = is_dev (ssd s)"
    and c: "\<And>j. content E s' (d, j) = content E s (m, j)"
    using f unfolding flushed_def by blast
  have dm: "m \<noteq> d" using m d by simp
  have sl: "slabs s' ! d = copy_header (slabs s ! m) (slabs s ! d)" "slabs s' ! m = slabs s ! m"
    using d dm by (simp_all add: s')
  note mem = geom_mem(3) [OF data_invD(1) [OF inv] m]
  have "content E s' (m, j) = content E s (m, j)" for j
    using sl(2) mem by (simp add: content_def slab_data_def)
  moreover have "int (card (live s' m)) \<le> nr_used (slabs s ! m)"
    using data_inv_slab(5) [OF inv, of m] m d by (simp add: s' live_def)
  ultimately show "mirror E s' m d" using c sl by (simp add: mirror_def copy_header_def)
  show "cid (slabs s' ! d) = cid (slabs s ! m)" using sl by (simp add: copy_header_def)
  have p: "same_place s (s\<lparr>ssd := dev'\<rparr>)"
    using dv by (simp add: same_place_def ptrs_ok_def nch_def slab_channel_def channel_id_def fun_eq_iff)
  have "same_place (s\<lparr>ssd := dev'\<rparr>) s'" unfolding s' by (rule same_place_upd_slab) (simp add: copy_header_def)
  with p show "same_place s s'" by (rule same_place_trans)
  show "same_lists s s'" "index_locked s' = index_locked s" "nr_mslab s' = nr_mslab s"
    by (simp_all add: s' same_lists_def)
  show "live s' = live s" by (simp add: s' live_def fun_eq_iff)
  show "i \<noteq> d \<Longrightarrow> slabs s' ! i = slabs s ! i" by (simp add: s')
  show "i \<noteq> d \<Longrightarrow> i < length (slabs s) \<Longrightarrow> slab_data E s' i = slab_data E s i" using f by (simp add: flushed_def)
qed

text \<open>Redirecting the index under its lock.\<close>

definition relocated :: "'db env \<Rightarrow> nat \<Rightarrow> nat \<Rightarrow> 'db kv \<Rightarrow> 'db kv \<Rightarrow> bool" where
  "relocated E m d s s' \<longleftrightarrow> data_inv E s' \<and> keeps E s s' \<and> calm s s' \<and> live s' m = {} \<and> live s' d = live s m \<and>
     (\<forall>a. a \<noteq> m \<longrightarrow> a \<noteq> d \<longrightarrow> live s' a = live s a \<and> nr_used (slabs s' ! a) = nr_used (slabs s ! a))"

lemma redirected_relocated:
  assumes r: "redirected m d (s\<lparr>index_locked := True\<rparr>) s'" and unl: "\<not> index_locked s"
    and inv: "data_inv E s'" "keeps E (s\<lparr>index_locked := True\<rparr>) s'"
  shows "relocated E m d s (unlock_index s')"
proof -
  let ?s1 = "s\<lparr>index_locked := True\<rparr>"
  obtain ix where s': "s' = upd_slab d (\<lambda>sl. sl\<lparr>nr_used := int (card (live ?s1 m))\<rparr>)
            (upd_slab m (\<lambda>sl. sl\<lparr>nr_used := 0\<rparr>) (?s1\<lparr>index := ix\<rparr>))"
    and l: "live s' m = {}" "live s' d = live s m" "\<And>a. a \<noteq> m \<Longrightarrow> a \<noteq> d \<Longrightarrow> live s' a = live s a"
    using r unfolding redirected_def by auto
  have "calm ?s1 s'" unfolding s' using calm_trans [OF calm_trans [OF calm_index calm_nr_used] calm_nr_used] .
  then have "calm s (unlock_index s')" using unl by (simp add: calm_def unlock_index_def)
  moreover have "nr_used (slabs s' ! a) = nr_used (slabs s ! a)" if "a \<noteq> m" "a \<noteq> d" for a
    using that by (simp add: s')
  ultimately show ?thesis
    using l inv keeps_trans [OF keeps_trans [OF locked_data(2) inv(2)] locked_data(2) [of E s' False]]
    by (auto simp: relocated_def unlock_index_def)
qed

lemma modify_locked_safe:
  assumes inv: "data_inv E s" and m: "m < nr_mslab s" and d: "d < length (slabs s)" "d \<noteq> m"
    and mir: "mirror E s m d" and un: "live s d = {}"
  shows "safe (\<lambda>s'. data_inv E s' \<and> keeps E s s')
    (\<lambda>_ s1. safe (\<lambda>s'. data_inv E s' \<and> keeps E s s') (\<lambda>_ s2. relocated E m d s (unlock_index s2))
       (modify_index_to E m d s1)) (lock_index s)"
proof (cases "index_locked s")
  case True
  then show ?thesis using inv by (simp add: lock_index_def)
next
  case False
  let ?s1 = "s\<lparr>index_locked := True\<rparr>"
  have mir1: "mirror E ?s1 m d" using mir same_data_view(2) [OF locked_same_data [of s True], of E] by (simp add: mirror_def same_data_view(5) [OF locked_same_data])
  have "safe (\<lambda>s'. data_inv E s' \<and> keeps E s s') (\<lambda>_ s2. relocated E m d s (unlock_index s2)) (modify_index_to E m d ?s1)"
  proof (rule safe_mono [OF modify_index_to_safe [of E ?s1 m d]])
    show "data_inv E ?s1" "m < nr_mslab ?s1" "d < length (slabs ?s1)" "d \<noteq> m" "mirror E ?s1 m d" "live ?s1 d = {}"
      using inv m d mir1 un by simp_all
    show "data_inv E s' \<and> keeps E ?s1 s' \<and> index_changed ?s1 s' \<Longrightarrow> data_inv E s' \<and> keeps E s s'" for s'
      using keeps_trans [of E s ?s1 s'] locked_data(2) [of E s True] by blast
    show "data_inv E s2 \<and> keeps E ?s1 s2 \<and> redirected m d ?s1 s2 \<Longrightarrow> relocated E m d s (unlock_index s2)" for s2
      using redirected_relocated [of m d s s2 E] False by blast
  qed
  then show ?thesis using False by (simp add: lock_index_def)
qed

lemma full_exclusive:
  assumes "disk_inv H X s" and "d \<in> set (members (dslab_full s))"
  shows "d \<notin> set H" "d \<notin> set (members (dslab_free s))" "d \<notin> set (members (ops_pool s))"
proof -
  have "count (placed H s) d \<le> 1" using assms(1) by (simp add: disk_inv_def)
  moreover have "0 < count (mset (members (dslab_full s))) d" using assms(2) by simp
  ultimately have "count (mset H) d = 0 \<and> count (mset (members (dslab_free s))) d = 0 \<and>
      count (mset (members (ops_pool s))) d = 0"
    unfolding placed_def on_lists_def count_union by linarith
  then show "d \<notin> set H" "d \<notin> set (members (dslab_free s))" "d \<notin> set (members (ops_pool s))"
    by (simp_all add: count_eq_zero_iff)
qed

subsection \<open>Slabs an operation leaves alone\<close>

text \<open>
  A slab is kept when its class, its slots and its data stay, no entry comes to point into it, and its
  use count falls at most as its entries go. An operation is apart from the slabs outside \<open>X\<close> when it keeps them all: so are
  the slabs that other threads hold from an operation on slabs it took off the lists.
\<close>

definition slack :: "'db kv \<Rightarrow> nat \<Rightarrow> int" where
  "slack s i = nr_used (slabs s ! i) - int (card (live s i))"

definition kept :: "'db env \<Rightarrow> nat \<Rightarrow> 'db kv \<Rightarrow> 'db kv \<Rightarrow> bool" where
  "kept E i s s' \<longleftrightarrow> cid (slabs s' ! i) = cid (slabs s ! i) \<and> nr_alloc (slabs s' ! i) = nr_alloc (slabs s ! i) \<and>
     slot_size (slabs s' ! i) = slot_size (slabs s ! i) \<and> nr_slots (slabs s' ! i) = nr_slots (slabs s ! i) \<and>
     slab_data E s' i = slab_data E s i \<and> live s' i \<subseteq> live s i \<and> slack s i \<le> slack s' i"

definition apart :: "'db env \<Rightarrow> nat set \<Rightarrow> 'db kv \<Rightarrow> 'db kv \<Rightarrow> bool" where
  "apart E X s s' \<longleftrightarrow> (\<forall>i < length (slabs s). i \<notin> X \<longrightarrow> kept E i s s')"

lemma kept_refl [simp]: "kept E i s s"
  by (simp add: kept_def)

lemma kept_trans: "kept E i s t \<Longrightarrow> kept E i t u \<Longrightarrow> kept E i s u"
  by (auto simp: kept_def)

lemma apart_refl [simp]: "apart E X s s"
  by (simp add: apart_def)

lemma apart_trans: "apart E X s t \<Longrightarrow> apart E X t u \<Longrightarrow> same_place s t \<Longrightarrow> apart E X s u"
  by (auto simp: apart_def same_place_def intro: kept_trans)

lemma apart_mono: "apart E X s s' \<Longrightarrow> X \<subseteq> Y \<Longrightarrow> apart E Y s s'"
  unfolding apart_def by blast

lemma apartD: "apart E X s s' \<Longrightarrow> i < length (slabs s) \<Longrightarrow> i \<notin> X \<Longrightarrow> kept E i s s'"
  by (simp add: apart_def)

lemma slab_data_cong:
  assumes "ssd s' = ssd s" and "data (slabs s' ! i) = data (slabs s ! i)" and "block_id (slabs s' ! i) = block_id (slabs s ! i)"
  shows "slab_data E s' i = slab_data E s i"
  using assms by (simp add: slab_data_def im_memory_def)

lemma calm_data: "calm s s' \<Longrightarrow> slab_data E s' i = slab_data E s i"
  by (intro slab_data_cong) (simp_all add: calm_def)

lemma slack_mono:
  assumes "data_inv E s" and "live s' i \<subseteq> live s i" and "nr_used (slabs s' ! i) = nr_used (slabs s ! i)"
  shows "slack s i \<le> slack s' i"
  using card_mono [OF finite_live [OF assms(1)] assms(2)] assms(3) by (simp add: slack_def)

lemma calm_kept:
  assumes "calm s s'" and "live s' i \<subseteq> live s i" and "slack s i \<le> slack s' i"
  shows "kept E i s s'"
  using assms calm_data [OF assms(1)] by (simp add: kept_def calm_def)

lemma calm_apart:
  assumes "data_inv E s" and "calm s s'" and "\<And>i. live s' i \<subseteq> live s i"
    and "\<And>i. i \<notin> X \<Longrightarrow> nr_used (slabs s' ! i) = nr_used (slabs s ! i)"
  shows "apart E X s s'"
  using assms by (simp add: apart_def calm_kept slack_mono)

lemma kept_locked [simp]:
  "kept E i (s\<lparr>index_locked := b\<rparr>) t = kept E i s t" "kept E i s (t\<lparr>index_locked := b\<rparr>) = kept E i s t"
  by (simp_all add: kept_def slack_def same_data_view(1,5) [OF locked_same_data])

lemma kept_upd_other: "j \<noteq> i \<Longrightarrow> kept E j s (upd_slab i f s)"
  by (simp add: kept_def slack_def slab_data_upd_other)

lemma apart_upd_slab: "i \<in> X \<Longrightarrow> apart E X s (upd_slab i f s)"
  by (auto simp: apart_def intro!: kept_upd_other)

lemma index_kept:
  assumes "data_inv E s" and "live (s\<lparr>index := ix\<rparr>) i \<subseteq> live s i"
  shows "kept E i s (s\<lparr>index := ix\<rparr>)"
  by (rule calm_kept [OF calm_index assms(2) slack_mono [OF assms]]) simp

text \<open>An entry that leaves a slab takes at least one use with it.\<close>

lemma unuse_kept:
  assumes "kept E a s (s\<lparr>index := ix\<rparr>)" and "Suc (card (live (s\<lparr>index := ix\<rparr>) i)) \<le> card (live s i)"
  shows "kept E a s (upd_slab i (\<lambda>sl. sl\<lparr>nr_used := nr_used (slabs s ! i) - 1\<rparr>) (s\<lparr>index := ix\<rparr>))" (is "kept E a s ?u")
proof (rule calm_kept)
  let ?t = "s\<lparr>index := ix\<rparr>"
  show "calm s ?u" by (rule calm_trans [OF calm_index calm_nr_used])
  show "live ?u a \<subseteq> live s a" using assms(1) by (simp add: kept_def)
  have "nr_used (slabs s ! a) - (if a = i then 1 else 0) \<le> nr_used (slabs ?u ! a)"
    by (cases "i < length (slabs s)") (auto simp: slabs_upd, simp_all add: upd_slab_def list_update_beyond)
  then show "slack s a \<le> slack ?u a" using assms by (auto simp: slack_def kept_def split: if_splits)
qed

lemma list_move_apart: "list_move s s' \<Longrightarrow> apart E X s s'"
  using same_data_view(1,5) [of s s'] by (simp add: apart_def kept_def slack_def list_move_def same_data_def)

text \<open>
  Moving the objects of a memory slab to an empty disk slab, as flushing and collection both do:
  write the block, then redirect the index. Apart from the two slabs nothing changes.
\<close>

definition moved_out :: "'db env \<Rightarrow> nat \<Rightarrow> nat \<Rightarrow> 'db kv \<Rightarrow> 'db kv \<Rightarrow> bool" where
  "moved_out E m d s t \<longleftrightarrow> data_inv E t \<and> keeps E s t \<and> same_place s t \<and> same_lists s t \<and>
     index_locked t = index_locked s \<and> live t m = {} \<and> cid (slabs t ! d) = cid (slabs s ! m) \<and> apart E {m, d} s t \<and>
     (\<forall>i. i \<noteq> d \<longrightarrow> nr_alloc (slabs t ! i) = nr_alloc (slabs s ! i) \<and> cid (slabs t ! i) = cid (slabs s ! i) \<and>
        nr_slots (slabs t ! i) = nr_slots (slabs s ! i)) \<and>
     (\<forall>i. i \<noteq> d \<longrightarrow> i \<noteq> m \<longrightarrow> live t i = live s i \<and> nr_used (slabs t ! i) = nr_used (slabs s ! i))"

lemma relocate_safe:
  assumes inv: "data_inv E s" and m: "m < nr_mslab s" and d: "is_dslab s d" "nr_alloc (slabs s ! d) = 0"
    and q: "data_inv E s1 \<and> keeps E s s1 \<and> flushed E m d s s1"
  shows "safe (\<lambda>s'. data_inv E s' \<and> keeps E s s')
      (\<lambda>_ s2. safe (\<lambda>s'. data_inv E s' \<and> keeps E s s')
        (\<lambda>_ s3. moved_out E m d s (unlock_index s3)) (modify_index_to E m d s2)) (lock_index s1)"
proof -
  have dl: "nr_mslab s \<le> d" "d < length (slabs s)" using d(1) by (auto simp: is_dslab_def)
  note fm = flushed_mirror [of E m d s s1, OF _ inv m dl]
  have un: "live s1 d = {}" using fm(6) q live_empty_alloc [OF inv d(2)] by simp
  have dm: "d \<noteq> m" using m dl by simp
  have done1: "moved_out E m d s t" if r: "relocated E m d s1 t" for t
  proof -
    have "flushed E m d s s1" using q by simp
    note fm1 = fm [OF this]
    have "same_place s t" "same_lists s t" "index_locked t = index_locked s"
      using same_place_trans [OF fm1(3)] same_lists_trans [OF fm1(4)] fm1(5) r by (auto simp: relocated_def calm_def)
    moreover have "keeps E s t" using q r keeps_trans [of E s s1 t] by (simp add: relocated_def)
    moreover have "apart E {m, d} s t"
      unfolding apart_def
    proof (intro allI impI)
      fix i assume i: "i < length (slabs s)" "i \<notin> {m, d}"
      have c: "calm s1 t" and "live t i = live s1 i" "nr_used (slabs t ! i) = nr_used (slabs s1 ! i)"
        using r i(2) by (simp_all add: relocated_def)
      then show "kept E i s t" using i calm_data [OF c] fm1(6,7,9) by (simp add: kept_def slack_def calm_def)
    qed
    ultimately show ?thesis
      using r fm1(2,6,7) by (simp add: moved_out_def relocated_def calm_def)
  qed
  have "safe (\<lambda>s'. data_inv E s' \<and> keeps E s1 s')
    (\<lambda>_ s2. safe (\<lambda>s'. data_inv E s' \<and> keeps E s1 s') (\<lambda>_ s3. relocated E m d s1 (unlock_index s3))
       (modify_index_to E m d s2)) (lock_index s1)"
    by (rule modify_locked_safe) (use q fm m dl un dm in \<open>auto simp: same_place_def\<close>)
  moreover have "\<And>s'. data_inv E s' \<and> keeps E s1 s' \<Longrightarrow> data_inv E s' \<and> keeps E s s'"
    using q keeps_trans by blast
  ultimately show ?thesis using done1 by (elim safe_mono)
qed

lemma moved_out_disk:
  assumes t: "moved_out E m d s t" and di: "disk_inv H X s"
    and out: "d \<notin> set (members (dslab_free s))" "d \<notin> set (members (ops_pool s))"
    and X: "X \<subseteq> {d}" and c: "cid (slabs s ! m) \<noteq> -1"
  shows "disk_inv H {} t"
proof (rule disk_inv_frame [OF di])
  show "same_place s t" "same_lists s t" using t by (simp_all add: moved_out_def)
  fix i
  show "nr_alloc (slabs t ! i) = 0 \<and> cid (slabs t ! i) = -1"
    if "i \<in> set (members (dslab_free s)) \<union> set (members (ops_pool s))"
    using that disk_invD(6,7) [OF di, of i] out t by (cases "i = d") (auto simp: moved_out_def)
  show "cid (slabs t ! i) \<noteq> -1" if "i \<in> set (members (dslab_full s))" "i \<notin> {}"
    using that disk_invD(9) [OF di, of i] X c t by (cases "i = d") (auto simp: moved_out_def)
qed

lemma moved_out_mem:
  assumes t: "moved_out E m d s t" and mi: "mem_inv H s" and "d \<notin># mem_lists s"
  shows "mem_inv H t"
  by (rule mem_inv_frame [OF mi]) (use assms in \<open>auto simp: moved_out_def\<close>)

end
