(* ===== verification/KV_QuickGC.thy ===== *)
theory KV_QuickGC
  imports KV_Lists
begin

text \<open>
  Quick garbage collection (\<^verbatim>\<open>do_quick_gc\<close>, \<^verbatim>\<open>quick_gc\<close>): full disk slabs are dropped together with
  their objects, to get free slabs and index entries at once.
\<close>

subsection \<open>The code\<close>

text \<open>
  The loop that takes \<open>k\<close> slabs off the lists of full disk slabs, channel after channel. It does
  not look at how many there are: with fewer than \<open>k\<close> it never ends (\<open>None\<close>).
\<close>

partial_function (option) select_drop :: "int \<Rightarrow> nat list \<Rightarrow> 'db kv \<Rightarrow> (nat list \<times> 'db kv) option" where
  "select_drop k to_drop s =
     (if k \<le> 0 then Some (to_drop, s)
      else
        let c = next_channel s (next_ops_pool_remove_channel s) mod nat (nr_channels (ssd s));
            s = s\<lparr>next_ops_pool_remove_channel :=
                    (next_ops_pool_remove_channel s + 1) mod nat (nr_channels (ssd s))\<rparr>
        in case items (dslab_full s ! c) of
             [] \<Rightarrow> select_drop k to_drop s
           | d # _ \<Rightarrow>
               select_drop (k - 1) (d # to_drop)
                 (s\<lparr>dslab_full := chan_del c d (dslab_full s), nr_full_dslab := nr_full_dslab s - 1\<rparr>))"

primrec evict_dslabs :: "'db env \<Rightarrow> nat list \<Rightarrow> 'db kv \<Rightarrow> (unit, 'db kv) outcome" where
  "evict_dslabs E [] s = Ret () s"
| "evict_dslabs E (d # ds) s =
     seq (read_dslab E (slabs s ! d) s) (\<lambda>fake s.
     seq (check (sid fake = sid (slabs s ! d)) ''fake_slab->sid == dslab->sid'' s) (\<lambda>_ s.
     seq (lock_index s) (\<lambda>_ s.
     seq (evict_dslab E fake s) (\<lambda>_ s.
     evict_dslabs E ds (unlock_index (upd_slab d (\<lambda>sl. sl\<lparr>nr_used := 0\<rparr>) s))))))"

text \<open>
  The first reclaim loop: the slab for which \<^verbatim>\<open>i++ >= nr_back_to_ops_pool\<close> holds has already been
  taken off the list when the loop is left.
\<close>

fun reclaim_to_ops :: "int \<Rightarrow> int \<Rightarrow> nat list \<Rightarrow> 'db kv \<Rightarrow> nat list \<times> 'db kv" where
  "reclaim_to_ops n i [] s = ([], s)"
| "reclaim_to_ops n i (d # ds) s =
     (let s = upd_slab d slab_reset s; c = slab_channel s d
      in if i \<ge> n then (ds, s)
         else reclaim_to_ops n (i + 1) ds
                (s\<lparr>ops_pool := chan_add c d (ops_pool s), ops_pool_size := ops_pool_size s + 1\<rparr>))"

primrec reclaim_to_free :: "nat list \<Rightarrow> 'db kv \<Rightarrow> (unit, 'db kv) outcome" where
  "reclaim_to_free [] s = Ret () s"
| "reclaim_to_free (d # ds) s =
     (let s = upd_slab d slab_reset s
      in seq (back_to_free (slab_channel s d) d s) (\<lambda>_ s. reclaim_to_free ds s))"

definition do_quick_gc :: "'db env \<Rightarrow> int \<Rightarrow> int \<Rightarrow> 'db kv \<Rightarrow> (bool, 'db kv) outcome" where
  "do_quick_gc E nr_back_to_free_dslab nr_back_to_ops_pool s =
     seq (check (0 < ops_pool_size s \<and> ops_pool_size s \<le> max_ops_pool_size s)
            ''ops_pool_size_ > 0 && ops_pool_size_ <= max_ops_pool_size_'' s) (\<lambda>_ s.
     seq (check (check_ops_pool s) ''check_ops_pool()'' s) (\<lambda>_ s.
     case select_drop (nr_back_to_free_dslab + nr_back_to_ops_pool) [] s of
       None \<Rightarrow> Hang
     | Some (to_drop, s) \<Rightarrow>
         seq (evict_dslabs E to_drop s) (\<lambda>_ s.
         case reclaim_to_ops nr_back_to_ops_pool 0 to_drop s of
           (rest, s) \<Rightarrow>
             seq (reclaim_to_free rest s) (\<lambda>_ s.
             seq (check (check_ops_pool s) ''check_ops_pool()'' s) (\<lambda>_ s.
             Ret True s)))))"

definition quick_gc :: "'db env \<Rightarrow> 'db kv \<Rightarrow> (bool, 'db kv) outcome" where
  "quick_gc E s =
     (let nr_free = nr_free_dslab s
      in seq (check (-1 < nr_free) ''nr_free_dslab > -1'' s) (\<lambda>_ s.
         seq (check (0 < ops_pool_size s \<and> ops_pool_size s \<le> max_ops_pool_size s)
                ''ops_pool_size_ > 0 && ops_pool_size_ <= max_ops_pool_size_'' s) (\<lambda>_ s.
         let high = min (double_times_int d_1_5 (water_mark_high s)) (water_mark_high_max s);
             low = min (double_times_int d_1_5 (water_mark_low s)) (double_times_int d_0_9 high);
             low = min low (max_ops_pool_size s);
             s = s\<lparr>water_mark_high := high, water_mark_low := low\<rparr>;
             nr_back_to_ops_pool = min (ops_pool_size s) (max_ops_pool_size s - ops_pool_size s);
             nr_back_to_free_dslab = low - nr_free;
             nr_back_to_free_dslab =
               fl_trunc (fl_add 53 (fl_of_int 53 nr_back_to_free_dslab) (double_times d_0_3 low))
         in do_quick_gc E nr_back_to_free_dslab nr_back_to_ops_pool s)))"

subsection \<open>Evicting slabs\<close>

definition evicted :: "'db env \<Rightarrow> 'db kv \<Rightarrow> 'db kv \<Rightarrow> bool" where
  "evicted E s s' \<longleftrightarrow> data_inv E s' \<and> refines E s s' \<and> (\<forall>i. live s' i \<subseteq> live s i)"

lemma evicted_refl: "data_inv E s \<Longrightarrow> evicted E s s"
  by (simp add: evicted_def)

lemma evicted_trans: "evicted E s t \<Longrightarrow> evicted E t u \<Longrightarrow> evicted E s u"
  unfolding evicted_def using refines_trans by blast

lemma dropped_evicted: "data_inv E s \<Longrightarrow> dropped s s' \<Longrightarrow> evicted E s s' \<and> calm s s'"
proof -
  assume inv: "data_inv E s" and dr: "dropped s s'"
  then obtain ix where "s' = s\<lparr>index := ix\<rparr>" unfolding dropped_def by blast
  then have "calm s s'" by (simp add: calm_index)
  then show ?thesis
    using dropped_inv [OF inv dr] dropped_live [OF dr] by (simp add: evicted_def)
qed

lemma evicted_locked: "data_inv E s \<Longrightarrow> evicted E s (s\<lparr>index_locked := b\<rparr>)"
proof -
  assume inv: "data_inv E s"
  have sd: "same_data s (s\<lparr>index_locked := b\<rparr>)" by (rule locked_same_data)
  show ?thesis
    unfolding evicted_def
    using inv same_data_inv [OF sd, of E] keeps_refines [OF same_data_keeps [OF sd, of E]]
      same_data_view(5) [OF sd] by simp
qed

lemma calm_relock:
  assumes "calm (s\<lparr>index_locked := b\<rparr>) s'"
  shows "calm s (s'\<lparr>index_locked := index_locked s\<rparr>)"
  using assms by (simp add: calm_def)

text \<open>One slab: read, lock, evict, clear the use count, unlock.\<close>

definition evict_one :: "'db env \<Rightarrow> nat \<Rightarrow> 'db kv \<Rightarrow> (unit, 'db kv) outcome" where
  "evict_one E d s =
     seq (read_dslab E (slabs s ! d) s) (\<lambda>fake s.
     seq (check (sid fake = sid (slabs s ! d)) ''fake_slab->sid == dslab->sid'' s) (\<lambda>_ s.
     seq (lock_index s) (\<lambda>_ s.
     seq (evict_dslab E fake s) (\<lambda>_ s.
     Ret () (unlock_index (upd_slab d (\<lambda>sl. sl\<lparr>nr_used := 0\<rparr>) s))))))"

lemma evict_dslabs_Cons:
  "evict_dslabs E (d # ds) s = seq (evict_one E d s) (\<lambda>_ s. evict_dslabs E ds s)"
  by (simp add: evict_one_def seq_assoc)

definition used_but :: "nat set \<Rightarrow> 'db kv \<Rightarrow> 'db kv \<Rightarrow> bool" where
  "used_but X s s' \<longleftrightarrow> (\<forall>i. i \<notin> X \<longrightarrow> nr_used (slabs s' ! i) = nr_used (slabs s ! i))"

lemma evict_one_safe:
  assumes inv: "data_inv E s" and d: "is_dslab s d"
  shows "safe (evicted E s) (\<lambda>_ s'. evicted E s s' \<and> calm s s' \<and> live s' d = {} \<and> used_but {d} s s') (evict_one E d s)"
proof -
  have dd: "nr_mslab s \<le> d" "d < length (slabs s)" using d by (auto simp: is_dslab_def)
  let ?fake = "(slabs s ! d)\<lparr>data := slab_data E s d\<rparr>"
  define s1 where "s1 = s\<lparr>index_locked := True\<rparr>"
  have ev1: "evicted E s s1" unfolding s1_def by (rule evicted_locked [OF inv])
  then have inv1: "data_inv E s1" by (simp add: evicted_def)
  have s1: "slabs s1 = slabs s" "nr_mslab s1 = nr_mslab s" by (simp_all add: s1_def)
  have "safe (evicted E s) (\<lambda>_ s2. evicted E s (unlock_index (upd_slab d (\<lambda>sl. sl\<lparr>nr_used := 0\<rparr>) s2)) \<and>
      calm s (unlock_index (upd_slab d (\<lambda>sl. sl\<lparr>nr_used := 0\<rparr>) s2)) \<and>
      live (unlock_index (upd_slab d (\<lambda>sl. sl\<lparr>nr_used := 0\<rparr>) s2)) d = {} \<and>
      used_but {d} s (unlock_index (upd_slab d (\<lambda>sl. sl\<lparr>nr_used := 0\<rparr>) s2))) (evict_dslab E ?fake s1)"
    if unl: "\<not> index_locked s"
  proof (rule safe_mono [OF evict_dslab_safe [OF inv1, of d ?fake]])
    show "nr_mslab s1 \<le> d" "d < length (slabs s1)" "block_id ?fake = block_id (slabs s1 ! d)"
      using dd s1 by simp_all
    show "dropped s1 s2 \<Longrightarrow> evicted E s s2" for s2
      using dropped_evicted [OF inv1] evicted_trans [OF ev1] by blast
    fix s2 assume q: "dropped s1 s2 \<and> live s2 d = {}"
    then have e2: "evicted E s s2" "calm s1 s2" using dropped_evicted [OF inv1] evicted_trans [OF ev1] by blast+
    then have inv2: "data_inv E s2" by (simp add: evicted_def)
    let ?s3 = "upd_slab d (\<lambda>sl. sl\<lparr>nr_used := 0\<rparr>) s2"
    have d2: "d < length (slabs s2)" using e2(2) dd s1 by (simp add: calm_def same_place_def)
    have e3: "evicted E s2 ?s3"
      using upd_nr_used [OF inv2 d2, of 0] q keeps_refines unfolding evicted_def by simp
    have e4: "evicted E ?s3 (unlock_index ?s3)"
      unfolding unlock_index_def using e3 by (intro evicted_locked) (simp add: evicted_def)
    have "calm s1 ?s3" using calm_trans [OF e2(2) calm_nr_used] .
    then have "calm s (unlock_index ?s3)"
      using calm_relock [of True s ?s3] unl unfolding s1_def unlock_index_def by simp
    moreover have "live (unlock_index ?s3) d = {}"
      using e3 e4 q unfolding evicted_def by blast
    moreover have "used_but {d} s (unlock_index ?s3)"
      using q by (auto simp: used_but_def unlock_index_def dropped_def s1_def)
    ultimately show "evicted E s (unlock_index ?s3) \<and> calm s (unlock_index ?s3) \<and> live (unlock_index ?s3) d = {} \<and>
        used_but {d} s (unlock_index ?s3)"
      using evicted_trans [OF e2(1)] evicted_trans [OF e3 e4] by blast
  qed
  moreover have "safe (evicted E s) (\<lambda>_ s'. evicted E s s' \<and> calm s s' \<and> live s' d = {} \<and> used_but {d} s s')
     (seq (lock_index s) (\<lambda>_ s. seq (evict_dslab E ?fake s) (\<lambda>_ s.
     Ret () (unlock_index (upd_slab d (\<lambda>sl. sl\<lparr>nr_used := 0\<rparr>) s)))))"
    using calculation evicted_refl [OF inv] by (simp add: lock_index_def s1_def)
  ultimately show ?thesis
    unfolding evict_one_def safe_seq
    by (intro safe_mono [OF read_dslab_safe [OF data_invD(1) [OF inv] dd]])
      (use evicted_refl [OF inv] in auto)
qed

lemma evict_dslabs_safe:
  assumes "data_inv E s" and "\<forall>d \<in> set ds. is_dslab s d"
  shows "safe (evicted E s) (\<lambda>_ s'. evicted E s s' \<and> calm s s' \<and> (\<forall>d \<in> set ds. live s' d = {}) \<and> used_but (set ds) s s')
    (evict_dslabs E ds s)"
  using assms
proof (induction ds arbitrary: s)
  case Nil
  then show ?case by (simp add: evicted_refl used_but_def)
next
  case (Cons d ds)
  show ?case
    unfolding evict_dslabs_Cons safe_seq
  proof (rule safe_mono [OF evict_one_safe [OF Cons.prems(1), of d]])
    fix s1 assume q: "evicted E s s1 \<and> calm s s1 \<and> live s1 d = {} \<and> used_but {d} s s1"
    show "safe (evicted E s) (\<lambda>_ s'. evicted E s s' \<and> calm s s' \<and> (\<forall>d' \<in> set (d # ds). live s' d' = {}) \<and>
        used_but (set (d # ds)) s s')
        (evict_dslabs E ds s1)"
    proof (rule safe_mono [OF Cons.IH])
      show "data_inv E s1" using q by (simp add: evicted_def)
      show "\<forall>d' \<in> set ds. is_dslab s1 d'" using Cons.prems(2) q calm_is_dslab [of s s1] by simp
      show "evicted E s1 s2 \<Longrightarrow> evicted E s s2" for s2 using q evicted_trans by blast
      fix s2 assume p: "evicted E s1 s2 \<and> calm s1 s2 \<and> (\<forall>d' \<in> set ds. live s2 d' = {}) \<and> used_but (set ds) s1 s2"
      then have "live s2 d = {}" using q unfolding evicted_def by blast
      moreover have "used_but (set (d # ds)) s s2" using p q by (simp add: used_but_def)
      ultimately show "evicted E s s2 \<and> calm s s2 \<and> (\<forall>d' \<in> set (d # ds). live s2 d' = {}) \<and> used_but (set (d # ds)) s s2"
        using p q evicted_trans calm_trans by auto
    qed
  qed (use Cons.prems in auto)
qed

subsection \<open>Selecting the slabs to drop\<close>

text \<open>One iteration of the loop.\<close>

definition drop_channel :: "'db kv \<Rightarrow> nat" where
  "drop_channel s = (next_ops_pool_remove_channel s + 1) mod nch s"

definition drop_advance :: "'db kv \<Rightarrow> 'db kv" where
  "drop_advance s = s\<lparr>next_ops_pool_remove_channel := drop_channel s\<rparr>"

definition drop_take :: "nat \<Rightarrow> 'db kv \<Rightarrow> 'db kv" where
  "drop_take d s = (drop_advance s)\<lparr>dslab_full := chan_del (drop_channel s) d (dslab_full s),
     nr_full_dslab := nr_full_dslab s - 1\<rparr>"

lemma select_drop_unfold:
  "select_drop k to_drop s =
     (if k \<le> 0 then Some (to_drop, s)
      else case items (dslab_full s ! drop_channel s) of
             [] \<Rightarrow> select_drop k to_drop (drop_advance s)
           | d # _ \<Rightarrow> select_drop (k - 1) (d # to_drop) (drop_take d s))"
  by (subst select_drop.simps)
    (simp add: Let_def next_channel_def drop_advance_def drop_take_def drop_channel_def nch_def
      split: list.split)

lemma drop_channel_less: "0 < nch s \<Longrightarrow> drop_channel s < nch s"
  by (simp add: drop_channel_def)

lemma drop_advance_move:
  "0 < nch s \<Longrightarrow> list_move s (drop_advance s)" "disk_inv H X (drop_advance s) = disk_inv H X s"
  "dslab_full (drop_advance s) = dslab_full s" "nch (drop_advance s) = nch s"
  "placed H (drop_advance s) = placed H s" "ops_pool_size (drop_advance s) = ops_pool_size s"
  "nr_free_dslab (drop_advance s) = nr_free_dslab s"
  by (simp_all add: drop_advance_def placed_def on_lists_def drop_channel_less)

lemma drop_take_move:
  assumes "disk_inv H X s" and "0 < nch s" and "items (dslab_full s ! drop_channel s) = d # ds"
  shows "disk_inv (d # H) X (drop_take d s)" "list_move s (drop_take d s)"
    "mset (members (dslab_full s)) = add_mset d (mset (members (dslab_full (drop_take d s))))"
    "d \<in> set (members (dslab_full s))" "placed (d # H) (drop_take d s) = placed H s"
proof -
  have c: "drop_channel s < nch s" using assms(2) by (simp add: drop_channel_def)
  have d: "d \<in> set (items (dslab_full s ! drop_channel s))" using assms(3) by simp
  note dl = chans_del [OF disk_invD(2) [OF assms(1)] c d]
  show "disk_inv (d # H) X (drop_take d s)"
    using take_full [of H X "drop_advance s"] assms(1) c d by (simp add: drop_take_def drop_advance_def)
  show "list_move s (drop_take d s)"
    using list_move_trans [OF drop_advance_move(1) [OF assms(2)]] by (simp add: drop_take_def)
  show "mset (members (dslab_full s)) = add_mset d (mset (members (dslab_full (drop_take d s))))"
    using dl(2) by (simp add: drop_take_def)
  then show "placed (d # H) (drop_take d s) = placed H s"
    by (simp add: placed_def on_lists_def drop_take_def drop_advance_def)
  show "d \<in> set (members (dslab_full s))" by (rule dl(3))
qed

text \<open>Induction over a run of the loop that returns.\<close>

lemma select_drop_induct [consumes 1, case_names stop skip took]:
  assumes "select_drop k td s = Some y"
    and stop: "\<And>k td s. k \<le> 0 \<Longrightarrow> P k td s (td, s)"
    and skip: "\<And>k td s y. 0 < k \<Longrightarrow> items (dslab_full s ! drop_channel s) = [] \<Longrightarrow>
      P k td (drop_advance s) y \<Longrightarrow> P k td s y"
    and took: "\<And>k td s d ds y. 0 < k \<Longrightarrow> items (dslab_full s ! drop_channel s) = d # ds \<Longrightarrow>
      P (k - 1) (d # td) (drop_take d s) y \<Longrightarrow> P k td s y"
  shows "P k td s y"
proof (rule select_drop.raw_induct [OF _ assms(1)])
  fix f and k :: int and td and s :: "'a kv" and y
  assume IH: "\<And>k td s y. f k td s = Some y \<Longrightarrow> P k td s y"
    and body: "(if k \<le> 0 then Some (td, s)
      else
        let c = next_channel s (next_ops_pool_remove_channel s) mod nat (nr_channels (ssd s));
            s = s\<lparr>next_ops_pool_remove_channel :=
                    (next_ops_pool_remove_channel s + 1) mod nat (nr_channels (ssd s))\<rparr>
        in case items (dslab_full s ! c) of
             [] \<Rightarrow> f k td s
           | d # _ \<Rightarrow> f (k - 1) (d # td)
                 (s\<lparr>dslab_full := chan_del c d (dslab_full s), nr_full_dslab := nr_full_dslab s - 1\<rparr>)) = Some y"
  show "P k td s y"
  proof (cases "k \<le> 0")
    case True
    then show ?thesis using body stop [of k td s] by simp
  next
    case False
    then have b: "(case items (dslab_full s ! drop_channel s) of
             [] \<Rightarrow> f k td (drop_advance s) | d # _ \<Rightarrow> f (k - 1) (d # td) (drop_take d s)) = Some y"
      using body by (simp add: Let_def next_channel_def drop_advance_def drop_take_def drop_channel_def nch_def
          split: list.splits)
    show ?thesis
    proof (cases "items (dslab_full s ! drop_channel s)")
      case Nil
      then show ?thesis using b IH skip [of k s td y] False by simp
    next
      case (Cons d ds)
      then show ?thesis using b IH took [of k s d ds td y] False by simp
    qed
  qed
qed

text \<open>What the loop returns, when it does.\<close>

definition drop_result :: "nat list \<Rightarrow> nat set \<Rightarrow> int \<Rightarrow> nat list \<Rightarrow> 'db kv \<Rightarrow> nat list \<times> 'db kv \<Rightarrow> bool" where
  "drop_result H X k td s y \<longleftrightarrow> disk_inv (td @ H) X s \<longrightarrow> 0 < nch s \<longrightarrow>
     (\<exists>xs s'. y = (xs @ td, s') \<and> int (length xs) = max 0 k \<and> disk_inv (xs @ td @ H) X s' \<and> list_move s s' \<and>
        int (length (members (dslab_full s))) = int (length (members (dslab_full s'))) + max 0 k \<and>
        placed (xs @ td @ H) s' = placed (td @ H) s \<and> ops_pool_size s' = ops_pool_size s \<and>
        nr_free_dslab s' = nr_free_dslab s \<and> set xs \<subseteq> set (members (dslab_full s)))"

lemma select_drop_result:
  assumes "select_drop k td s = Some y"
  shows "drop_result H X k td s y"
  using assms
proof (induction rule: select_drop_induct)
  case (stop k td s)
  then show ?case by (simp add: drop_result_def)
next
  case (skip k td s y)
  then show ?case
    using list_move_trans [OF drop_advance_move(1) [of s]]
    unfolding drop_result_def by (auto simp: drop_advance_move)
next
  case (took k td s d ds y)
  show ?case
    unfolding drop_result_def
  proof (intro impI)
    assume inv: "disk_inv (td @ H) X s" and n: "0 < nch s"
    note mv = drop_take_move [OF inv n took(2)]
    have "nch (drop_take d s) = nch s" by (simp add: drop_take_def drop_advance_def)
    then obtain xs s' where y: "y = (xs @ d # td, s')" and len: "int (length xs) = max 0 (k - 1)"
      and di: "disk_inv (xs @ (d # td) @ H) X s'" and lm: "list_move (drop_take d s) s'"
      and cnt: "int (length (members (dslab_full (drop_take d s)))) = int (length (members (dslab_full s'))) + max 0 (k - 1)"
      and pl: "placed (xs @ (d # td) @ H) s' = placed ((d # td) @ H) (drop_take d s)"
      and ops: "ops_pool_size s' = ops_pool_size (drop_take d s)" "nr_free_dslab s' = nr_free_dslab (drop_take d s)"
      and sub: "set xs \<subseteq> set (members (dslab_full (drop_take d s)))"
      using took(3) mv(1) n unfolding drop_result_def by auto
    have "length (members (dslab_full s)) = Suc (length (members (dslab_full (drop_take d s))))"
      using arg_cong [OF mv(3), of size] by simp
    moreover have "set (members (dslab_full s)) = insert d (set (members (dslab_full (drop_take d s))))"
      using arg_cong [OF mv(3), of set_mset] by simp
    ultimately show "\<exists>xs s'. y = (xs @ td, s') \<and> int (length xs) = max 0 k \<and> disk_inv (xs @ td @ H) X s' \<and> list_move s s' \<and>
        int (length (members (dslab_full s))) = int (length (members (dslab_full s'))) + max 0 k \<and>
        placed (xs @ td @ H) s' = placed (td @ H) s \<and> ops_pool_size s' = ops_pool_size s \<and>
        nr_free_dslab s' = nr_free_dslab s \<and> set xs \<subseteq> set (members (dslab_full s))"
      using y len di cnt pl ops sub mv list_move_trans [OF mv(2) lm] took(1)
      by (intro exI [of _ "xs @ [d]"] exI [of _ s']) (auto simp: drop_take_def drop_advance_def)
  qed
qed

text \<open>
  The loop returns if and only if there are enough full slabs; otherwise it spins forever with
  \<^verbatim>\<open>dslab_full_mutex_\<close> held.
\<close>

lemma next_nonempty:
  assumes "chans ch n ls" and "members ls \<noteq> []"
  shows "\<exists>j. 0 < j \<and> items (ls ! ((p + j) mod n)) \<noteq> []"
proof -
  obtain d where "d \<in> set (members ls)" using assms(2) by (cases "members ls") auto
  then have c: "ch d < n" "items (ls ! ch d) \<noteq> []" using members_chan [OF assms(1)] by fastforce+
  define j where "j = n + ch d - p mod n"
  have "p mod n < n" using c(1) by simp
  then have "p mod n + j = n + ch d" and "0 < j" by (simp_all add: j_def)
  moreover have "(p + j) mod n = (p mod n + j) mod n" by (simp add: mod_simps)
  ultimately show ?thesis using c by (intro exI [of _ j]) simp
qed

text \<open>The rotation over the channels reaches the next slab.\<close>

lemma select_drop_rotate:
  assumes k: "0 < k" and took: "\<And>s d ds. P s \<Longrightarrow> items (dslab_full s ! drop_channel s) = d # ds \<Longrightarrow>
      select_drop (k - 1) (d # td) (drop_take d s) \<noteq> None"
    and keep: "\<And>s. P s \<Longrightarrow> P (drop_advance s)"
  shows "P s \<Longrightarrow> items (dslab_full s ! ((next_ops_pool_remove_channel s + Suc j) mod nch s)) \<noteq> [] \<Longrightarrow>
    select_drop k td s \<noteq> None"
proof (induction j arbitrary: s)
  case 0
  then obtain d ds where it: "items (dslab_full s ! drop_channel s) = d # ds"
    by (auto simp: drop_channel_def neq_Nil_conv)
  then show ?case using took [OF 0(1) it] k by (subst select_drop_unfold) simp
next
  case (Suc j)
  show ?case
  proof (cases "items (dslab_full s ! drop_channel s)")
    case Nil
    have "(drop_channel s + Suc j) mod nch s = (next_ops_pool_remove_channel s + Suc (Suc j)) mod nch s"
      using mod_add_left_eq [of "next_ops_pool_remove_channel s + 1" "nch s" "Suc j"]
      by (simp add: drop_channel_def)
    then have "select_drop k td (drop_advance s) \<noteq> None"
      using Suc.prems keep [OF Suc.prems(1)] by (intro Suc.IH) (simp_all add: drop_advance_def)
    then show ?thesis using Nil k by (subst select_drop_unfold) simp
  next
    case (Cons d ds)
    then show ?thesis using took [OF Suc.prems(1) Cons] k by (subst select_drop_unfold) simp
  qed
qed

lemma select_drop_returns:
  fixes s :: "'db kv"
  assumes "disk_inv (td @ H) X s" and "0 < nch s" and "k \<le> int (length (members (dslab_full s)))"
  shows "select_drop k td s \<noteq> None"
  using assms
proof (induction "nat k" arbitrary: k td s)
  case 0
  then show ?case by (simp add: select_drop_unfold)
next
  case (Suc n)
  let ?P = "\<lambda>s :: 'db kv. disk_inv (td @ H) X s \<and> 0 < nch s \<and> k \<le> int (length (members (dslab_full s)))"
  have k: "0 < k" using Suc.hyps by simp
  have took: "select_drop (k - 1) (d # td) (drop_take d s) \<noteq> None"
    if P: "?P s" and it: "items (dslab_full s ! drop_channel s) = d # ds" for s d ds
  proof -
    note mv = drop_take_move [OF _ _ it, of "td @ H" X]
    have "length (members (dslab_full s)) = Suc (length (members (dslab_full (drop_take d s))))"
      using arg_cong [OF mv(3), of size] P by simp
    then show ?thesis
      using Suc.hyps(2) P mv(1) by (intro Suc.hyps(1)) (simp_all add: drop_take_def drop_advance_def)
  qed
  have "members (dslab_full s) \<noteq> []" using Suc.prems(3) k by auto
  then obtain j where "0 < j" "items (dslab_full s ! ((next_ops_pool_remove_channel s + j) mod nch s)) \<noteq> []"
    using next_nonempty [OF disk_invD(2) [OF Suc.prems(1)]] by blast
  then show ?case
    using select_drop_rotate [of k ?P td s "j - 1", OF k took] Suc.prems by (simp add: drop_advance_move)
qed

lemma select_drop_None:
  assumes "disk_inv (td @ H) X s" and "0 < nch s" and "int (length (members (dslab_full s))) < k"
  shows "select_drop k td s = None"
proof (rule ccontr)
  assume "select_drop k td s \<noteq> None"
  then obtain y where "select_drop k td s = Some y" by blast
  from select_drop_result [OF this, of H X] assms show False by (auto simp: drop_result_def)
qed

subsection \<open>Reclaiming the dropped slabs\<close>

definition reclaimed :: "'db env \<Rightarrow> nat set \<Rightarrow> 'db kv \<Rightarrow> 'db kv \<Rightarrow> bool" where
  "reclaimed E P s s' \<longleftrightarrow> data_inv E s' \<and> keeps E s s' \<and> live s' = live s \<and> same_place s s' \<and>
     mslab_free s' = mslab_free s \<and> mslab_full s' = mslab_full s \<and> slab_class_table s' = slab_class_table s \<and>
     max_ops_pool_size s' = max_ops_pool_size s \<and> index_locked s' = index_locked s \<and>
     dslab_full s' = dslab_full s \<and> nr_full_dslab s' = nr_full_dslab s \<and> apart E P s s'"

lemma reclaimed_refl: "data_inv E s \<Longrightarrow> reclaimed E P s s"
  by (simp add: reclaimed_def)

lemma reclaimed_trans: "reclaimed E P s t \<Longrightarrow> reclaimed E P t u \<Longrightarrow> reclaimed E P s u"
  using keeps_trans [of E s t u] same_place_trans [of s t u] apart_trans [of E P s t u] by (simp add: reclaimed_def)

lemma reclaimed_move:
  "data_inv E s \<Longrightarrow> list_move s s' \<Longrightarrow> dslab_full s' = dslab_full s \<Longrightarrow>
    nr_full_dslab s' = nr_full_dslab s \<Longrightarrow> reclaimed E P s s'"
  using list_move_data(1,2) [of s s' E] list_move_live [of s s'] list_move_apart [of s s']
  by (simp add: reclaimed_def list_move_def)

lemma reclaimed_reset:
  assumes "data_inv E s" and "disk_inv (d # H) X s" and "mem_inv Hm s" and "live s d = {}" and "d \<in> P"
  shows "reclaimed E P s (upd_slab d slab_reset s)"
  using reset_held [OF assms(1-4)] apart_upd_slab [OF assms(5)] by (simp add: reclaimed_def)

text \<open>A slab that is reset and put into the over-provisioned pool.\<close>

definition to_ops :: "nat \<Rightarrow> 'db kv \<Rightarrow> 'db kv" where
  "to_ops d s = s\<lparr>ops_pool := chan_add (slab_channel s d) d (ops_pool s), ops_pool_size := ops_pool_size s + 1\<rparr>"

lemma to_ops_ok:
  assumes inv: "data_inv E s" and di: "disk_inv (d # H) X s" and mi: "mem_inv Hm s" and un: "live s d = {}" and d: "d \<in> P"
  defines "t \<equiv> to_ops d (upd_slab d slab_reset s)"
  shows "data_inv E t" "disk_inv H X t" "mem_inv Hm t" "live t = live s" "reclaimed E P s t"
    "placed H t = placed (d # H) s" "ops_pool_size t = ops_pool_size s + 1" "nr_free_dslab t = nr_free_dslab s"
proof -
  let ?s1 = "upd_slab d slab_reset s"
  note rh = reset_held [OF inv di mi un] and g1 = data_invD(1) [OF reset_held(1) [OF inv di mi un]]
  have lm: "list_move ?s1 t" by (simp add: t_def to_ops_def)
  show "data_inv E t" "mem_inv Hm t" using list_move_data(1) [OF lm] list_move_mem [OF lm] rh(1,4) by simp_all
  show "disk_inv H X t" unfolding t_def to_ops_def by (rule give_ops [OF g1 rh(3)]) (simp_all add: rh(6))
  show "live t = live s" using list_move_live [OF lm] by simp
  have "reclaimed E P ?s1 t" by (rule reclaimed_move [OF rh(1) lm]) (simp_all add: t_def to_ops_def)
  then show "reclaimed E P s t" by (rule reclaimed_trans [OF reclaimed_reset [OF inv di mi un d]])
  have "slab_channel ?s1 d < nch ?s1" using slab_channel_less [OF g1] disk_invD(10) [OF rh(3)] by simp
  from chans_add(2) [OF disk_invD(3) [OF rh(3)] this] show "placed H t = placed (d # H) s"
    by (simp add: placed_def on_lists_def t_def to_ops_def)
qed (simp_all add: t_def to_ops_def)

text \<open>
  The first loop gives up to \<open>n\<close> slabs to the over-provisioned pool; when there are more, it
  loses the next one.
\<close>

lemma reclaim_to_ops_ok:
  assumes "reclaim_to_ops n i ds s = (rest, s')" and "data_inv E s" and "disk_inv (ds @ H) X s" and "mem_inv Hm s"
    and "\<forall>d \<in> set ds. live s d = {}" and "i \<le> n" and "set ds \<subseteq> P"
  shows "reclaimed E P s s' \<and> placed (rest @ H) s' \<subseteq># placed (ds @ H) s \<and> disk_inv (rest @ H) X s' \<and> mem_inv Hm s' \<and> set rest \<subseteq> set ds \<and>
    ops_pool_size s' = ops_pool_size s + min (n - i) (int (length ds)) \<and>
    nr_free_dslab s' = nr_free_dslab s \<and>
    int (length rest) = max 0 (int (length ds) - (n - i) - 1) \<and>
    int (size (placed (rest @ H) s')) =
      int (size (placed (ds @ H) s)) - (if int (length ds) > n - i then 1 else 0)"
  using assms
proof (induction n i ds s rule: reclaim_to_ops.induct)
  case (1 n i s)
  then show ?case by (auto simp: reclaimed_refl)
next
  case (2 n i d ds s)
  let ?s1 = "upd_slab d slab_reset s"
  have di: "disk_inv (d # ds @ H) X s" using 2(4) by simp
  have un: "live s d = {}" using 2(6) by simp
  note rh = reset_held [OF 2(3) di 2(5) un]
  have dP: "d \<in> P" "set ds \<subseteq> P" using 2(8) by simp_all
  note rr = reclaimed_reset [OF 2(3) di 2(5) un dP(1)]
  have pl1: "placed (d # ds @ H) ?s1 = placed (d # ds @ H) s" by (simp add: placed_def on_lists_def)
  show ?case
  proof (cases "n \<le> i")
    case True
    then have e: "rest = ds" "s' = ?s1" using 2(2) by (simp_all add: Let_def)
    have "disk_inv (ds @ H) X ?s1" by (rule disk_inv_forget [OF rh(3)])
    moreover have pl: "placed (d # ds @ H) s = add_mset d (placed (ds @ H) ?s1)"
      unfolding pl1 [symmetric] by (simp add: placed_def)
    then have "placed (ds @ H) ?s1 \<subseteq># placed ((d # ds) @ H) s" by simp
    ultimately show ?thesis
      using e rr rh(4) True 2(7) pl by auto
  next
    case False
    let ?s2 = "to_ops d ?s1"
    note op = to_ops_ok [OF 2(3) di 2(5) un dP(1)]
    have "reclaim_to_ops n (i + 1) ds ?s2 = (rest, s')" using 2(2) False by (simp add: Let_def to_ops_def)
    from 2(1) [OF refl refl _ this [unfolded to_ops_def] op(1,2,3) [unfolded to_ops_def]] False 2(6) op(4) dP(2)
    have IH: "reclaimed E P ?s2 s' \<and> placed (rest @ H) s' \<subseteq># placed (ds @ H) ?s2 \<and> disk_inv (rest @ H) X s' \<and> mem_inv Hm s' \<and> set rest \<subseteq> set ds \<and>
      ops_pool_size s' = ops_pool_size ?s2 + min (n - (i + 1)) (int (length ds)) \<and>
      nr_free_dslab s' = nr_free_dslab ?s2 \<and>
      int (length rest) = max 0 (int (length ds) - (n - (i + 1)) - 1) \<and>
      int (size (placed (rest @ H) s')) =
        int (size (placed (ds @ H) ?s2)) - (if int (length ds) > n - (i + 1) then 1 else 0)"
      by (simp add: to_ops_def)
    show ?thesis
      using IH reclaimed_trans [OF op(5)] op(6-8) by auto
  qed
qed

lemma reclaim_to_free_ok:
  assumes "data_inv E s" and "disk_inv (ds @ H) X s" and "mem_inv Hm s" and "\<forall>d \<in> set ds. live s d = {}"
    and "set ds \<subseteq> P"
  shows "\<exists>s'. reclaim_to_free ds s = Ret () s' \<and> reclaimed E P s s' \<and> disk_inv H X s' \<and> mem_inv Hm s' \<and>
    ops_pool_size s' = ops_pool_size s \<and> nr_free_dslab s' = nr_free_dslab s + int (length ds) \<and>
    placed H s' = placed (ds @ H) s"
  using assms
proof (induction ds arbitrary: s)
  case Nil
  then show ?case by (simp add: reclaimed_refl)
next
  case (Cons d ds)
  let ?s1 = "upd_slab d slab_reset s"
  have di: "disk_inv (d # ds @ H) X s" using Cons.prems(2) by simp
  have un: "live s d = {}" using Cons.prems(4) by simp
  note rh = reset_held [OF Cons.prems(1) di Cons.prems(3) un]
  have dP: "d \<in> P" "set ds \<subseteq> P" using Cons.prems(5) by simp_all
  note rr = reclaimed_reset [OF Cons.prems(1) di Cons.prems(3) un dP(1)]
  have pl1: "placed (d # ds @ H) ?s1 = placed (d # ds @ H) s" by (simp add: placed_def on_lists_def)
  obtain s2 where s2: "back_to_free (slab_channel ?s1 d) d ?s1 = Ret () s2" "disk_inv (ds @ H) X s2"
    "list_move ?s1 s2" "placed (ds @ H) s2 = placed (d # ds @ H) ?s1" "ops_pool_size s2 = ops_pool_size ?s1"
    "nr_free_dslab s2 = nr_free_dslab ?s1 + 1" "dslab_full s2 = dslab_full ?s1" "nr_full_dslab s2 = nr_full_dslab ?s1"
    using back_to_free_safe [OF rh(1,3)] by (auto simp: rh(6))
  have inv2: "data_inv E s2" using list_move_data(1) [OF s2(3)] rh(1) by simp
  have r2: "reclaimed E P s s2" using reclaimed_trans [OF rr reclaimed_move [OF rh(1) s2(3,7,8)]] .
  have mi2: "mem_inv Hm s2" using list_move_mem [OF s2(3)] rh(4) by simp
  obtain s' where "reclaim_to_free ds s2 = Ret () s'" "reclaimed E P s2 s'" "disk_inv H X s'" "mem_inv Hm s'"
    "ops_pool_size s' = ops_pool_size s2" "nr_free_dslab s' = nr_free_dslab s2 + int (length ds)"
    "placed H s' = placed (ds @ H) s2"
    using Cons.IH [OF inv2 s2(2) mi2 _ dP(2)] Cons.prems(4) r2 by (auto simp: reclaimed_def)
  then show ?case
    using reclaimed_trans [OF r2] s2 pl1 by (auto simp: Let_def)
qed

subsection \<open>Quick garbage collection is safe\<close>

text \<open>
  The state after a quick collection that was to free \<open>nf\<close> slabs and give \<open>no\<close> slabs to the pool:
  no object appears or changes, the pool grows as intended, but only \<open>nf - 1\<close> slabs are freed:
  whenever \<open>nf > 0\<close> one slab is on no list any more.
\<close>

definition quick_gc_result :: "'db env \<Rightarrow> int \<Rightarrow> int \<Rightarrow> 'db kv \<Rightarrow> 'db kv \<Rightarrow> bool" where
  "quick_gc_result E nf no s s' \<longleftrightarrow> kv_inv E s' \<and> refines E s s' \<and> same_place s s' \<and>
     mslab_free s' = mslab_free s \<and> mslab_full s' = mslab_full s \<and> slab_class_table s' = slab_class_table s \<and>
     index_locked s' = index_locked s \<and> apart E (set_mset (on_lists s)) s s' \<and> on_lists s' \<subseteq># on_lists s \<and>
     nr_free_dslab s' = nr_free_dslab s + max 0 (nf - 1) \<and>
     ops_pool_size s' = ops_pool_size s + min no (max 0 (nf + no)) \<and>
     int (size (on_lists s')) = int (size (on_lists s)) - (if 0 < nf then 1 else 0)"

definition gc_exit :: "'db env \<Rightarrow> 'db kv \<Rightarrow> 'db kv \<Rightarrow> bool" where
  "gc_exit E s s' \<longleftrightarrow> data_inv E s' \<and> refines E s s'"

lemma do_quick_gc_reclaim:
  assumes inv: "data_inv E s" and di: "disk_inv ds {} s" and mi: "mem_inv [] s"
    and un: "\<forall>d \<in> set ds. live s d = {}" and no: "0 \<le> no" and len: "int (length ds) = max 0 (nf + no)"
    and r: "reclaim_to_ops no 0 ds s = (rest, s1)" and P: "set ds \<subseteq> P"
  shows "\<exists>s'. reclaim_to_free rest s1 = Ret () s' \<and> reclaimed E P s s' \<and> on_lists s' \<subseteq># placed ds s \<and> disk_inv [] {} s' \<and> mem_inv [] s' \<and>
    ops_pool_size s' = ops_pool_size s + min no (max 0 (nf + no)) \<and>
    nr_free_dslab s' = nr_free_dslab s + max 0 (nf - 1) \<and>
    int (size (on_lists s')) = int (size (placed ds s)) - (if 0 < nf then 1 else 0)"
proof -
  have a: "reclaimed E P s s1 \<and> placed (rest @ []) s1 \<subseteq># placed (ds @ []) s \<and> disk_inv (rest @ []) {} s1 \<and> mem_inv [] s1 \<and> set rest \<subseteq> set ds \<and>
    ops_pool_size s1 = ops_pool_size s + min (no - 0) (int (length ds)) \<and> nr_free_dslab s1 = nr_free_dslab s \<and>
    int (length rest) = max 0 (int (length ds) - (no - 0) - 1) \<and>
    int (size (placed (rest @ []) s1)) = int (size (placed (ds @ []) s)) - (if int (length ds) > no - 0 then 1 else 0)"
    by (rule reclaim_to_ops_ok [OF r inv _ mi un no P]) (simp add: di)
  have un1: "\<forall>d \<in> set rest. live s1 d = {}" using a un by (auto simp: reclaimed_def)
  obtain s' where s': "reclaim_to_free rest s1 = Ret () s'" "reclaimed E P s1 s'" "disk_inv [] {} s'" "mem_inv [] s'"
    "ops_pool_size s' = ops_pool_size s1" "nr_free_dslab s' = nr_free_dslab s1 + int (length rest)"
    "placed [] s' = placed (rest @ []) s1"
    using reclaim_to_free_ok [of E s1 rest "[]" "{}" "[]" P] a un1 subset_trans [OF _ P, of "set rest"]
    unfolding reclaimed_def by auto
  have "on_lists s' = placed (rest @ []) s1" using s'(7) by (simp add: placed_def)
  moreover have "reclaimed E P s s'" using a s'(2) reclaimed_trans [of E P s s1 s'] by blast
  moreover have "max 0 (int (length ds) - (no - 0) - 1) = max 0 (nf - 1)"
    and "(int (length ds) > no - 0) = (0 < nf)"
    using len no by (auto simp: max_def)
  ultimately show ?thesis
    using a s'(1,3-6) len by (intro exI [of _ s']) simp
qed

text \<open>The selected slabs \<open>td\<close> have left the lists: what holds before they are evicted.\<close>

definition selected :: "'db env \<Rightarrow> int \<Rightarrow> nat list \<Rightarrow> 'db kv \<Rightarrow> 'db kv \<Rightarrow> bool" where
  "selected E n td s s1 \<longleftrightarrow> int (length td) = max 0 n \<and> disk_inv td {} s1 \<and> mem_inv [] s1 \<and> data_inv E s1 \<and> list_move s s1 \<and>
     refines E s s1 \<and> placed td s1 = on_lists s \<and> ops_pool_size s1 = ops_pool_size s \<and> nr_free_dslab s1 = nr_free_dslab s"

lemma select_drop_selected:
  assumes inv: "kv_inv E s" and sel: "select_drop n [] s = Some (td, s1)"
  shows "selected E n td s s1"
proof -
  have di: "disk_inv [] {} s" and mi: "mem_inv [] s" and data: "data_inv E s" using inv by (simp_all add: kv_inv_def)
  have "0 < nch s" by (rule nch_pos [OF data_invD(1) [OF data]])
  then have s1: "int (length td) = max 0 n" "disk_inv td {} s1" "list_move s s1" "placed td s1 = on_lists s"
    "ops_pool_size s1 = ops_pool_size s" "nr_free_dslab s1 = nr_free_dslab s"
    using select_drop_result [OF sel, of "[]" "{}"] di by (auto simp: drop_result_def placed_def)
  have "data_inv E s1" "refines E s s1" using list_move_data(1,2) [OF s1(3)] data keeps_refines by blast+
  then show ?thesis using s1 list_move_mem [OF s1(3)] mi by (simp add: selected_def)
qed

text \<open>From eviction to the end: what a slab outside the lists keeps.\<close>

lemma quick_gc_apart:
  assumes sel: "selected E n td s s1" and c: "calm s1 s2" and ev: "evicted E s1 s2" "used_but (set td) s1 s2"
    and rc: "reclaimed E (set td) s2 s'"
  shows "apart E (set_mset (on_lists s)) s s'"
proof -
  have lm: "list_move s s1" and "placed td s1 = on_lists s" using sel by (simp_all add: selected_def)
  then have tdo: "set td \<subseteq> set_mset (on_lists s)" by (metis placed_def set_mset_mset set_mset_union sup_ge1)
  have "data_inv E s1" using sel by (simp add: selected_def)
  then have "apart E (set td) s1 s2" by (rule calm_apart) (use c ev in \<open>auto simp: evicted_def used_but_def\<close>)
  then have "apart E (set_mset (on_lists s)) s1 s2" by (rule apart_mono [OF _ tdo])
  then have 1: "apart E (set_mset (on_lists s)) s s2"
    by (rule apart_trans [OF list_move_apart [OF lm]]) (use lm in \<open>simp add: list_move_def\<close>)
  have 2: "apart E (set_mset (on_lists s)) s2 s'" using rc apart_mono [OF _ tdo, of E s2 s'] by (simp add: reclaimed_def)
  have "same_place s s2" using c lm same_place_trans [of s s1 s2] by (simp add: calm_def list_move_def)
  then show ?thesis by (rule apart_trans [OF 1 2])
qed

lemma quick_gc_evicted:
  assumes inv: "kv_inv E s" and no: "0 \<le> no" "no \<le> max_ops_pool_size s - ops_pool_size s"
    and sel: "selected E (nf + no) td s s1" and c: "calm s1 s2" and ev: "evicted E s1 s2" "used_but (set td) s1 s2"
    and un: "\<forall>d \<in> set td. live s2 d = {}" and ro: "reclaim_to_ops no 0 td s2 = (rest, s3)"
  shows "\<exists>s'. reclaim_to_free rest s3 = Ret () s' \<and> quick_gc_result E nf no s s' \<and> check_ops_pool s'"
proof -
  have op: "ops_in_range s" and gb: "live s (gc_buffer s) = {}" using inv by (simp_all add: kv_inv_def)
  have lm: "list_move s s1" and len: "int (length td) = max 0 (nf + no)" using sel by (simp_all add: selected_def)
  have inv2: "data_inv E s2" and r2: "refines E s s2" and lv2: "\<And>i. live s2 i \<subseteq> live s i"
    using sel ev(1) refines_trans [of E s s1 s2] list_move_live [OF lm] by (auto simp: evicted_def selected_def)
  have di2: "disk_inv td {} s2" and mi2: "mem_inv [] s2"
    using calm_disk [OF _ c] calm_mem [OF _ c] sel by (simp_all add: selected_def)
  obtain s' where s': "reclaim_to_free rest s3 = Ret () s'" "reclaimed E (set td) s2 s'" "disk_inv [] {} s'" "mem_inv [] s'"
    "ops_pool_size s' = ops_pool_size s2 + min no (max 0 (nf + no))"
    "nr_free_dslab s' = nr_free_dslab s2 + max 0 (nf - 1)"
    "int (size (on_lists s')) = int (size (placed td s2)) - (if 0 < nf then 1 else 0)" "on_lists s' \<subseteq># placed td s2"
    using do_quick_gc_reclaim [OF inv2 di2 mi2 un no(1) len ro, of "set td"] by auto
  have fr: "ops_pool_size s2 = ops_pool_size s" "nr_free_dslab s2 = nr_free_dslab s" "placed td s2 = on_lists s"
    "max_ops_pool_size s2 = max_ops_pool_size s" "mslab_free s2 = mslab_free s"
    "mslab_full s2 = mslab_full s" "slab_class_table s2 = slab_class_table s" "index_locked s2 = index_locked s"
    using c sel by (simp_all add: selected_def calm_def same_lists_def list_move_def placed_def on_lists_def)
  have sp2: "same_place s s2" using c lm same_place_trans [of s s1 s2] by (simp add: calm_def list_move_def)
  have sp: "same_place s s'" using same_place_trans [OF sp2] s'(2) by (simp add: reclaimed_def)
  have "ops_in_range s'" using s'(2,5) fr(1,4) op no by (auto simp: ops_in_range_def reclaimed_def)
  moreover have "live s' (gc_buffer s') = {}"
    using s'(2) sp2 lv2 [of "gc_buffer s"] gb by (auto simp: reclaimed_def same_place_def gc_buffer_def)
  moreover have "refines E s s'" using refines_trans [OF r2 keeps_refines] s'(2) by (simp add: reclaimed_def)
  moreover have "apart E (set_mset (on_lists s)) s s'" by (rule quick_gc_apart [OF sel c ev s'(2)])
  moreover have "ptrs_ok s'" using sp inv by (simp add: same_place_def kv_inv_def)
  ultimately have "quick_gc_result E nf no s s'"
    using s' fr sp by (simp add: quick_gc_result_def kv_inv_def reclaimed_def)
  then show ?thesis using s'(1) check_ops_pool_inv [OF s'(3)] by blast
qed

lemma do_quick_gc_safe:
  assumes inv: "kv_inv E s" and no: "0 \<le> no" "no \<le> max_ops_pool_size s - ops_pool_size s"
  shows "safe (gc_exit E s) (\<lambda>go s'. go \<and> quick_gc_result E nf no s s') (do_quick_gc E nf no s)"
proof -
  have rest: "safe (gc_exit E s) (\<lambda>go s'. go \<and> quick_gc_result E nf no s s')
     (seq (evict_dslabs E td s1) (\<lambda>_ s. case reclaim_to_ops no 0 td s of
           (rest, s) \<Rightarrow> seq (reclaim_to_free rest s) (\<lambda>_ s.
             seq (check (check_ops_pool s) ''check_ops_pool()'' s) (\<lambda>_ s. Ret True s))))"
    if "select_drop (nf + no) [] s = Some (td, s1)" for td s1
    unfolding safe_seq
  proof (rule safe_mono [OF evict_dslabs_safe])
    note sel = select_drop_selected [OF inv that]
    then show "data_inv E s1" "\<forall>d \<in> set td. is_dslab s1 d" using disk_invD(10) [of td "{}" s1] by (auto simp: selected_def)
    show "evicted E s1 s2 \<Longrightarrow> gc_exit E s s2" for s2
      using sel refines_trans [of E s s1 s2] by (simp add: selected_def evicted_def gc_exit_def)
    fix s2 assume q: "evicted E s1 s2 \<and> calm s1 s2 \<and> (\<forall>d \<in> set td. live s2 d = {}) \<and> used_but (set td) s1 s2"
    obtain rest s3 where ro: "reclaim_to_ops no 0 td s2 = (rest, s3)" by (cases "reclaim_to_ops no 0 td s2") auto
    then show "safe (gc_exit E s) (\<lambda>go s'. go \<and> quick_gc_result E nf no s s')
        (case reclaim_to_ops no 0 td s2 of (rest, s) \<Rightarrow> seq (reclaim_to_free rest s) (\<lambda>_ s.
           seq (check (check_ops_pool s) ''check_ops_pool()'' s) (\<lambda>_ s. Ret True s)))"
      using quick_gc_evicted [OF inv no sel _ _ _ _ ro] q by auto
  qed
  have di: "disk_inv [] {} s" and "ops_in_range s" using inv by (simp_all add: kv_inv_def)
  then show ?thesis
    using rest check_ops_pool_inv [OF di] by (simp add: do_quick_gc_def ops_in_range_def split: option.split prod.split)
qed

text \<open>
  What every collection guarantees. It touches its buffer and slabs it found on the lists, so it is
  apart from the slabs that a flush or a \<^verbatim>\<open>Put\<close> in progress holds.
\<close>

definition gc_reach :: "'db kv \<Rightarrow> nat set" where
  "gc_reach s = insert (gc_buffer s) (set_mset (on_lists s))"

definition gc_result :: "'db env \<Rightarrow> 'db kv \<Rightarrow> 'db kv \<Rightarrow> bool" where
  "gc_result E s s' \<longleftrightarrow> kv_inv E s' \<and> refines E s s' \<and> same_place s s' \<and> mslab_free s' = mslab_free s \<and>
     mslab_full s' = mslab_full s \<and> slab_class_table s' = slab_class_table s \<and> index_locked s' = index_locked s \<and>
     apart E (gc_reach s) s s' \<and> on_lists s' \<subseteq># on_lists s"

lemma quick_gc_result_gc: "quick_gc_result E nf no s s' \<Longrightarrow> gc_result E s s'"
  using apart_mono [of E "set_mset (on_lists s)" s s' "gc_reach s"] by (simp add: quick_gc_result_def gc_result_def gc_reach_def subset_insertI)

lemma gc_reach_mono: "same_place s t \<Longrightarrow> on_lists t \<subseteq># on_lists s \<Longrightarrow> gc_reach t \<subseteq> gc_reach s"
  using set_mset_mono [of "on_lists t" "on_lists s"] by (auto simp: gc_reach_def same_place_def gc_buffer_def)

lemma mem_gc_reach: "kv_inv E s \<Longrightarrow> i < gc_buffer s \<Longrightarrow> i < length (slabs s) \<and> i \<notin> gc_reach s"
  using disk_invD(6-8) [of "[]" "{}" s i]
  by (auto simp: kv_inv_def data_inv_def geom_def gc_reach_def on_lists_def is_dslab_def gc_buffer_def)

lemma gc_result_trans:
  assumes "gc_result E s t" and "gc_result E t u"
  shows "gc_result E s u"
proof -
  have sp: "same_place s t" and ol: "on_lists t \<subseteq># on_lists s" using assms(1) by (simp_all add: gc_result_def)
  have "apart E (gc_reach s) t u"
    by (rule apart_mono [OF _ gc_reach_mono [OF sp ol]]) (use assms(2) in \<open>simp add: gc_result_def\<close>)
  then have "apart E (gc_reach s) s u"
    by (rule apart_trans [OF _ _ sp, rotated]) (use assms(1) in \<open>simp add: gc_result_def\<close>)
  then show ?thesis
    using assms refines_trans [of E s t u] same_place_trans [OF sp] subset_mset.order_trans [OF _ ol]
    by (simp add: gc_result_def)
qed

lemma move_gc_result:
  assumes "list_move s s'" and "kv_inv E s'" and "on_lists s' \<subseteq># on_lists s"
  shows "gc_result E s s'"
  using assms keeps_refines [OF list_move_data(2) [OF assms(1)]] list_move_apart [OF assms(1)]
  by (simp add: gc_result_def list_move_def)

lemma kv_inv_move:
  assumes inv: "kv_inv E s" and lm: "list_move s s'" and "disk_inv [] {} s'" and "ops_in_range s'"
  shows "kv_inv E s'"
proof -
  have "gc_buffer s' = gc_buffer s" "ptrs_ok s'"
    using lm inv by (simp_all add: list_move_def same_data_def gc_buffer_def kv_inv_def same_place_def)
  then show ?thesis
    using assms list_move_data(1) [OF lm, of E] list_move_mem [OF lm] list_move_live [OF lm]
    by (simp add: kv_inv_def)
qed

lemma quick_gc_safe:
  assumes inv: "kv_inv E s"
  shows "safe (gc_exit E s) (\<lambda>go s'. go \<and> gc_result E s s') (quick_gc E s)"
proof -
  have op: "0 < ops_pool_size s" "ops_pool_size s \<le> max_ops_pool_size s"
    using inv by (simp_all add: kv_inv_def ops_in_range_def)
  have "nr_free_dslab s = int (length (members (dslab_free s)))"
    using inv disk_invD(1,4) [of "[]" "{}" s] total_size_members [of "slab_channel s" "nch s" "dslab_free s"]
    by (simp add: kv_inv_def)
  then have free: "-1 < nr_free_dslab s" by simp
  have "safe (gc_exit E s) (\<lambda>go s'. go \<and> gc_result E s s')
      (do_quick_gc E nf (min (ops_pool_size s) (max_ops_pool_size s - ops_pool_size s))
        (s\<lparr>water_mark_high := hi, water_mark_low := lo\<rparr>))" (is "safe _ _ (do_quick_gc E nf ?no ?s)") for nf hi lo
  proof -
    have lm: "list_move s ?s" by simp
    have k: "refines E s ?s" by (rule keeps_refines [OF list_move_data(2) [OF lm]])
    have inv': "kv_inv E ?s"
      by (rule kv_inv_move [OF inv lm]) (use inv in \<open>auto simp: kv_inv_def ops_in_range_def\<close>)
    show ?thesis
    proof (rule safe_mono [OF do_quick_gc_safe [OF inv']])
      show "0 \<le> ?no" "?no \<le> max_ops_pool_size ?s - ops_pool_size ?s" using op by auto
      show "gc_exit E ?s s' \<Longrightarrow> gc_exit E s s'" for s'
        using refines_trans [OF k] by (auto simp: gc_exit_def)
      fix go s' assume "go \<and> quick_gc_result E nf ?no ?s s'"
      then have "go" and q: "gc_result E ?s s'" using quick_gc_result_gc by blast+
      then show "go \<and> gc_result E s s'"
        using gc_result_trans [OF move_gc_result [OF lm inv'] q] by (simp add: on_lists_def)
    qed
  qed
  then show ?thesis using op free by (simp add: quick_gc_def Let_def)
qed

end
