(* ===== verification/KV_Compact.thy ===== *)
theory KV_Compact
  imports KV_QuickGC
begin

text \<open>
  Normal garbage collection: the least used full slabs of a class are compacted into one
  over-provisioned slab (\<^verbatim>\<open>gc_dslabs\<close>, \<^verbatim>\<open>normal_gc\<close>). No object is lost.
\<close>

subsection \<open>The code\<close>

text \<open>The search for an over-provisioned slab, one round over the channels.\<close>

fun take_ops :: "nat \<Rightarrow> nat \<Rightarrow> 'db kv \<Rightarrow> nat option \<times> 'db kv" where
  "take_ops 0 begin s = (None, s)"
| "take_ops (Suc n) begin s =
     (let c = next_ops_pool_remove_channel s;
          s = s\<lparr>next_ops_pool_remove_channel := next_channel s c\<rparr>
      in case items (ops_pool s ! c) of
           d # _ \<Rightarrow>
             (Some d, s\<lparr>ops_pool := chan_del c d (ops_pool s), ops_pool_size := ops_pool_size s - 1\<rparr>)
         | [] \<Rightarrow> if begin = next_ops_pool_remove_channel s then (None, s) else take_ops n begin s)"

primrec unlink_dropped :: "nat list \<Rightarrow> slist list \<Rightarrow> 'db kv \<Rightarrow> slist list \<times> 'db kv" where
  "unlink_dropped [] fl s = (fl, s)"
| "unlink_dropped (d # ds) fl s =
     (let c = slab_channel s d;
          s = s\<lparr>dslab_full := chan_del c d (dslab_full s), nr_full_dslab := nr_full_dslab s - 1\<rparr>
      in unlink_dropped ds (chan_add c d fl) s)"

text \<open>The callback that moves a live object into the buffer.\<close>

definition move_slot :: "'db env \<Rightarrow> slab \<Rightarrow> nat \<Rightarrow> nat \<Rightarrow> 'db kv \<Rightarrow> (bool, 'db kv) outcome" where
  "move_slot E fake dslab_id i s =
     (let key = slot_key (data fake) (slab_slot fake i);
          value = slot_value (data fake) (slab_slot fake i);
          g = gc_buffer s
      in seq (index_lookup E key s) (\<lambda>r s.
         case r of
           None \<Rightarrow> Ret True s
         | Some e \<Rightarrow>
             if entry_loc (index s) e = (dslab_id, i) then
               (let n = nr_alloc (slabs s ! g)
                in case slab_slot_alloc (slabs s ! g) of
                     Ret off b \<Rightarrow>
                       let b = b\<lparr>data := slot_Write (data b) off key value\<rparr>;
                           s = upd_slab g (\<lambda>_. b) s
                       in Ret True (s\<lparr>index := set_entry_loc e (sid b, n) (index s)\<rparr>)
                   | _ \<Rightarrow> Abort ''!is_full()'')
             else Ret True s))"

primrec move_dslabs :: "'db env \<Rightarrow> nat list \<Rightarrow> int \<Rightarrow> 'db kv \<Rightarrow> (unit, 'db kv) outcome" where
  "move_dslabs E [] sz s = Ret () s"
| "move_dslabs E (d # ds) sz s =
     (let sz = sz + nr_used (slabs s ! d); g = gc_buffer s
      in seq (check (sz \<le> int (nr_slots (slabs s ! g))) ''size <= gc_buffer_->nr_slots'' s) (\<lambda>_ s.
         seq (check (cid (slabs s ! d) \<noteq> -1) ''dslab->cid != -1'' s) (\<lambda>_ s.
         seq (check (cid (slabs s ! d) = cid (slabs s ! g)) ''dslab->cid == gc_buffer_->cid'' s) (\<lambda>_ s.
         seq (read_dslab E (slabs s ! d) s) (\<lambda>fake s.
         seq (lock_index s) (\<lambda>_ s.
         seq (for_each_slot fake (move_slot E fake (sid (slabs s ! d))) s) (\<lambda>_ s.
         move_dslabs E ds sz (unlock_index (upd_slab d (\<lambda>sl. sl\<lparr>nr_used := 0\<rparr>) s)))))))))"

definition gc_dslabs :: "'db env \<Rightarrow> nat list \<Rightarrow> slist list \<Rightarrow> 'db kv \<Rightarrow> (slist list, 'db kv) outcome" where
  "gc_dslabs E to_drop free_list s =
     (case take_ops (nat (nr_channels (ssd s))) (next_ops_pool_remove_channel s) s of
        (None, s) \<Rightarrow> Abort ''ops_slab''
      | (Some ops, s) \<Rightarrow>
          let s = upd_slab ops slab_reset s;
              s = s\<lparr>dslab_full := chan_add (slab_channel s ops) ops (dslab_full s)\<rparr>
          in case unlink_dropped to_drop free_list s of
               (free_list, s) \<Rightarrow>
                 let g = gc_buffer s;
                     first = slabs s ! (to_drop ! 0);
                     s = upd_slab g (\<lambda>sl. (slab_reset sl)\<lparr>slot_size := slot_size first,
                           nr_slots := nr_slots first, cid := cid first\<rparr>) s
                 in seq (move_dslabs E to_drop 0 s) (\<lambda>_ s.
                    seq (check (cid (slabs s ! g) \<noteq> -1) ''gc_buffer_->cid != -1'' s) (\<lambda>_ s.
                    seq (flush_mslab_to_dslab E g ops s) (\<lambda>_ s.
                    seq (lock_index s) (\<lambda>_ s.
                    seq (modify_index_to E g ops s) (\<lambda>_ s.
                    Ret free_list (unlock_index s)))))))"

subsection \<open>Moving the live objects of a slab into the buffer\<close>

text \<open>The buffer alone changes besides the index.\<close>

definition buffer_step :: "'db kv \<Rightarrow> 'db kv \<Rightarrow> bool" where
  "buffer_step s s' \<longleftrightarrow> (\<exists>b ix. s' = s\<lparr>slabs := (slabs s)[gc_buffer s := b], index := ix\<rparr> \<and>
     cid b = cid (slabs s ! gc_buffer s) \<and> slot_size b = slot_size (slabs s ! gc_buffer s) \<and>
     nr_slots b = nr_slots (slabs s ! gc_buffer s) \<and> block_id b = block_id (slabs s ! gc_buffer s))"

definition move_loop :: "'db env \<Rightarrow> nat \<Rightarrow> 'db kv \<Rightarrow> nat \<Rightarrow> 'db kv \<Rightarrow> bool" where
  "move_loop E d s0 i s \<longleftrightarrow> data_inv E s \<and> keeps E s0 s \<and> buffer_step s0 s \<and>
     nr_alloc (slabs s ! gc_buffer s0) = nr_alloc (slabs s0 ! gc_buffer s0) + card {j \<in> live s0 d. j < i} \<and>
     live s d = {j \<in> live s0 d. i \<le> j} \<and>
     (\<forall>a. a \<noteq> d \<longrightarrow> a \<noteq> gc_buffer s0 \<longrightarrow> live s a = live s0 a)"

lemma gc_buffer_mem: "geom E s \<Longrightarrow> gc_buffer s < nr_mslab s"
  by (simp add: geom_def gc_buffer_def)

text \<open>What the buffer needs for the objects of a disk slab: its class and enough free slots.\<close>

definition fits_buffer :: "nat \<Rightarrow> 'db kv \<Rightarrow> bool" where
  "fits_buffer d s \<longleftrightarrow> is_dslab s d \<and> slot_size (slabs s ! gc_buffer s) = slot_size (slabs s ! d) \<and>
     nr_alloc (slabs s ! gc_buffer s) + card (live s d) \<le> nr_slots (slabs s ! gc_buffer s)"

lemma buffer_stepD:
  assumes "buffer_step s0 s" and "gc_buffer s0 < length (slabs s0)"
  shows "gc_buffer s = gc_buffer s0" "ssd s = ssd s0" "length (slabs s) = length (slabs s0)"
    "nr_mslab s = nr_mslab s0" "i \<noteq> gc_buffer s0 \<Longrightarrow> slabs s ! i = slabs s0 ! i"
    "slot_size (slabs s ! gc_buffer s0) = slot_size (slabs s0 ! gc_buffer s0)"
    "nr_slots (slabs s ! gc_buffer s0) = nr_slots (slabs s0 ! gc_buffer s0)"
    "cid (slabs s ! gc_buffer s0) = cid (slabs s0 ! gc_buffer s0)"
  using assms by (auto simp: buffer_step_def gc_buffer_def)

text \<open>The steps of the loop: the buffer takes the object, and a slot without an entry is passed over.\<close>

lemma buffer_step_add:
  assumes bst: "buffer_step s0 s" and g: "gc_buffer s0 < length (slabs s0)"
  shows "buffer_step s0 ((upd_slab (gc_buffer s0) (add_object key val) s)\<lparr>index := ix'\<rparr>)"
proof -
  obtain b ix where s: "s = s0\<lparr>slabs := (slabs s0)[gc_buffer s0 := b], index := ix\<rparr>"
    and b: "cid b = cid (slabs s0 ! gc_buffer s0)" "slot_size b = slot_size (slabs s0 ! gc_buffer s0)"
      "nr_slots b = nr_slots (slabs s0 ! gc_buffer s0)" "block_id b = block_id (slabs s0 ! gc_buffer s0)"
    using bst unfolding buffer_step_def by blast
  have "(upd_slab (gc_buffer s0) (add_object key val) s)\<lparr>index := ix'\<rparr> =
      s0\<lparr>slabs := (slabs s0)[gc_buffer s0 := add_object key val b], index := ix'\<rparr>"
    using g by (simp add: s upd_slab_def)
  then show ?thesis
    unfolding buffer_step_def
    by (intro exI [of _ "add_object key val b"] exI [of _ ix']) (simp add: b add_object_def)
qed

lemma move_loop_room:
  assumes inv0: "data_inv E s0" and fb: "fits_buffer d s0" and lp: "move_loop E d s0 i s"
    and g: "gc_buffer s0 < length (slabs s0)" and il: "i \<in> live s0 d"
  shows "nr_alloc (slabs s ! gc_buffer s0) < nr_slots (slabs s ! gc_buffer s0)"
    and "Suc (nr_alloc (slabs s ! gc_buffer s0)) = nr_alloc (slabs s0 ! gc_buffer s0) + card {j \<in> live s0 d. j < Suc i}"
proof -
  have bst: "buffer_step s0 s"
    and na: "nr_alloc (slabs s ! gc_buffer s0) = nr_alloc (slabs s0 ! gc_buffer s0) + card {j \<in> live s0 d. j < i}"
    using lp by (auto simp: move_loop_def)
  note fin = finite_live [OF inv0, of d]
  have "card {j \<in> live s0 d. j < Suc i} \<le> card (live s0 d)" by (rule card_mono [OF fin]) blast
  then show "nr_alloc (slabs s ! gc_buffer s0) < nr_slots (slabs s ! gc_buffer s0)"
    using card_filter_Suc [OF fin, of i] il fb na buffer_stepD(7) [OF bst g] by (simp add: fits_buffer_def)
  show "Suc (nr_alloc (slabs s ! gc_buffer s0)) = nr_alloc (slabs s0 ! gc_buffer s0) + card {j \<in> live s0 d. j < Suc i}"
    using na card_filter_Suc [OF fin, of i] il by simp
qed

lemma move_loop_skip:
  assumes inv0: "data_inv E s0" and lp: "move_loop E d s0 i s" and nl: "i \<notin> live s d"
  shows "move_loop E d s0 (Suc i) s"
proof -
  have ld: "live s d = {j \<in> live s0 d. i \<le> j}" using lp by (simp add: move_loop_def)
  with nl have ni: "i \<notin> live s0 d" by simp
  then have "j \<in> live s0 d \<and> i \<le> j \<longleftrightarrow> j \<in> live s0 d \<and> Suc i \<le> j" for j
    by (cases "j = i") auto
  then have "{j \<in> live s0 d. i \<le> j} = {j \<in> live s0 d. Suc i \<le> j}" by simp
  with ld ni show ?thesis
    using lp card_filter_Suc [OF finite_live [OF inv0, of d], of i] by (simp add: move_loop_def)
qed

lemma live_key:
  assumes inv: "data_inv E s" and kv: "content E s (d, i) = (key, val)"
  shows "i \<in> live s d \<longleftrightarrow> view s (hk E s key) = Some (d, i)"
proof
  assume "i \<in> live s d"
  then obtain h where v: "view s h = Some (d, i)" unfolding live_def by blast
  with data_inv_point(3) [OF inv v] kv show "view s (hk E s key) = Some (d, i)" by simp
qed (rule data_inv_point(4) [OF inv])

lemma move_slot_moves:
  assumes inv0: "data_inv E s0" and fb: "fits_buffer d s0" and i: "i < nr_alloc (slabs s0 ! d)"
    and lp: "move_loop E d s0 i s" and lk: "get_index_entry (hash E) key (index s) = Inr (Some e)"
    and at: "entry_loc (index s) e = (d, i)"
    and kv: "content E s (d, i) = (key, val)" and sz: "slot_size_of key val \<le> slot_size (slabs s0 ! d)"
  defines "g \<equiv> gc_buffer s0"
  defines "n \<equiv> nr_alloc (slabs s ! g)"
  defines "s1 \<equiv> upd_slab g (add_object key val) s"
  shows "n < nr_slots (slabs s ! g)"
    and "move_loop E d s0 (Suc i) (s1\<lparr>index := set_entry_loc e (g, n) (index s)\<rparr>)"
proof -
  have inv: "data_inv E s" and ke: "keeps E s0 s" and bst: "buffer_step s0 s"
    and ld: "live s d = {j \<in> live s0 d. i \<le> j}" and lo: "\<And>a. a \<noteq> d \<Longrightarrow> a \<noteq> g \<Longrightarrow> live s a = live s0 a"
    using lp by (auto simp: move_loop_def g_def)
  have isd: "nr_mslab s0 \<le> d" "d < length (slabs s0)" using fb by (auto simp: fits_buffer_def is_dslab_def)
  have g: "g < nr_mslab s0" "g < length (slabs s0)" "d \<noteq> g"
    using gc_buffer_mem [OF data_invD(1) [OF inv0]] isd by (auto simp: g_def)
  note bD = buffer_stepD [OF bst, folded g_def, OF g(2)]
  note ok = data_invD(3) [OF inv] and gs = get_index_entry_Some [OF data_invD(3) [OF inv] lk]
  define h0 where "h0 = hk E s key"
  have h0: "hkey (hash E) (length (itable (index s))) key = h0" by (simp add: h0_def hk_def)
  have vh: "view s h0 = Some (d, i)" using gs(1) at unfolding h0 by simp
  have il: "i \<in> live s0 d" using data_inv_point(4) [OF inv vh] ld by simp
  note mr = move_loop_room [OF inv0 fb lp, folded g_def, OF g(2) il]
  show room: "n < nr_slots (slabs s ! g)" unfolding n_def by (rule mr(1))
  have sz': "slot_size_of key val \<le> slot_size (slabs s ! g)" using sz fb bD(6) by (simp add: fits_buffer_def g_def)
  note ao = add_object_step [OF inv g(1) [folded bD(4)] room [unfolded n_def] sz', folded s1_def]
  let ?ix = "set_entry_loc e (g, n) (index s)"
  let ?s2 = "s1\<lparr>index := ?ix\<rparr>"
  have s1: "index s1 = index s" "live s1 = live s" "hk E s1 = hk E s" "g < length (slabs s1)"
    "nr_alloc (slabs s1 ! g) = Suc n" "nr_used (slabs s1 ! g) = nr_used (slabs s ! g) + 1"
    using g bD(3) by (simp_all add: s1_def n_def add_object_def)
  have v2: "index_view ?ix = (view s1)(h0 \<mapsto> (g, n))" using gs(2) h0 s1(1) by simp
  have cd: "content E s1 (d, i) = content E s (d, i)" unfolding s1_def using g(3) by (simp add: content_upd_other)
  have inv2: "data_inv E ?s2"
  proof (rule point_inv [OF ao(1) _ _ v2])
    show "index_ok ?ix" by (rule set_entry_loc_ok [OF ok])
    show "int (card (live s1 g)) + 1 \<le> nr_used (slabs s1 ! g)"
      using data_inv_slab(5) [OF inv, of g] g bD(3) s1 by simp
    show "hk E s1 (fst (content E s1 (g, n))) = h0" using ao(3) s1(3) by (simp add: n_def h0_def)
  qed (use s1 in simp_all)
  have k2: "keeps E s1 ?s2"
    by (rule point_keeps [OF _ v2, of "(d, i)"]) (use ao(3) cd kv vh s1(1) in \<open>simp_all add: n_def\<close>)
  have ke2: "keeps E s0 ?s2" using ke ao(2) k2 keeps_trans by metis
  note lp2 = live_point [OF ao(1) v2, unfolded s1(1,2)]
  have "{j. view s h0 = Some (d, j)} = {i}" using vh by auto
  then have "live ?s2 d = live s d - {i}" unfolding lp2 using g(3) by simp
  also have "\<dots> = {j \<in> live s0 d. Suc i \<le> j}" unfolding ld by (auto intro: le_neq_implies_less)
  finally have l1: "live ?s2 d = {j \<in> live s0 d. Suc i \<le> j}" .
  have l2: "live ?s2 a = live s0 a" if "a \<noteq> d" "a \<noteq> g" for a
    unfolding lp2 using that vh lo by simp
  have "buffer_step s0 ?s2" unfolding s1_def g_def by (rule buffer_step_add [OF bst g(2) [unfolded g_def]])
  then show "move_loop E d s0 (Suc i) ?s2"
    using inv2 ke2 l1 l2 s1(5) mr(2) [folded n_def] unfolding move_loop_def g_def [symmetric] by simp
qed

lemma move_slot_step:
  assumes inv0: "data_inv E s0" and fb: "fits_buffer d s0" and i: "i < nr_alloc (slabs s0 ! d)"
    and lp: "move_loop E d s0 i s"
  shows "safe (\<lambda>s'. data_inv E s' \<and> keeps E s0 s') (\<lambda>go s'. go \<and> move_loop E d s0 (Suc i) s')
    (move_slot E ((slabs s0 ! d)\<lparr>data := slab_data E s0 d\<rparr>) d i s)"
proof -
  let ?fake = "(slabs s0 ! d)\<lparr>data := slab_data E s0 d\<rparr>"
  define key where "key = slot_key (data ?fake) (slab_slot ?fake i)"
  define val where "val = slot_value (data ?fake) (slab_slot ?fake i)"
  have inv: "data_inv E s" and ke: "keeps E s0 s" and bst: "buffer_step s0 s"
    using lp by (auto simp: move_loop_def)
  have isd: "nr_mslab s0 \<le> d" "d < length (slabs s0)" using fb by (auto simp: fits_buffer_def is_dslab_def)
  have g: "gc_buffer s0 < length (slabs s0)" "d \<noteq> gc_buffer s0"
    using gc_buffer_mem [OF data_invD(1) [OF inv0]] isd by auto
  note bD = buffer_stepD [OF bst g(1)]
  have sd: "slab_data E s d = slab_data E s0 d" using bD(2) bD(5) [OF g(2)] by (simp add: slab_data_def)
  have kv: "content E s (d, i) = (key, val)"
    using bD(5) [OF g(2)] sd by (simp add: content_def key_def val_def slot_kv_def slab_slot_def)
  have sz: "slot_size_of key val \<le> slot_size (slabs s0 ! d)"
    using data_inv_slab(3) [OF inv0 isd(2)] i length_slot_kv
    unfolding slots_fit_def key_def val_def by (simp add: slab_slot_def)
  note skip = move_loop_skip [OF inv0 lp] and liv = live_key [OF inv kv]
  have hk: "hkey (hash E) (length (itable (index s))) key = hk E s key" by (simp add: hk_def)
  show ?thesis
  proof (cases "get_index_entry (hash E) key (index s)")
    case (Inl e)
    then show ?thesis using inv ke by (simp add: move_slot_def index_lookup_def Let_def key_def)
  next
    case (Inr r)
    show ?thesis
    proof (cases r)
      case None
      have "i \<notin> live s d"
        using get_index_entry_None [OF data_invD(3) [OF inv] Inr [unfolded None]] liv hk by simp
      then show ?thesis using skip Inr None by (simp add: move_slot_def index_lookup_def Let_def key_def)
    next
      case (Some e)
      note gs = get_index_entry_Some(1) [OF data_invD(3) [OF inv] Inr [unfolded Some], unfolded hk]
      show ?thesis
      proof (cases "entry_loc (index s) e = (d, i)")
        case True
        note mv = move_slot_moves [OF inv0 fb i lp Inr [unfolded Some] True kv sz]
        have sidg: "sid (slabs s ! gc_buffer s0) = gc_buffer s0"
          using data_inv_slab(4) [OF inv, of "gc_buffer s0"] g(1) bD(3) by simp
        show ?thesis
          unfolding move_slot_def Let_def key_def [symmetric] val_def [symmetric] bD(1)
          using mv Inr Some True sidg
          by (simp add: index_lookup_def slab_slot_alloc_def is_full_def add_object_def upd_slab_def)
      next
        case False
        then have "i \<notin> live s d" using gs liv by simp
        then show ?thesis using skip Inr Some False by (simp add: move_slot_def index_lookup_def Let_def key_def)
      qed
    qed
  qed
qed

text \<open>All slots of a slab: afterwards no entry points into it.\<close>

lemma move_slots_safe:
  assumes inv0: "data_inv E s0" and fb: "fits_buffer d s0"
  shows "safe (\<lambda>s'. data_inv E s' \<and> keeps E s0 s')
    (\<lambda>_ s'. move_loop E d s0 (nr_alloc (slabs s0 ! d)) s' \<and> live s' d = {} \<and>
       nr_alloc (slabs s' ! gc_buffer s0) = nr_alloc (slabs s0 ! gc_buffer s0) + card (live s0 d))
    (for_each_slot ((slabs s0 ! d)\<lparr>data := slab_data E s0 d\<rparr>)
      (move_slot E ((slabs s0 ! d)\<lparr>data := slab_data E s0 d\<rparr>) d) s0)"
proof -
  let ?n = "nr_alloc (slabs s0 ! d)" and ?f = "move_slot E ((slabs s0 ! d)\<lparr>data := slab_data E s0 d\<rparr>) d"
  have g: "gc_buffer s0 < length (slabs s0)"
    using gc_buffer_mem [OF data_invD(1) [OF inv0]] geom_size(5) [OF data_invD(1) [OF inv0]] by simp
  have bs0: "buffer_step s0 s0"
    unfolding buffer_step_def by (intro exI [of _ "slabs s0 ! gc_buffer s0"] exI [of _ "index s0"]) simp
  have lp0: "move_loop E d s0 0 s0" using inv0 bs0 by (simp add: move_loop_def)
  have "safe (\<lambda>s'. data_inv E s' \<and> keeps E s0 s') (\<lambda>_ s'. move_loop E d s0 ?n s') (visit_slots ?f [0..<?n] s0)"
  proof (rule safe_visit_slots)
    show "move_loop E d s0 0 s0" by (rule lp0)
    show "safe (\<lambda>s'. data_inv E s' \<and> keeps E s0 s') (\<lambda>go s'. go \<and> move_loop E d s0 (Suc i) s') (?f i s)"
      if "i < ?n" "move_loop E d s0 i s" for i s by (rule move_slot_step [OF inv0 fb that])
  qed simp
  moreover have "{j \<in> live s0 d. ?n \<le> j} = {}" "{j \<in> live s0 d. j < ?n} = live s0 d"
    using live_subset [OF inv0, of d] by auto
  ultimately show ?thesis
    unfolding for_each_slot_def by (simp add: move_loop_def) (erule safe_weaken, simp)
qed

subsection \<open>Moving several slabs\<close>

text \<open>
  Steps during a compaction: the lists stay, and so do the headers except for the number of
  objects in the buffer.
\<close>

definition compacting :: "'db kv \<Rightarrow> 'db kv \<Rightarrow> bool" where
  "compacting s s' \<longleftrightarrow> same_place s s' \<and> same_lists s s' \<and> index_locked s' = index_locked s \<and> ssd s' = ssd s \<and>
     (\<forall>i. cid (slabs s' ! i) = cid (slabs s ! i) \<and> nr_slots (slabs s' ! i) = nr_slots (slabs s ! i) \<and>
        slot_size (slabs s' ! i) = slot_size (slabs s ! i) \<and> block_id (slabs s' ! i) = block_id (slabs s ! i) \<and>
        (i \<noteq> gc_buffer s \<longrightarrow> nr_alloc (slabs s' ! i) = nr_alloc (slabs s ! i) \<and> data (slabs s' ! i) = data (slabs s ! i))) \<and>
     (\<forall>i. i \<noteq> gc_buffer s \<longrightarrow> live s' i \<subseteq> live s i)"

lemma compacting_refl [simp]: "compacting s s"
  by (simp add: compacting_def)

lemma compacting_buffer: "compacting s t \<Longrightarrow> gc_buffer t = gc_buffer s"
  by (simp add: compacting_def same_place_def gc_buffer_def)

lemma compacting_trans:
  assumes "compacting s t" and "compacting t u"
  shows "compacting s u"
proof -
  have "gc_buffer t = gc_buffer s" by (rule compacting_buffer [OF assms(1)])
  moreover from this have "i \<noteq> gc_buffer s \<Longrightarrow> live u i \<subseteq> live s i" for i
    using assms subset_trans [of "live u i" "live t i" "live s i"] by (simp add: compacting_def)
  ultimately show ?thesis
    using assms same_place_trans [of s t u] same_lists_trans [of s t u] unfolding compacting_def by simp
qed

lemma compacting_apart:
  assumes "data_inv E s" and "compacting s s'" and "gc_buffer s \<in> X"
    and "\<And>i. i \<notin> X \<Longrightarrow> nr_used (slabs s' ! i) = nr_used (slabs s ! i)"
  shows "apart E X s s'"
proof (unfold apart_def, intro allI impI)
  fix i assume "i \<notin> X"
  then have "i \<noteq> gc_buffer s" and u: "nr_used (slabs s' ! i) = nr_used (slabs s ! i)" using assms(3,4) by auto
  then show "kept E i s s'"
    using assms(2) slack_mono [OF assms(1) _ u] slab_data_cong [of s' s i E] by (simp add: kept_def compacting_def)
qed

lemma compacting_calm:
  "calm s s' \<Longrightarrow> (\<And>i. i \<noteq> gc_buffer s \<Longrightarrow> live s' i \<subseteq> live s i) \<Longrightarrow> compacting s s'"
  by (simp add: compacting_def calm_def)

lemma compacting_relock:
  "compacting (s\<lparr>index_locked := b\<rparr>) s' \<Longrightarrow> compacting s (s'\<lparr>index_locked := index_locked s\<rparr>)"
  by (simp add: compacting_def)

lemma compacting_buffer_step:
  assumes "buffer_step s s'" and g: "gc_buffer s < length (slabs s)"
    and l: "\<And>i. i \<noteq> gc_buffer s \<Longrightarrow> live s' i \<subseteq> live s i"
  shows "compacting s s'"
proof -
  note bD = buffer_stepD [OF assms(1) g]
  obtain b ix where s': "s' = s\<lparr>slabs := (slabs s)[gc_buffer s := b], index := ix\<rparr>"
    and b: "block_id b = block_id (slabs s ! gc_buffer s)"
    using assms(1) unfolding buffer_step_def by blast
  have "s' = (upd_slab (gc_buffer s) (\<lambda>_. b) s)\<lparr>index := ix\<rparr>" by (simp add: s' upd_slab_def)
  moreover have "same_place s (upd_slab (gc_buffer s) (\<lambda>_. b) s)" by (rule same_place_upd_slab) (rule b)
  ultimately have "same_place s s'"
    using same_place_trans [of s "upd_slab (gc_buffer s) (\<lambda>_. b) s" s'] calm_index calm_place by metis
  moreover have "same_lists s s'" "index_locked s' = index_locked s" by (simp_all add: s' same_lists_def)
  moreover have "cid (slabs s' ! i) = cid (slabs s ! i) \<and> nr_slots (slabs s' ! i) = nr_slots (slabs s ! i) \<and>
        slot_size (slabs s' ! i) = slot_size (slabs s ! i) \<and> block_id (slabs s' ! i) = block_id (slabs s ! i) \<and>
        (i \<noteq> gc_buffer s \<longrightarrow> nr_alloc (slabs s' ! i) = nr_alloc (slabs s ! i) \<and> data (slabs s' ! i) = data (slabs s ! i))" for i
    using bD(5-8) b g by (cases "i = gc_buffer s") (simp_all add: s')
  moreover have "ssd s' = ssd s" by (simp add: s')
  ultimately show ?thesis using l by (simp add: compacting_def)
qed

text \<open>One slab, between locking and unlocking the index.\<close>

definition move_dslab :: "'db env \<Rightarrow> nat \<Rightarrow> 'db kv \<Rightarrow> (unit, 'db kv) outcome" where
  "move_dslab E d s =
     seq (read_dslab E (slabs s ! d) s) (\<lambda>fake s.
     seq (lock_index s) (\<lambda>_ s.
     seq (for_each_slot fake (move_slot E fake (sid (slabs s ! d))) s) (\<lambda>_ s.
     Ret () (unlock_index (upd_slab d (\<lambda>sl. sl\<lparr>nr_used := 0\<rparr>) s)))))"

lemma move_dslabs_Cons:
  "move_dslabs E (d # ds) sz s =
     (if sz + nr_used (slabs s ! d) \<le> int (nr_slots (slabs s ! gc_buffer s)) \<and> cid (slabs s ! d) \<noteq> -1 \<and>
         cid (slabs s ! d) = cid (slabs s ! gc_buffer s)
      then seq (move_dslab E d s) (\<lambda>_ s'. move_dslabs E ds (sz + nr_used (slabs s ! d)) s')
      else Abort (if \<not> sz + nr_used (slabs s ! d) \<le> int (nr_slots (slabs s ! gc_buffer s))
        then ''size <= gc_buffer_->nr_slots''
        else if cid (slabs s ! d) = -1 then ''dslab->cid != -1'' else ''dslab->cid == gc_buffer_->cid''))"
  by (simp add: Let_def move_dslab_def seq_assoc check_def)

definition slab_moved :: "'db env \<Rightarrow> nat \<Rightarrow> 'db kv \<Rightarrow> 'db kv \<Rightarrow> bool" where
  "slab_moved E d s s' \<longleftrightarrow> data_inv E s' \<and> keeps E s s' \<and> compacting s s' \<and> live s' d = {} \<and>
     nr_alloc (slabs s' ! gc_buffer s) = nr_alloc (slabs s ! gc_buffer s) + card (live s d) \<and>
     (\<forall>i. i \<noteq> d \<longrightarrow> i \<noteq> gc_buffer s \<longrightarrow> nr_used (slabs s' ! i) = nr_used (slabs s ! i))"

text \<open>When the loop over the slots is through, the slab is given up and the lock released.\<close>

lemma move_loop_done:
  assumes g: "gc_buffer s < length (slabs s)" "d \<noteq> gc_buffer s" "d < length (slabs s)" and unl: "\<not> index_locked s"
    and inv2: "data_inv E s2" and k2: "keeps E s s2" and b2: "buffer_step (s\<lparr>index_locked := True\<rparr>) s2"
    and empty: "live s2 d = {}" and lo: "\<And>a. a \<noteq> d \<Longrightarrow> a \<noteq> gc_buffer s \<Longrightarrow> live s2 a = live s a"
    and na: "nr_alloc (slabs s2 ! gc_buffer s) = nr_alloc (slabs s ! gc_buffer s) + card (live s d)"
  shows "slab_moved E d s (unlock_index (upd_slab d (\<lambda>sl. sl\<lparr>nr_used := 0\<rparr>) s2))"
proof -
  let ?s1 = "s\<lparr>index_locked := True\<rparr>" and ?s3 = "upd_slab d (\<lambda>sl. sl\<lparr>nr_used := 0\<rparr>) s2"
  have l1: "live ?s1 = live s" by (rule same_data_view(5) [OF locked_same_data])
  have gb1: "gc_buffer ?s1 = gc_buffer s" by (simp add: gc_buffer_def)
  have "live s2 i \<subseteq> live s i" if "i \<noteq> gc_buffer s" for i
    using lo [of i] empty that by (cases "i = d") auto
  then have c2: "compacting ?s1 s2"
    by (intro compacting_buffer_step [OF b2]) (use g gb1 l1 in auto)
  have d2: "d < length (slabs s2)" using c2 g(3) by (simp add: compacting_def same_place_def)
  have s3: "data_inv E ?s3" "keeps E s2 ?s3" using upd_nr_used [OF inv2 d2, of 0] empty by simp_all
  have sd4: "same_data ?s3 (unlock_index ?s3)" unfolding unlock_index_def by (rule locked_same_data)
  have s4: "data_inv E (unlock_index ?s3)" "keeps E ?s3 (unlock_index ?s3)" "live (unlock_index ?s3) = live s2"
    using same_data_inv [OF sd4, of E] s3(1) same_data_keeps [OF sd4] same_data_view(5) [OF sd4] by simp_all
  have "calm s2 ?s3" by (rule calm_nr_used)
  then have c3: "compacting ?s1 ?s3"
    using compacting_trans [OF c2 compacting_calm [of s2 ?s3]] by simp
  have "compacting s (unlock_index ?s3)"
    using compacting_relock [OF c3] unl by (simp add: unlock_index_def)
  moreover have "nr_used (slabs (unlock_index ?s3) ! i) = nr_used (slabs s ! i)" if "i \<noteq> d" "i \<noteq> gc_buffer s" for i
    using buffer_stepD(5) [OF b2] g gb1 that by (simp add: unlock_index_def)
  ultimately show ?thesis
    using empty na s4 keeps_trans [OF k2 keeps_trans [OF s3(2) s4(2)]] g
    by (simp add: slab_moved_def unlock_index_def)
qed

lemma move_dslab_safe:
  assumes inv: "data_inv E s" and fb: "fits_buffer d s"
  shows "safe (\<lambda>s'. data_inv E s' \<and> keeps E s s') (\<lambda>_ s'. slab_moved E d s s') (move_dslab E d s)"
proof -
  have isd: "nr_mslab s \<le> d" "d < length (slabs s)" using fb by (auto simp: fits_buffer_def is_dslab_def)
  have g: "gc_buffer s < length (slabs s)" "d \<noteq> gc_buffer s"
    using gc_buffer_mem [OF data_invD(1) [OF inv]] isd by auto
  let ?fake = "(slabs s ! d)\<lparr>data := slab_data E s d\<rparr>" and ?s1 = "s\<lparr>index_locked := True\<rparr>"
  have sd: "same_data s ?s1" by (rule locked_same_data)
  have inv1: "data_inv E ?s1" using same_data_inv [OF sd] inv by simp
  have k1: "keeps E s ?s1" by (rule same_data_keeps [OF sd])
  have l1: "live ?s1 = live s" by (rule same_data_view(5) [OF sd])
  have fb1: "fits_buffer d ?s1" using fb l1 by (simp add: fits_buffer_def is_dslab_def gc_buffer_def)
  have fk: "(slabs ?s1 ! d)\<lparr>data := slab_data E ?s1 d\<rparr> = ?fake" by (simp add: same_data_view(1) [OF sd])
  have gb1: "gc_buffer ?s1 = gc_buffer s" by (simp add: gc_buffer_def)
  have body: "safe (\<lambda>s'. data_inv E s' \<and> keeps E s s')
      (\<lambda>_ s2. slab_moved E d s (unlock_index (upd_slab d (\<lambda>sl. sl\<lparr>nr_used := 0\<rparr>) s2)))
      (for_each_slot ?fake (move_slot E ?fake d) ?s1)" if unl: "\<not> index_locked s"
  proof (rule safe_mono [OF move_slots_safe [OF inv1 fb1, unfolded fk]])
    show "data_inv E s' \<and> keeps E ?s1 s' \<Longrightarrow> data_inv E s' \<and> keeps E s s'" for s'
      using keeps_trans [OF k1] by blast
    fix s2
    assume q: "move_loop E d ?s1 (nr_alloc (slabs ?s1 ! d)) s2 \<and> live s2 d = {} \<and>
       nr_alloc (slabs s2 ! gc_buffer ?s1) = nr_alloc (slabs ?s1 ! gc_buffer ?s1) + card (live ?s1 d)"
    then show "slab_moved E d s (unlock_index (upd_slab d (\<lambda>sl. sl\<lparr>nr_used := 0\<rparr>) s2))"
      by (intro move_loop_done [OF g isd(2) unl]) (use keeps_trans [OF k1] l1 gb1 in \<open>auto simp: move_loop_def\<close>)
  qed
  have "sid (slabs s ! d) = d" by (rule data_inv_slab(4) [OF inv isd(2)])
  then have "safe (\<lambda>s'. data_inv E s' \<and> keeps E s s') (\<lambda>_ s'. slab_moved E d s s')
     (seq (lock_index s) (\<lambda>_ s. seq (for_each_slot ?fake (move_slot E ?fake (sid (slabs s ! d))) s) (\<lambda>_ s.
     Ret () (unlock_index (upd_slab d (\<lambda>sl. sl\<lparr>nr_used := 0\<rparr>) s)))))"
    using body inv by (simp add: lock_index_def)
  then show ?thesis
    unfolding move_dslab_def safe_seq
    by (intro safe_mono [OF read_dslab_safe [OF data_invD(1) [OF inv] isd]]) (use inv in auto)
qed

lemma hdr_ok_same_class:
  "hdr_ok s a \<Longrightarrow> hdr_ok s b \<Longrightarrow> cid a = cid b \<Longrightarrow> slot_size a = slot_size b \<and> nr_slots a = nr_slots b"
  by (auto simp: hdr_ok_def)

definition slabs_moved :: "'db env \<Rightarrow> nat list \<Rightarrow> 'db kv \<Rightarrow> 'db kv \<Rightarrow> bool" where
  "slabs_moved E ds s s' \<longleftrightarrow> data_inv E s' \<and> keeps E s s' \<and> compacting s s' \<and> (\<forall>d \<in> set ds. live s' d = {}) \<and>
     (\<forall>i. i \<notin> set ds \<longrightarrow> i \<noteq> gc_buffer s \<longrightarrow> nr_used (slabs s' ! i) = nr_used (slabs s ! i))"

lemma slabs_moved_Cons:
  assumes m: "slab_moved E d s s1" and q: "slabs_moved E ds s1 s2" and d: "d \<noteq> gc_buffer s"
  shows "slabs_moved E (d # ds) s s2"
proof -
  have k1: "keeps E s s1" and c1: "compacting s s1" and l1: "live s1 d = {}"
    and u1: "\<And>i. i \<noteq> d \<Longrightarrow> i \<noteq> gc_buffer s \<Longrightarrow> nr_used (slabs s1 ! i) = nr_used (slabs s ! i)"
    using m by (auto simp: slab_moved_def)
  note gb1 = compacting_buffer [OF c1]
  have "live s2 d \<subseteq> live s1 d" using q gb1 d by (simp add: slabs_moved_def compacting_def)
  then show ?thesis
    using q l1 keeps_trans [OF k1] compacting_trans [OF c1] u1 gb1 by (simp add: slabs_moved_def)
qed

text \<open>The objects of the next slab fit, and moving them leaves room for the others.\<close>

definition room_for :: "nat list \<Rightarrow> int \<Rightarrow> int \<Rightarrow> 'db kv \<Rightarrow> bool" where
  "room_for ds C sz s \<longleftrightarrow> distinct ds \<and> (\<forall>d \<in> set ds. is_dslab s d \<and> cid (slabs s ! d) = C) \<and>
     cid (slabs s ! gc_buffer s) = C \<and> int (nr_alloc (slabs s ! gc_buffer s)) \<le> sz \<and>
     sz + (\<Sum>d \<leftarrow> ds. nr_used (slabs s ! d)) \<le> int (nr_slots (slabs s ! gc_buffer s))"

lemma buffer_not_disk:
  assumes "data_inv E s"
  shows "gc_buffer s < length (slabs s)" and "is_dslab s x \<Longrightarrow> x \<noteq> gc_buffer s"
  using gc_buffer_mem [OF data_invD(1) [OF assms]] geom_size(5) [OF data_invD(1) [OF assms]] by (auto simp: is_dslab_def)

lemma room_for_head:
  assumes inv: "data_inv E s" and r: "room_for (d # ds) C sz s"
  shows "fits_buffer d s" and "sz + nr_used (slabs s ! d) \<le> int (nr_slots (slabs s ! gc_buffer s))"
proof -
  have isd: "is_dslab s d" "d < length (slabs s)" using r by (auto simp: room_for_def is_dslab_def)
  have "0 \<le> nr_used (slabs s ! x)" if "x \<in> set ds" for x
    using data_inv_slab(1) [OF inv, of x] r that by (auto simp: room_for_def is_dslab_def hdr_ok_def)
  then have "0 \<le> (\<Sum>x \<leftarrow> ds. nr_used (slabs s ! x))" by (intro sum_list_nonneg) auto
  then show room: "sz + nr_used (slabs s ! d) \<le> int (nr_slots (slabs s ! gc_buffer s))" using r by (simp add: room_for_def)
  have "int (card (live s d)) \<le> nr_used (slabs s ! d)" by (rule data_inv_slab(5) [OF inv isd(2)])
  then show "fits_buffer d s"
    using hdr_ok_same_class [OF data_inv_slab(1) [OF inv buffer_not_disk(1) [OF inv]] data_inv_slab(1) [OF inv isd(2)]]
      r isd room by (simp add: fits_buffer_def room_for_def)
qed

lemma room_for_rest:
  assumes inv: "data_inv E s" and r: "room_for (d # ds) C sz s" and m: "slab_moved E d s s1"
  shows "room_for ds C (sz + nr_used (slabs s ! d)) s1"
proof -
  have c1: "compacting s s1" and a1: "nr_alloc (slabs s1 ! gc_buffer s) = nr_alloc (slabs s ! gc_buffer s) + card (live s d)"
    and u1: "\<And>i. i \<noteq> d \<Longrightarrow> i \<noteq> gc_buffer s \<Longrightarrow> nr_used (slabs s1 ! i) = nr_used (slabs s ! i)"
    using m by (auto simp: slab_moved_def)
  have hd1: "cid (slabs s1 ! i) = cid (slabs s ! i)" "nr_slots (slabs s1 ! i) = nr_slots (slabs s ! i)"
    "is_dslab s1 = is_dslab s" for i
    using c1 by (simp_all add: compacting_def same_place_def is_dslab_def fun_eq_iff)
  have "nr_used (slabs s1 ! x) = nr_used (slabs s ! x)" if "x \<in> set ds" for x
    using r that buffer_not_disk(2) [OF inv, of x] by (intro u1) (auto simp: room_for_def)
  then have "(\<Sum>x \<leftarrow> ds. nr_used (slabs s1 ! x)) = (\<Sum>x \<leftarrow> ds. nr_used (slabs s ! x))" by (intro arg_cong [of _ _ sum_list] map_cong) auto
  moreover have "int (card (live s d)) \<le> nr_used (slabs s ! d)"
    using data_inv_slab(5) [OF inv, of d] r by (simp add: room_for_def is_dslab_def)
  ultimately show ?thesis using r a1 hd1 compacting_buffer [OF c1] by (simp add: room_for_def)
qed

lemma move_dslabs_safe:
  assumes "data_inv E s" and "room_for ds C sz s" and "C \<noteq> -1"
  shows "safe (\<lambda>s'. data_inv E s' \<and> keeps E s s') (\<lambda>_ s'. slabs_moved E ds s s') (move_dslabs E ds sz s)"
  using assms
proof (induction ds arbitrary: s sz)
  case Nil
  then show ?case by (simp add: slabs_moved_def)
next
  case (Cons d ds)
  note inv = Cons.prems(1) and head = room_for_head [OF Cons.prems(1,2)]
  have dg: "d \<noteq> gc_buffer s" using buffer_not_disk(2) [OF inv, of d] Cons.prems(2) by (simp add: room_for_def)
  have rest: "safe (\<lambda>s'. data_inv E s' \<and> keeps E s s') (\<lambda>_ s'. slabs_moved E (d # ds) s s')
      (move_dslabs E ds (sz + nr_used (slabs s ! d)) s1)" if m: "slab_moved E d s s1" for s1
  proof -
    have s1: "data_inv E s1" "keeps E s s1" using m by (simp_all add: slab_moved_def)
    show ?thesis
      by (rule safe_mono [OF Cons.IH [OF s1(1) room_for_rest [OF inv Cons.prems(2) m] Cons.prems(3)]])
        (use keeps_trans [OF s1(2)] slabs_moved_Cons [OF m _ dg] in blast)+
  qed
  have "move_dslabs E (d # ds) sz s = seq (move_dslab E d s) (\<lambda>_ s'. move_dslabs E ds (sz + nr_used (slabs s ! d)) s')"
    unfolding move_dslabs_Cons using head Cons.prems(2,3) by (simp add: room_for_def)
  then show ?case using safe_weaken [OF move_dslab_safe [OF inv head(1)] rest] by simp
qed

subsection \<open>Taking an over-provisioned slab\<close>

lemma mod_add_self_iff:
  fixes b j n :: nat
  assumes "b < n" and "0 < j" and "j \<le> n"
  shows "(b + j) mod n = b \<longleftrightarrow> j = n"
proof -
  consider "b + j < n" | "b + j = n + (b + j - n)" "b + j - n < n" using assms by linarith
  then show ?thesis
  proof cases
    case 1
    then show ?thesis using assms by auto
  next
    case 2
    then have "(b + j) mod n = b + j - n" by (metis mod_add_self1 mod_less)
    then show ?thesis using assms 2 by auto
  qed
qed

lemma take_ops_Some:
  assumes "disk_inv H X s" and "begin0 < nch s" and "next_ops_pool_remove_channel s = (begin0 + j) mod nch s"
    and "j + n = nch s" and "\<exists>i. j \<le> i \<and> i < nch s \<and> items (ops_pool s ! ((begin0 + i) mod nch s)) \<noteq> []"
  shows "\<exists>d s'. take_ops n begin0 s = (Some d, s') \<and> disk_inv (d # H) X s' \<and> list_move s s' \<and>
    ops_pool_size s' = ops_pool_size s - 1 \<and> d \<in> set (members (ops_pool s)) \<and>
    nr_free_dslab s' = nr_free_dslab s \<and> dslab_full s' = dslab_full s \<and> nr_full_dslab s' = nr_full_dslab s \<and>
    placed (d # H) s' = placed H s"
  using assms
proof (induction n arbitrary: j s)
  case 0
  then show ?case by auto
next
  case (Suc n)
  let ?c = "next_ops_pool_remove_channel s"
  let ?s1 = "s\<lparr>next_ops_pool_remove_channel := next_channel s ?c\<rparr>"
  have npos: "0 < nch s" and c: "?c < nch s" using Suc.prems by simp_all
  have p1: "next_channel s ?c = (begin0 + Suc j) mod nch s"
    using Suc.prems(3) by (simp add: next_channel_def nch_def mod_Suc_eq)
  have lm1: "list_move s ?s1" using npos p1 by simp
  show ?case
  proof (cases "items (ops_pool s ! ?c)")
    case Nil
    obtain i where i: "j \<le> i" "i < nch s" "items (ops_pool s ! ((begin0 + i) mod nch s)) \<noteq> []" using Suc.prems(5) by blast
    then have "i \<noteq> j" using Nil Suc.prems(3) by auto
    then have i': "Suc j \<le> i" using i by simp
    have "begin0 \<noteq> (begin0 + Suc j) mod nch s"
      using mod_add_self_iff [OF Suc.prems(2), of "Suc j"] i' i(2) by fastforce
    then have ru: "take_ops (Suc n) begin0 s = take_ops n begin0 ?s1" using Nil p1 by (simp add: Let_def)
    have "\<exists>d s'. take_ops n begin0 ?s1 = (Some d, s') \<and> disk_inv (d # H) X s' \<and> list_move ?s1 s' \<and>
      ops_pool_size s' = ops_pool_size ?s1 - 1 \<and> d \<in> set (members (ops_pool ?s1)) \<and>
      nr_free_dslab s' = nr_free_dslab ?s1 \<and> dslab_full s' = dslab_full ?s1 \<and> nr_full_dslab s' = nr_full_dslab ?s1 \<and>
      placed (d # H) s' = placed H ?s1"
      by (rule Suc.IH [of _ "Suc j"]) (use Suc.prems p1 i i' in auto)
    moreover have "placed H ?s1 = placed H s" by (simp add: placed_def on_lists_def)
    ultimately show ?thesis unfolding ru using list_move_trans [OF lm1] by auto
  next
    case (Cons d ds)
    let ?s2 = "?s1\<lparr>ops_pool := chan_del ?c d (ops_pool s), ops_pool_size := ops_pool_size s - 1\<rparr>"
    have "disk_inv (d # H) X ?s2"
      using take_ops_pool [of H X ?s1 ?c d] Suc.prems(1) c Cons by simp
    moreover have "list_move s ?s2" by (rule list_move_trans [OF lm1]) simp
    moreover have "d \<in> set (members (ops_pool s))" "placed (d # H) ?s2 = placed H s"
      using chans_del(2,3) [OF disk_invD(3) [OF Suc.prems(1)] c, of d] Cons
      by (simp_all add: placed_def on_lists_def)
    ultimately show ?thesis using Cons by (simp add: Let_def)
  qed
qed

lemma take_ops_ok:
  assumes di: "disk_inv H X s" and n: "ptrs_ok s" and pos: "0 < ops_pool_size s"
  shows "\<exists>d s'. take_ops (nat (nr_channels (ssd s))) (next_ops_pool_remove_channel s) s = (Some d, s') \<and>
    disk_inv (d # H) X s' \<and> list_move s s' \<and> ops_pool_size s' = ops_pool_size s - 1 \<and>
    d \<in> set (members (ops_pool s)) \<and> nr_free_dslab s' = nr_free_dslab s \<and> dslab_full s' = dslab_full s \<and>
    nr_full_dslab s' = nr_full_dslab s \<and> placed (d # H) s' = placed H s"
proof -
  let ?p = "next_ops_pool_remove_channel s"
  have p: "?p < nch s" using n by (simp add: ptrs_ok_def)
  have "members (ops_pool s) \<noteq> []"
    using pos total_size_members [OF disk_invD(3) [OF di]] disk_invD(5) [OF di] by auto
  then obtain j where j: "items (ops_pool s ! ((?p + j) mod nch s)) \<noteq> []"
    using next_nonempty [OF disk_invD(3) [OF di]] by blast
  have "(?p + j mod nch s) mod nch s = (?p + j) mod nch s" by (simp add: mod_add_right_eq)
  moreover have "j mod nch s < nch s" using p by (intro mod_less_divisor) simp
  ultimately have ex: "\<exists>i. 0 \<le> i \<and> i < nch s \<and> items (ops_pool s ! ((?p + i) mod nch s)) \<noteq> []"
    using j by (intro exI [of _ "j mod nch s"]) simp
  show ?thesis
    using take_ops_Some [OF di p _ _ ex, of "nch s"] p by (simp add: nch_def)
qed

subsection \<open>Taking the dropped slabs off the lists of full slabs\<close>

text \<open>The free list of a collection: slabs by channel; its size fields are not maintained.\<close>

definition chan_items :: "'db kv \<Rightarrow> slist list \<Rightarrow> bool" where
  "chan_items s ls \<longleftrightarrow> length ls = nch s \<and> (\<forall>c < nch s. \<forall>d \<in> set (items (ls ! c)). slab_channel s d = c)"

lemma chan_items_place: "same_place s s' \<Longrightarrow> chan_items s' ls = chan_items s ls"
  by (simp add: chan_items_def same_place_def)

lemma chan_items_add:
  assumes "chan_items s ls" and "slab_channel s d < nch s"
  shows "chan_items s (chan_add (slab_channel s d) d ls)"
    and "mset (members (chan_add (slab_channel s d) d ls)) = add_mset d (mset (members ls))"
    and "total_size (chan_add (slab_channel s d) d ls) = total_size ls + 1"
proof -
  have c: "slab_channel s d < length ls" using assms by (simp add: chan_items_def)
  show "chan_items s (chan_add (slab_channel s d) d ls)"
    using assms by (auto simp: chan_items_def chan_add_def nth_list_update)
  show "mset (members (chan_add (slab_channel s d) d ls)) = add_mset d (mset (members ls))"
    using members_update [OF c, of "slist_add d (ls ! slab_channel s d)"] by (auto simp: chan_add_def)
  show "total_size (chan_add (slab_channel s d) d ls) = total_size ls + 1"
    using sum_list_update_int [OF c, of lsize "slist_add d (ls ! slab_channel s d)"]
    by (simp add: total_size_def chan_add_def)
qed

text \<open>One slab off the full list and onto the collected ones.\<close>

definition unlink_one :: "nat \<Rightarrow> 'db kv \<Rightarrow> 'db kv" where
  "unlink_one d s = s\<lparr>dslab_full := chan_del (slab_channel s d) d (dslab_full s), nr_full_dslab := nr_full_dslab s - 1\<rparr>"

lemma unlink_dropped_Cons:
  "unlink_dropped (d # ds) fl s = unlink_dropped ds (chan_add (slab_channel s d) d fl) (unlink_one d s)"
  by (simp add: unlink_one_def Let_def)

lemma unlink_one_fields [simp]:
  "list_move s (unlink_one d s)" "nr_full_dslab (unlink_one d s) = nr_full_dslab s - 1"
  "ops_pool_size (unlink_one d s) = ops_pool_size s" "nr_free_dslab (unlink_one d s) = nr_free_dslab s"
  "dslab_free (unlink_one d s) = dslab_free s" "ops_pool (unlink_one d s) = ops_pool s"
  by (simp_all add: unlink_one_def)

lemma unlink_one_ok:
  assumes di: "disk_inv (members fl @ H) X s" and ci: "chan_items s fl" and dm: "d \<in> set (members (dslab_full s))"
  defines "fl1 \<equiv> chan_add (slab_channel s d) d fl"
  shows "disk_inv (members fl1 @ H) X (unlink_one d s)" "chan_items (unlink_one d s) fl1"
    "mset (members fl1) = add_mset d (mset (members fl))" "total_size fl1 = total_size fl + 1"
    "mset (members (dslab_full s)) = add_mset d (mset (members (dslab_full (unlink_one d s))))"
proof -
  note mc = members_chan [OF disk_invD(2) [OF di] dm] and ca = chan_items_add [OF ci, of d, folded fl1_def]
  show "chan_items (unlink_one d s) fl1" using ca(1) mc by (simp add: chan_items_def unlink_one_def)
  show fl: "mset (members fl1) = add_mset d (mset (members fl))" "total_size fl1 = total_size fl + 1"
    using ca(2,3) mc by blast+
  have "disk_inv (d # members fl @ H) X (unlink_one d s)" unfolding unlink_one_def using take_full [OF di] mc by blast
  then show "disk_inv (members fl1 @ H) X (unlink_one d s)" using fl(1) by (elim disk_inv_perm) simp
  show "mset (members (dslab_full s)) = add_mset d (mset (members (dslab_full (unlink_one d s))))"
    using chans_del(2) [OF disk_invD(2) [OF di]] mc by (simp add: unlink_one_def)
qed

lemma unlink_dropped_ok:
  assumes "unlink_dropped ds fl s = (fl', s')" and "disk_inv (members fl @ H) X s" and "chan_items s fl"
    and "distinct ds" and "set ds \<subseteq> set (members (dslab_full s))"
  shows "disk_inv (members fl' @ H) X s' \<and> list_move s s' \<and> chan_items s' fl' \<and>
    mset (members fl') = mset ds + mset (members fl) \<and>
    mset (members (dslab_full s)) = mset ds + mset (members (dslab_full s')) \<and>
    total_size fl' = total_size fl + int (length ds) \<and> nr_full_dslab s' = nr_full_dslab s - int (length ds) \<and>
    ops_pool_size s' = ops_pool_size s \<and> nr_free_dslab s' = nr_free_dslab s \<and>
    dslab_free s' = dslab_free s \<and> ops_pool s' = ops_pool s"
  using assms
proof (induction ds arbitrary: fl s)
  case Nil
  then show ?case by simp
next
  case (Cons d ds)
  let ?fl = "chan_add (slab_channel s d) d fl" and ?s1 = "unlink_one d s"
  have dm: "d \<in> set (members (dslab_full s))" using Cons.prems(5) by simp
  note u1 = unlink_one_ok [OF Cons.prems(2,3) dm]
  have "set ds \<subseteq> set (members (dslab_full ?s1))"
  proof
    fix x assume x: "x \<in> set ds"
    then have "x \<noteq> d" "x \<in># mset (members (dslab_full s))" using Cons.prems(4,5) by auto
    then show "x \<in> set (members (dslab_full ?s1))" unfolding u1(5) by simp
  qed
  from Cons.IH [OF Cons.prems(1) [unfolded unlink_dropped_Cons] u1(1,2) _ this] Cons.prems(4)
  have IH: "disk_inv (members fl' @ H) X s' \<and> list_move ?s1 s' \<and> chan_items s' fl' \<and>
    mset (members fl') = mset ds + mset (members ?fl) \<and>
    mset (members (dslab_full ?s1)) = mset ds + mset (members (dslab_full s')) \<and>
    total_size fl' = total_size ?fl + int (length ds) \<and>
    nr_full_dslab s' = nr_full_dslab ?s1 - int (length ds) \<and>
    ops_pool_size s' = ops_pool_size ?s1 \<and> nr_free_dslab s' = nr_free_dslab ?s1 \<and>
    dslab_free s' = dslab_free ?s1 \<and> ops_pool s' = ops_pool ?s1" by simp
  show ?case
    using IH u1(3-5) list_move_trans [OF unlink_one_fields(1) [of s d], of s'] by simp
qed

subsection \<open>Compacting a batch of slabs\<close>

text \<open>
  The state of a normal collection: \<open>fl\<close> holds the slabs emptied so far, the buffer is empty.
\<close>

definition gc_state :: "'db env \<Rightarrow> slist list \<Rightarrow> 'db kv \<Rightarrow> bool" where
  "gc_state E fl s \<longleftrightarrow> data_inv E s \<and> disk_inv (members fl) {} s \<and> mem_inv [] s \<and> ptrs_ok s \<and>
     live s (gc_buffer s) = {} \<and> chan_items s fl \<and> (\<forall>d \<in> set (members fl). live s d = {})"

text \<open>A batch: full slabs of one class whose live objects fit into one slab.\<close>

definition batch_ok :: "nat list \<Rightarrow> 'db kv \<Rightarrow> bool" where
  "batch_ok td s \<longleftrightarrow> td \<noteq> [] \<and> distinct td \<and> set td \<subseteq> set (members (dslab_full s)) \<and>
     (\<forall>d \<in> set td. cid (slabs s ! d) = cid (slabs s ! hd td)) \<and> cid (slabs s ! hd td) \<noteq> -1 \<and>
     (\<Sum>d \<leftarrow> td. nr_used (slabs s ! d)) \<le> int (nr_slots (slabs s ! hd td))"

text \<open>Everything before the objects are moved.\<close>

definition gc_header :: "slab \<Rightarrow> slab \<Rightarrow> slab" where
  "gc_header first sl = (slab_reset sl)\<lparr>slot_size := slot_size first, nr_slots := nr_slots first, cid := cid first\<rparr>"

definition prepared :: "'db env \<Rightarrow> nat list \<Rightarrow> nat \<Rightarrow> slist list \<Rightarrow> slist list \<Rightarrow> 'db kv \<Rightarrow> 'db kv \<Rightarrow> bool" where
  "prepared E td ops fl fl' s s' \<longleftrightarrow> data_inv E s' \<and> keeps E s s' \<and> disk_inv (members fl') {ops} s' \<and> mem_inv [] s' \<and>
     same_place s s' \<and> live s' = live s \<and> chan_items s' fl' \<and> is_dslab s ops \<and> nr_alloc (slabs s' ! ops) = 0 \<and>
     ops \<in> set (members (ops_pool s)) \<and>
     slabs s' ! gc_buffer s = gc_header (slabs s ! hd td) (slabs s ! gc_buffer s) \<and>
     (\<forall>i. i \<noteq> ops \<longrightarrow> i \<noteq> gc_buffer s \<longrightarrow> slabs s' ! i = slabs s ! i) \<and>
     mset (members fl') = mset td + mset (members fl) \<and>
     add_mset ops (mset (members (dslab_full s))) = mset td + mset (members (dslab_full s')) \<and>
     placed (members fl') s' = placed (members fl) s \<and>
     total_size fl' = total_size fl + int (length td) \<and> nr_full_dslab s' = nr_full_dslab s - int (length td) \<and>
     ops_pool_size s' = ops_pool_size s - 1 \<and> nr_free_dslab s' = nr_free_dslab s \<and>
     mslab_free s' = mslab_free s \<and> mslab_full s' = mslab_full s \<and> slab_class_table s' = slab_class_table s \<and>
     max_ops_pool_size s' = max_ops_pool_size s \<and> index_locked s' = index_locked s \<and> ssd s' = ssd s"

definition ops_taken :: "'db env \<Rightarrow> slist list \<Rightarrow> nat \<Rightarrow> 'db kv \<Rightarrow> 'db kv \<Rightarrow> bool" where
  "ops_taken E fl ops s s' \<longleftrightarrow> data_inv E s' \<and> keeps E s s' \<and> disk_inv (members fl) {ops} s' \<and> mem_inv [] s' \<and>
     same_place s s' \<and> live s' = live s \<and> is_dslab s ops \<and> nr_alloc (slabs s' ! ops) = 0 \<and>
     (\<forall>i. i \<noteq> ops \<longrightarrow> slabs s' ! i = slabs s ! i) \<and> ops \<in> set (members (ops_pool s)) \<and>
     mset (members (dslab_full s')) = add_mset ops (mset (members (dslab_full s))) \<and>
     placed (members fl) s' = placed (members fl) s \<and> ops_pool_size s' = ops_pool_size s - 1 \<and> nr_free_dslab s' = nr_free_dslab s \<and> nr_full_dslab s' = nr_full_dslab s \<and>
     mslab_free s' = mslab_free s \<and> mslab_full s' = mslab_full s \<and> slab_class_table s' = slab_class_table s \<and>
     max_ops_pool_size s' = max_ops_pool_size s \<and> index_locked s' = index_locked s \<and> ssd s' = ssd s"

lemma gc_dslabs_ops:
  assumes st: "gc_state E fl s" and pos: "0 < ops_pool_size s"
  shows "\<exists>ops s1. take_ops (nat (nr_channels (ssd s))) (next_ops_pool_remove_channel s) s = (Some ops, s1) \<and>
    ops_taken E fl ops s ((upd_slab ops slab_reset s1)\<lparr>dslab_full :=
      chan_add (slab_channel (upd_slab ops slab_reset s1) ops) ops (dslab_full s1)\<rparr>)"
proof -
  have di: "disk_inv (members fl) {} s" and inv: "data_inv E s" and mi: "mem_inv [] s" and pt: "ptrs_ok s"
    using st by (simp_all add: gc_state_def)
  obtain ops s1 where tk: "take_ops (nat (nr_channels (ssd s))) (next_ops_pool_remove_channel s) s = (Some ops, s1)"
    and di1: "disk_inv (ops # members fl) {} s1" and lm1: "list_move s s1" and sz1: "ops_pool_size s1 = ops_pool_size s - 1"
    and om: "ops \<in> set (members (ops_pool s))" and f1: "nr_free_dslab s1 = nr_free_dslab s" "dslab_full s1 = dslab_full s"
      "nr_full_dslab s1 = nr_full_dslab s" and pl1: "placed (ops # members fl) s1 = placed (members fl) s"
    using take_ops_ok [OF di pt pos] by blast
  note D = disk_invD(7) [OF di om]
  have inv1: "data_inv E s1" "keeps E s s1" "slabs s1 = slabs s" using list_move_data(1-3) [OF lm1] inv by simp_all
  have mi1: "mem_inv [] s1" using list_move_mem [OF lm1] mi by simp
  have l1: "live s1 = live s" by (rule list_move_live [OF lm1])
  have un1: "live s1 ops = {}" using live_empty_alloc [OF inv1(1)] D inv1(3) by simp
  note rh = reset_held [OF inv1(1) di1 mi1 un1]
  let ?s2 = "upd_slab ops slab_reset s1"
  let ?s3 = "?s2\<lparr>dslab_full := chan_add (slab_channel ?s2 ops) ops (dslab_full s1)\<rparr>"
  have lm3: "list_move ?s2 ?s3" by simp
  have g2: "geom E ?s2" by (rule data_invD(1) [OF rh(1)])
  have di2: "disk_inv (ops # members fl) {ops} ?s2" by (rule disk_inv_weaken [OF rh(3)]) simp
  have "disk_inv (members fl) {ops} (?s2\<lparr>dslab_full := chan_add (slab_channel ?s2 ops) ops (dslab_full ?s2),
      nr_full_dslab := nr_full_dslab ?s2\<rparr>)"
    by (rule give_full [OF g2 di2]) simp
  then have di3: "disk_inv (members fl) {ops} ?s3" by (simp add: disk_inv_def placed_def on_lists_def)
  have ch: "slab_channel ?s2 ops < nch ?s2" using slab_channel_less [OF g2] disk_invD(10) [OF di2] by simp
  have full3: "mset (members (dslab_full ?s3)) = add_mset ops (mset (members (dslab_full s)))"
    using chans_add(2) [OF disk_invD(2) [OF di2] ch] f1 by simp
  have pl3: "placed (members fl) ?s3 = placed (members fl) s"
    using pl1 full3 f1(2) by (simp add: placed_def on_lists_def)
  have "same_place s ?s2" using same_place_trans [of s s1 ?s2] rh(5) lm1 by (simp add: list_move_def)
  then have sp3: "same_place s ?s3" using same_place_trans [of s ?s2 ?s3] lm3 by (simp add: list_move_def)
  have d3: "data_inv E ?s3" "keeps E s ?s3"
    using list_move_data(1,2) [OF lm3, of E] rh(1,2) inv1(2) keeps_trans by blast+
  have fr: "mslab_free s1 = mslab_free s" "mslab_full s1 = mslab_full s" "slab_class_table s1 = slab_class_table s"
    "max_ops_pool_size s1 = max_ops_pool_size s" "index_locked s1 = index_locked s" "ssd s1 = ssd s"
    using lm1 by (simp_all add: list_move_def same_data_def)
  have "ops_taken E fl ops s ?s3"
    unfolding ops_taken_def
    by (intro conjI)
      (use d3 di3 sp3 om full3 pl3 list_move_mem [OF lm3, of "[]"] rh list_move_live [OF lm3] l1 D inv1 sz1 f1 fr
        in simp_all)
  with tk show ?thesis by blast
qed

definition gc_rest :: "'db env \<Rightarrow> nat list \<Rightarrow> nat \<Rightarrow> nat \<Rightarrow> slist list \<Rightarrow> 'db kv \<Rightarrow> (slist list, 'db kv) outcome" where
  "gc_rest E td g ops fl' s =
     seq (move_dslabs E td 0 s) (\<lambda>_ s.
     seq (check (cid (slabs s ! g) \<noteq> -1) ''gc_buffer_->cid != -1'' s) (\<lambda>_ s.
     seq (flush_mslab_to_dslab E g ops s) (\<lambda>_ s.
     seq (lock_index s) (\<lambda>_ s.
     seq (modify_index_to E g ops s) (\<lambda>_ s.
     Ret fl' (unlock_index s))))))"

lemma gc_header_ok:
  "hdr_ok s first \<Longrightarrow> hdr_ok s (gc_header first sl)" "keeps_place (gc_header first)"
  "nr_alloc (gc_header first sl) = 0" "cid (gc_header first sl) = cid first" "block_id (gc_header first sl) = block_id sl"
  "nr_slots (gc_header first sl) = nr_slots first"
  by (auto simp: gc_header_def slab_reset_def hdr_ok_def keeps_place_def)

lemma batch_slabs:
  assumes st: "gc_state E fl s" and b: "batch_ok td s" and ops: "ops \<in> set (members (ops_pool s))" and d: "d \<in> set td"
  shows "is_dslab s d" "d \<noteq> ops" "d \<noteq> gc_buffer s" "cid (slabs s ! d) = cid (slabs s ! hd td)"
proof -
  have di: "disk_inv (members fl) {} s" and g: "geom E s" using st by (simp_all add: gc_state_def data_inv_def)
  have m: "d \<in> set (members (dslab_full s))" using b d unfolding batch_ok_def by blast
  show isd: "is_dslab s d" by (rule disk_invD(8) [OF di m])
  show "d \<noteq> ops" using disk_invD(7) [OF di ops] disk_invD(9) [OF di m] by auto
  show "d \<noteq> gc_buffer s" using gc_buffer_mem [OF g] isd by (auto simp: is_dslab_def)
  show "cid (slabs s ! d) = cid (slabs s ! hd td)" using b d unfolding batch_ok_def by blast
qed

text \<open>The batch leaves the lists of full slabs.\<close>

lemma prepare_unlink:
  assumes st: "gc_state E fl s" and b: "batch_ok td s" and ot: "ops_taken E fl ops s s3" and ul: "unlink_dropped td fl s3 = (fl', s4)"
  shows "disk_inv (members fl') {ops} s4 \<and> list_move s3 s4 \<and> chan_items s4 fl' \<and>
      mset (members fl') = mset td + mset (members fl) \<and>
      mset (members (dslab_full s3)) = mset td + mset (members (dslab_full s4)) \<and>
      total_size fl' = total_size fl + int (length td) \<and> nr_full_dslab s4 = nr_full_dslab s3 - int (length td) \<and>
      ops_pool_size s4 = ops_pool_size s3 \<and> nr_free_dslab s4 = nr_free_dslab s3 \<and>
      dslab_free s4 = dslab_free s3 \<and> ops_pool s4 = ops_pool s3"
    and "same_place s s4" and "gc_buffer s4 = gc_buffer s" and "live s4 = live s" and "slabs s4 = slabs s3"
    and "data_inv E s4" and "keeps E s s4" and "mem_inv [] s4"
proof -
  have p: "data_inv E s3" "keeps E s s3" "disk_inv (members fl @ []) {ops} s3" "mem_inv [] s3" "same_place s s3" "live s3 = live s"
    and full: "mset (members (dslab_full s3)) = add_mset ops (mset (members (dslab_full s)))"
    using ot by (simp_all add: ops_taken_def)
  have ci3: "chan_items s3 fl" using st chan_items_place [OF p(5)] by (simp add: gc_state_def)
  have "set_mset (mset (members (dslab_full s3))) = insert ops (set (members (dslab_full s)))" unfolding full by simp
  then have tdf3: "set td \<subseteq> set (members (dslab_full s3))" and td: "distinct td" using b by (auto simp: batch_ok_def)
  show u: "disk_inv (members fl') {ops} s4 \<and> list_move s3 s4 \<and> chan_items s4 fl' \<and>
      mset (members fl') = mset td + mset (members fl) \<and>
      mset (members (dslab_full s3)) = mset td + mset (members (dslab_full s4)) \<and>
      total_size fl' = total_size fl + int (length td) \<and> nr_full_dslab s4 = nr_full_dslab s3 - int (length td) \<and>
      ops_pool_size s4 = ops_pool_size s3 \<and> nr_free_dslab s4 = nr_free_dslab s3 \<and>
      dslab_free s4 = dslab_free s3 \<and> ops_pool s4 = ops_pool s3"
    using unlink_dropped_ok [OF ul p(3) ci3 td tdf3] by simp
  then have lm: "list_move s3 s4" by simp
  show "slabs s4 = slabs s3" by (rule list_move_data(3) [OF lm])
  show "data_inv E s4" "keeps E s s4" using list_move_data(1,2) [OF lm] p(1) keeps_trans [OF p(2)] by blast+
  show "live s4 = live s" using list_move_live [OF lm] p(6) by simp
  show "mem_inv [] s4" using list_move_mem [OF lm] p(4) by simp
  show sp: "same_place s s4" using same_place_trans [OF p(5)] lm by (simp add: list_move_def)
  show "gc_buffer s4 = gc_buffer s" using sp by (simp add: same_place_def gc_buffer_def)
qed

text \<open>The buffer gets the header of the class of the batch.\<close>

lemma prepare_header:
  assumes st: "gc_state E fl s" and b: "batch_ok td s" and ot: "ops_taken E fl ops s s3" and ul: "unlink_dropped td fl s3 = (fl', s4)"
  defines "s5 \<equiv> upd_slab (gc_buffer s) (gc_header (slabs s4 ! hd td)) s4"
  shows "data_inv E s5" and "keeps E s s5" and "disk_inv (members fl') {ops} s5" and "mem_inv [] s5"
    and "slabs s5 ! gc_buffer s = gc_header (slabs s ! hd td) (slabs s ! gc_buffer s)" and "gc_buffer s \<noteq> ops"
proof -
  let ?g = "gc_buffer s" and ?f = "gc_header (slabs s4 ! hd td)"
  note u = prepare_unlink [OF st b ot ul]
  have ops: "ops \<in> set (members (ops_pool s))" "is_dslab s ops" and oth: "\<And>i. i \<noteq> ops \<Longrightarrow> slabs s3 ! i = slabs s ! i"
    using ot by (simp_all add: ops_taken_def)
  have inv: "data_inv E s" and gl: "live s ?g = {}" using st by (simp_all add: gc_state_def)
  have "hd td \<in> set td" using b by (simp add: batch_ok_def)
  note hd = batch_slabs [OF st b ops(1) this]
  show go: "?g \<noteq> ops" using buffer_not_disk(2) [OF inv ops(2)] by simp
  have g: "?g < length (slabs s4)" "?g < nr_mslab s4"
    using buffer_not_disk(1) [OF u(6)] gc_buffer_mem [OF data_invD(1) [OF u(6)]] u(3) by simp_all
  have gd: "\<not> is_dslab s4 ?g" using g(2) by (simp add: is_dslab_def)
  have h4: "hdr_ok s4 (?f (slabs s4 ! ?g))"
    using gc_header_ok(1) data_inv_slab(1) [OF u(6), of "hd td"] hd(1) u(2) by (simp add: same_place_def is_dslab_def)
  note up = upd_unused_slab [OF u(6) g(1) gc_header_ok(2) _ _ h4, folded s5_def]
  show "data_inv E s5" by (rule up(1)) (use gl u(4) gc_header_ok in simp_all)
  have "keeps E s4 s5" by (rule up(2)) (use gl u(4) gc_header_ok in simp_all)
  then show "keeps E s s5" using keeps_trans [OF u(7)] by blast
  have di4: "disk_inv (members fl') {ops} s4" using u(1) by simp
  show "disk_inv (members fl') {ops} s5"
    unfolding s5_def by (rule disk_inv_upd [OF di4]) (use disk_invD(6,7,8) [OF di4] gd gc_header_ok in auto)
  show "mem_inv [] s5"
    unfolding s5_def by (rule mem_inv_upd [OF u(8)]) (use mem_lists_dslab [OF u(8)] u(3) gc_header_ok in auto)
  show "slabs s5 ! ?g = gc_header (slabs s ! hd td) (slabs s ! ?g)"
    using g go hd(2) u(5) oth by (simp add: s5_def)
qed

lemma gc_dslabs_prepare:
  assumes st: "gc_state E fl s" and pos: "0 < ops_pool_size s" and b: "batch_ok td s"
  shows "\<exists>ops fl' s5. prepared E td ops fl fl' s s5 \<and> gc_dslabs E td fl s = gc_rest E td (gc_buffer s) ops fl' s5"
proof -
  obtain ops s1 where tk: "take_ops (nat (nr_channels (ssd s))) (next_ops_pool_remove_channel s) s = (Some ops, s1)"
    and ot': "ops_taken E fl ops s ((upd_slab ops slab_reset s1)\<lparr>dslab_full :=
      chan_add (slab_channel (upd_slab ops slab_reset s1) ops) ops (dslab_full s1)\<rparr>)"
    using gc_dslabs_ops [OF st pos] by blast
  define s3 where s3: "s3 = (upd_slab ops slab_reset s1)\<lparr>dslab_full :=
      chan_add (slab_channel (upd_slab ops slab_reset s1) ops) ops (dslab_full s1)\<rparr>"
  have ot: "ops_taken E fl ops s s3" unfolding s3 by (rule ot')
  obtain fl' s4 where ul: "unlink_dropped td fl s3 = (fl', s4)" by (cases "unlink_dropped td fl s3") auto
  note u = prepare_unlink [OF st b ot ul] and h = prepare_header [OF st b ot ul]
  let ?s5 = "upd_slab (gc_buffer s) (gc_header (slabs s4 ! hd td)) s4"
  have lm: "list_move s3 s4" and pl: "placed (members fl) s3 = placed (members fl) s" using u(1) ot by (simp_all add: ops_taken_def)
  have sp5: "same_place s ?s5" using same_place_trans [OF u(2) same_place_upd_slab] gc_header_ok(5) by blast
  have "chan_items ?s5 fl'" using u(1) chan_items_place [of s4 ?s5] same_place_upd_slab gc_header_ok(5) by metis
  moreover have "placed (members fl') ?s5 = placed (members fl) s"
    using u(1) pl [symmetric] by (simp add: placed_def on_lists_def)
  moreover have "\<forall>i. i \<noteq> ops \<longrightarrow> i \<noteq> gc_buffer s \<longrightarrow> slabs ?s5 ! i = slabs s ! i" "nr_alloc (slabs ?s5 ! ops) = 0"
    using u(5) ot h(6) by (simp_all add: ops_taken_def)
  ultimately have "prepared E td ops fl fl' s ?s5"
    unfolding prepared_def using u(1,4) h(1-5) sp5 lm ot by (simp add: list_move_def same_data_def ops_taken_def)
  moreover have "td ! 0 = hd td" using b by (simp add: batch_ok_def hd_conv_nth)
  then have "gc_dslabs E td fl s = gc_rest E td (gc_buffer s) ops fl' ?s5"
    using tk ul s3 u(3) by (simp add: gc_dslabs_def gc_rest_def Let_def gc_header_def [abs_def])
  ultimately show ?thesis by blast
qed

text \<open>What a compacted batch leaves behind.\<close>

definition batch_done :: "'db env \<Rightarrow> nat list \<Rightarrow> slist list \<Rightarrow> slist list \<Rightarrow> 'db kv \<Rightarrow> 'db kv \<Rightarrow> bool" where
  "batch_done E td fl fl' s s' \<longleftrightarrow> gc_state E fl' s' \<and> keeps E s s' \<and> same_place s s' \<and>
     mset (members fl') = mset td + mset (members fl) \<and> total_size fl' = total_size fl + int (length td) \<and>
     placed (members fl') s' = placed (members fl) s \<and> ops_pool_size s' = ops_pool_size s - 1 \<and> nr_free_dslab s' = nr_free_dslab s \<and>
     nr_full_dslab s' = nr_full_dslab s - int (length td) \<and>
     int (length (members (dslab_full s'))) = int (length (members (dslab_full s))) - int (length td) + 1 \<and>
     mslab_free s' = mslab_free s \<and> mslab_full s' = mslab_full s \<and> slab_class_table s' = slab_class_table s \<and>
     max_ops_pool_size s' = max_ops_pool_size s \<and> index_locked s' = index_locked s \<and>
     apart E (insert (gc_buffer s) (set_mset (placed (members fl) s))) s s' \<and>
     (\<forall>i \<in> set (members (dslab_full s)) - set td. i \<in> set (members (dslab_full s')) \<and>
        cid (slabs s' ! i) = cid (slabs s ! i) \<and> nr_used (slabs s' ! i) = nr_used (slabs s ! i) \<and>
        nr_slots (slabs s' ! i) = nr_slots (slabs s ! i))"

lemma compacting_disk:
  assumes "compacting s s'" and "geom E s" and "disk_inv H X s"
  shows "disk_inv H X s'"
proof (rule disk_inv_frame [OF assms(3)])
  show "same_place s s'" "same_lists s s'" using assms(1) by (simp_all add: compacting_def)
  have g: "is_dslab s d \<Longrightarrow> d \<noteq> gc_buffer s" for d
    using gc_buffer_mem [OF assms(2)] by (auto simp: is_dslab_def)
  fix d
  show "nr_alloc (slabs s' ! d) = 0 \<and> cid (slabs s' ! d) = -1"
    if "d \<in> set (members (dslab_free s)) \<union> set (members (ops_pool s))"
    using that disk_invD(6,7) [OF assms(3)] g [of d] assms(1) by (auto simp: compacting_def)
  show "cid (slabs s' ! d) \<noteq> -1" if "d \<in> set (members (dslab_full s))" "d \<notin> X"
    using disk_invD(9) [OF assms(3) that] assms(1) by (simp add: compacting_def)
qed

lemma compacting_mem:
  assumes "compacting s s'" and "mem_inv H s"
  shows "mem_inv H s'"
proof (rule mem_inv_frame [OF assms(2)])
  show "same_place s s'" "same_lists s s'" using assms(1) by (simp_all add: compacting_def)
  fix m assume "m \<in># mem_lists s"
  then have "m \<noteq> gc_buffer s" using mem_lists_dslab [OF assms(2)] by blast
  then show "nr_alloc (slabs s' ! m) = nr_alloc (slabs s ! m) \<and> cid (slabs s' ! m) = cid (slabs s ! m) \<and>
      nr_slots (slabs s' ! m) = nr_slots (slabs s ! m)" using assms(1) by (simp add: compacting_def)
qed

text \<open>The end of a batch: the buffer is written to the over-provisioned slab and the index follows.\<close>

lemma gc_flush_safe:
  assumes inv: "data_inv E s" and di: "disk_inv H {ops} s" and mi: "mem_inv [] s"
    and ops: "is_dslab s ops" "nr_alloc (slabs s ! ops) = 0" "ops \<notin> set (members (dslab_free s))" "ops \<notin> set (members (ops_pool s))"
    and g: "cid (slabs s ! gc_buffer s) \<noteq> -1"
  shows "safe (\<lambda>s'. data_inv E s' \<and> keeps E s s')
    (\<lambda>_ s1. safe (\<lambda>s'. data_inv E s' \<and> keeps E s s')
      (\<lambda>_ s2. safe (\<lambda>s'. data_inv E s' \<and> keeps E s s')
        (\<lambda>_ s3. moved_out E (gc_buffer s) ops s (unlock_index s3) \<and> disk_inv H {} (unlock_index s3) \<and>
           mem_inv [] (unlock_index s3))
        (modify_index_to E (gc_buffer s) ops s2)) (lock_index s1))
    (flush_mslab_to_dslab E (gc_buffer s) ops s)"
proof -
  note gm = gc_buffer_mem [OF data_invD(1) [OF inv]]
  have fin: "moved_out E (gc_buffer s) ops s t \<and> disk_inv H {} t \<and> mem_inv [] t"
    if "moved_out E (gc_buffer s) ops s t" for t
    using that moved_out_disk [OF that di ops(3,4) _ g] moved_out_mem [OF that mi] mem_lists_dslab [OF mi] ops(1)
    by blast
  have "safe (\<lambda>s'. data_inv E s' \<and> keeps E s s')
    (\<lambda>_ s1. safe (\<lambda>s'. data_inv E s' \<and> keeps E s s')
      (\<lambda>_ s2. safe (\<lambda>s'. data_inv E s' \<and> keeps E s s')
        (\<lambda>_ s3. moved_out E (gc_buffer s) ops s (unlock_index s3))
        (modify_index_to E (gc_buffer s) ops s2)) (lock_index s1))
    (flush_mslab_to_dslab E (gc_buffer s) ops s)"
    by (rule safe_mono [OF flush_mslab_to_dslab_safe [OF inv gm _ _ ops(2)]])
      (use ops(1) relocate_safe [OF inv gm ops(1,2)] in \<open>auto simp: is_dslab_def\<close>)
  then show ?thesis by (rule safe_mono3) (use fin in blast)+
qed

lemma gc_move_safe:
  assumes st: "gc_state E fl s" and b: "batch_ok td s" and p: "prepared E td ops fl fl' s s5"
  shows "safe (\<lambda>s'. data_inv E s' \<and> keeps E s s') (\<lambda>_ s6. slabs_moved E td s5 s6) (move_dslabs E td 0 s5)"
proof -
  let ?g = "gc_buffer s"
  have ops: "ops \<in> set (members (ops_pool s))" and sp: "same_place s s5" and k5: "keeps E s s5" and inv5: "data_inv E s5"
    and gh: "slabs s5 ! ?g = gc_header (slabs s ! hd td) (slabs s ! ?g)"
    and oth: "\<And>i. i \<noteq> ops \<Longrightarrow> i \<noteq> ?g \<Longrightarrow> slabs s5 ! i = slabs s ! i"
    using p by (simp_all add: prepared_def)
  have gb: "gc_buffer s5 = ?g" using sp by (simp add: same_place_def gc_buffer_def)
  note bs = batch_slabs [OF st b ops]
  have td: "slabs s5 ! d = slabs s ! d" if "d \<in> set td" for d using oth bs that by blast
  then have "(\<Sum>d \<leftarrow> td. nr_used (slabs s5 ! d)) = (\<Sum>d \<leftarrow> td. nr_used (slabs s ! d))"
    by (intro arg_cong [of _ _ sum_list] map_cong) auto
  moreover have "\<forall>d \<in> set td. is_dslab s5 d \<and> cid (slabs s5 ! d) = cid (slabs s ! hd td)"
    using bs(1,4) td sp by (auto simp: is_dslab_def same_place_def)
  moreover have "distinct td" "(\<Sum>d \<leftarrow> td. nr_used (slabs s ! d)) \<le> int (nr_slots (slabs s ! hd td))"
    using b unfolding batch_ok_def by blast+
  ultimately have "room_for td (cid (slabs s ! hd td)) 0 s5"
    unfolding room_for_def gb gh gc_header_ok(3,4,6) by simp
  moreover have "cid (slabs s ! hd td) \<noteq> -1" using b unfolding batch_ok_def by blast
  ultimately show ?thesis
    by (rule safe_mono [OF move_dslabs_safe [OF inv5]]) (use keeps_trans [OF k5] in blast)+
qed

text \<open>Where the slab taken from the pool is once the batch is prepared.\<close>

lemma prepared_ops:
  assumes st: "gc_state E fl s" and b: "batch_ok td s" and p: "prepared E td ops fl fl' s s5"
  shows "gc_buffer s5 = gc_buffer s" and "ops \<noteq> gc_buffer s" and "ops \<notin> set (members fl')"
    and "ops \<notin> set (members (dslab_free s5))" and "ops \<notin> set (members (ops_pool s5))"
proof -
  have inv: "data_inv E s" using st by (simp add: gc_state_def)
  have di5: "disk_inv (members fl') {ops} s5" and op: "is_dslab s ops" and om: "ops \<in> set (members (ops_pool s))"
    and full: "add_mset ops (mset (members (dslab_full s))) = mset td + mset (members (dslab_full s5))" and sp5: "same_place s s5"
    using p by (simp_all add: prepared_def)
  show "gc_buffer s5 = gc_buffer s" using sp5 by (simp add: same_place_def gc_buffer_def)
  show "ops \<noteq> gc_buffer s" by (rule buffer_not_disk(2) [OF inv op])
  have "ops \<in> set (members (dslab_full s5))"
    using arg_cong [OF full, of set_mset] batch_slabs(2) [OF st b om] by auto
  then show "ops \<notin> set (members fl')" "ops \<notin> set (members (dslab_free s5))" "ops \<notin> set (members (ops_pool s5))"
    using full_exclusive [OF di5] by blast+
qed

text \<open>The slabs given back are empty, the full slabs that were not in the batch are as before.\<close>

lemma batch_emptied:
  assumes st: "gc_state E fl s" and b: "batch_ok td s" and p: "prepared E td ops fl fl' s s5"
    and m6: "slabs_moved E td s5 s6" and mo: "moved_out E (gc_buffer s) ops s6 t" and d: "d \<in> set (members fl')"
  shows "live t d = {}"
proof -
  note po = prepared_ops [OF st b p]
  have fl': "mset (members fl') = mset td + mset (members fl)" and di5: "disk_inv (members fl') {ops} s5"
    and inv5: "data_inv E s5" and l5: "live s5 = live s"
    using p by (simp_all add: prepared_def)
  have "d \<in> set td \<or> d \<in> set (members fl)" using d arg_cong [OF fl', of set_mset] by auto
  moreover have "is_dslab s5 d" using disk_invD(10) [OF di5] d by simp
  then have dg: "d \<noteq> gc_buffer s" using buffer_not_disk(2) [OF inv5] po(1) by auto
  moreover have "live s6 d \<subseteq> live s d" using m6 l5 po(1) dg by (simp add: slabs_moved_def compacting_def)
  moreover have "live t d = live s6 d" using mo dg po(3) d by (auto simp: moved_out_def)
  ultimately show ?thesis using m6 st by (auto simp: gc_state_def slabs_moved_def)
qed

lemma batch_others:
  assumes st: "gc_state E fl s" and b: "batch_ok td s" and p: "prepared E td ops fl fl' s s5"
    and m6: "slabs_moved E td s5 s6" and mo: "moved_out E (gc_buffer s) ops s6 t"
    and i: "i \<in> set (members (dslab_full s)) - set td"
  shows "i \<in> set (members (dslab_full t)) \<and> cid (slabs t ! i) = cid (slabs s ! i) \<and>
    nr_used (slabs t ! i) = nr_used (slabs s ! i) \<and> nr_slots (slabs t ! i) = nr_slots (slabs s ! i)"
proof -
  have di: "disk_inv (members fl) {} s" and inv: "data_inv E s" using st by (simp_all add: gc_state_def)
  have full: "add_mset ops (mset (members (dslab_full s))) = mset td + mset (members (dslab_full s5))"
    and om: "ops \<in> set (members (ops_pool s))" and oth: "\<And>i. i \<noteq> ops \<Longrightarrow> i \<noteq> gc_buffer s \<Longrightarrow> slabs s5 ! i = slabs s ! i"
    using p by (simp_all add: prepared_def)
  have "is_dslab s i" using disk_invD(8) [OF di] i by simp
  then have ig: "i \<noteq> gc_buffer s" using buffer_not_disk(2) [OF inv] by blast
  have io: "i \<noteq> ops" using disk_invD(7) [OF di om] disk_invD(9) [OF di, of i] i by auto
  have "i \<in># mset td + mset (members (dslab_full s5))" unfolding full [symmetric] using i by simp
  moreover have "same_lists s5 t"
    using same_lists_trans [of s5 s6 t] m6 mo by (simp add: slabs_moved_def compacting_def moved_out_def)
  moreover have "cid (slabs t ! i) = cid (slabs s6 ! i) \<and> nr_used (slabs t ! i) = nr_used (slabs s6 ! i) \<and>
      nr_slots (slabs t ! i) = nr_slots (slabs s6 ! i)" using mo ig io by (simp add: moved_out_def)
  ultimately show ?thesis
    using i m6 oth [OF io ig] prepared_ops(1) [OF st b p] ig by (simp add: slabs_moved_def compacting_def same_lists_def)
qed

lemma batch_apart:
  assumes st: "gc_state E fl s" and b: "batch_ok td s" and p: "prepared E td ops fl fl' s s5"
    and m6: "slabs_moved E td s5 s6" and mo: "moved_out E (gc_buffer s) ops s6 t"
  shows "apart E (insert (gc_buffer s) (set_mset (placed (members fl) s))) s t"
proof -
  let ?g = "gc_buffer s" and ?X = "insert (gc_buffer s) (set_mset (placed (members fl) s))"
  have inv5: "data_inv E s5" and sp5: "same_place s s5" and om: "ops \<in> set (members (ops_pool s))"
    using p by (simp_all add: prepared_def)
  have c6: "compacting s5 s6" using m6 by (simp add: slabs_moved_def)
  have oX: "ops \<in> ?X" using om by (simp add: placed_def on_lists_def)
  have "apart E {ops, ?g} s s5"
    using p by (auto simp: apart_def kept_def slack_def prepared_def intro!: slab_data_cong)
  then have "apart E ?X s s5" by (rule apart_mono) (use oX in simp)
  moreover have "set td \<subseteq> ?X" using b by (auto simp: batch_ok_def placed_def on_lists_def)
  then have "apart E ?X s5 s6"
    by (intro compacting_apart [OF inv5 c6]) (use m6 prepared_ops(1) [OF st b p] in \<open>auto simp: slabs_moved_def\<close>)
  moreover have "apart E ?X s6 t" by (rule apart_mono [of E "{?g, ops}"]) (use mo oX in \<open>simp_all add: moved_out_def\<close>)
  moreover have "same_place s5 s6" using c6 by (simp add: compacting_def)
  ultimately show ?thesis using apart_trans [OF apart_trans [OF _ _ sp5] _ same_place_trans [OF sp5]] by blast
qed

lemma batch_finished:
  assumes st: "gc_state E fl s" and b: "batch_ok td s" and p: "prepared E td ops fl fl' s s5"
    and m6: "slabs_moved E td s5 s6"
    and mo: "moved_out E (gc_buffer s) ops s6 t" and dm: "disk_inv (members fl') {} t" "mem_inv [] t"
  shows "batch_done E td fl fl' s t"
proof -
  have sp5: "same_place s s5" and ci5: "chan_items s5 fl'"
    and full: "add_mset ops (mset (members (dslab_full s))) = mset td + mset (members (dslab_full s5))"
    using p by (simp_all add: prepared_def)
  have t: "data_inv E t" "same_place s6 t" "same_lists s6 t" "index_locked t = index_locked s6" "live t (gc_buffer s) = {}"
    using mo by (simp_all add: moved_out_def)
  have c6: "compacting s5 s6" using m6 by (simp add: slabs_moved_def)
  have sp: "same_place s t"
    using same_place_trans [OF sp5] same_place_trans [of s5 s6 t] c6 t(2) by (simp add: compacting_def)
  have ls: "same_lists s5 t" using same_lists_trans [of s5 s6 t] c6 t(3) by (simp add: compacting_def)
  have gt: "gc_buffer t = gc_buffer s" using sp by (simp add: same_place_def gc_buffer_def)
  have "ptrs_ok t" "chan_items t fl'"
    using sp st ci5 chan_items_place [OF sp5] chan_items_place [OF sp] by (simp_all add: gc_state_def same_place_def)
  then have gs: "gc_state E fl' t" using t dm batch_emptied [OF st b p m6 mo] gt by (simp add: gc_state_def)
  have "keeps E s5 s6" "keeps E s6 t" using m6 mo by (simp_all add: slabs_moved_def moved_out_def)
  then have kp: "keeps E s t" using p keeps_trans keeps_trans [of E s s5] by (metis prepared_def)
  have len: "int (length (members (dslab_full t))) = int (length (members (dslab_full s))) - int (length td) + 1"
    using arg_cong [OF full, of size] ls by (simp add: same_lists_def)
  have "placed (members fl') t = placed (members fl') s5" using ls by (simp add: same_lists_def placed_def on_lists_def)
  then have pl: "placed (members fl') t = placed (members fl) s" using p by (simp add: prepared_def)
  show ?thesis
    unfolding batch_done_def
    using pl gs kp sp len batch_others [OF st b p m6 mo] batch_apart [OF st b p m6 mo] p ls t(4) c6
    by (simp add: prepared_def same_lists_def compacting_def)
qed

lemma gc_dslabs_safe:
  assumes st: "gc_state E fl s" and pos: "0 < ops_pool_size s" and b: "batch_ok td s"
  shows "safe (\<lambda>s'. data_inv E s' \<and> keeps E s s') (\<lambda>fl' s'. batch_done E td fl fl' s s') (gc_dslabs E td fl s)"
proof -
  obtain ops fl' s5 where p: "prepared E td ops fl fl' s s5"
    and run: "gc_dslabs E td fl s = gc_rest E td (gc_buffer s) ops fl' s5"
    using gc_dslabs_prepare [OF st pos b] by blast
  let ?g = "gc_buffer s"
  have k5: "keeps E s s5" and inv5: "data_inv E s5" and di5: "disk_inv (members fl') {ops} s5" and mi5: "mem_inv [] s5"
    and sp5: "same_place s s5" and op: "is_dslab s ops" and oa: "nr_alloc (slabs s5 ! ops) = 0"
    and gh: "slabs s5 ! ?g = gc_header (slabs s ! hd td) (slabs s ! ?g)"
    using p by (simp_all add: prepared_def)
  note po = prepared_ops [OF st b p]
  show ?thesis
    unfolding run gc_rest_def
  proof (subst safe_seq, rule safe_mono [OF gc_move_safe [OF st b p]], assumption)
    fix s6 assume m6: "slabs_moved E td s5 s6"
    then have c6: "compacting s5 s6" and inv6: "data_inv E s6" and k6: "keeps E s s6"
      using keeps_trans [OF k5] by (auto simp: slabs_moved_def)
    have gb6: "gc_buffer s6 = ?g" using compacting_buffer [OF c6] po(1) by simp
    have "cid (slabs s ! hd td) \<noteq> -1" using b unfolding batch_ok_def by blast
    then have cg: "cid (slabs s6 ! ?g) \<noteq> -1" using c6 gh gc_header_ok(4) by (simp add: compacting_def)
    note di6 = compacting_disk [OF c6 data_invD(1) [OF inv5] di5]
    note mi6 = compacting_mem [OF c6 mi5]
    have o6: "is_dslab s6 ops" "nr_alloc (slabs s6 ! ops) = 0" "ops \<notin> set (members (dslab_free s6))" "ops \<notin> set (members (ops_pool s6))"
      using c6 op sp5 oa po by (simp_all add: compacting_def same_place_def same_lists_def is_dslab_def)
    note fs = gc_flush_safe [OF inv6 di6 mi6 o6, unfolded gb6, OF cg]
    have "safe (\<lambda>s'. data_inv E s' \<and> keeps E s s')
      (\<lambda>_ s1. safe (\<lambda>s'. data_inv E s' \<and> keeps E s s')
        (\<lambda>_ s2. safe (\<lambda>s'. data_inv E s' \<and> keeps E s s')
          (\<lambda>_ u. batch_done E td fl fl' s (unlock_index u)) (modify_index_to E ?g ops s2)) (lock_index s1))
      (flush_mslab_to_dslab E ?g ops s6)"
    proof (rule safe_mono3 [OF fs])
      show "data_inv E s' \<and> keeps E s6 s' \<Longrightarrow> data_inv E s' \<and> keeps E s s'" for s' using keeps_trans [OF k6] by blast
    qed (rule batch_finished [OF st b p m6]; blast)
    then show "safe (\<lambda>s'. data_inv E s' \<and> keeps E s s') (\<lambda>fl' s'. batch_done E td fl fl' s s')
       (seq (check (cid (slabs s6 ! ?g) \<noteq> -1) ''gc_buffer_->cid != -1'' s6) (\<lambda>_ s.
        seq (flush_mslab_to_dslab E ?g ops s) (\<lambda>_ s. seq (lock_index s) (\<lambda>_ s.
        seq (modify_index_to E ?g ops s) (\<lambda>_ s. Ret fl' (unlock_index s))))))"
      using cg by simp
  qed
qed

end
