(* ===== verification/KV_NormalGC.thy ===== *)
theory KV_NormalGC
  imports KV_Compact
begin

text \<open>
  The driver of the normal collection (\<^verbatim>\<open>normal_gc\<close>): choosing the least used full slabs with a
  priority queue, forming batches per class, tuning the size of the over-provisioned pool and the
  water marks, and giving the emptied slabs back.
\<close>

subsection \<open>The code\<close>

text \<open>
  The priority queue of the least used full slabs: at most \<^verbatim>\<open>3 * ops_pool_size_\<close> of them, the most
  used of the kept ones on top.
\<close>

definition gc_priority :: "'db kv \<Rightarrow> nat \<Rightarrow> int" where
  "gc_priority s d = nr_used (slabs s ! d) * int (slot_size (slabs s ! d))"

definition pq_top :: "'db env \<Rightarrow> 'db kv \<Rightarrow> nat list \<Rightarrow> nat" where
  "pq_top E s q = heap_pick E (map (gc_priority s) q)"

definition pq_pop :: "'db env \<Rightarrow> 'db kv \<Rightarrow> nat list \<Rightarrow> nat list" where
  "pq_pop E s q = take (pq_top E s q) q @ drop (Suc (pq_top E s q)) q"

definition pq_offer :: "'db env \<Rightarrow> 'db kv \<Rightarrow> nat \<Rightarrow> nat list \<Rightarrow> nat list" where
  "pq_offer E s d q =
     (if int (length q) < 3 * ops_pool_size s then q @ [d]
      else if gc_priority s d < gc_priority s (q ! pq_top E s q) then pq_pop E s q @ [d]
      else q)"

primrec pq_drain :: "'db env \<Rightarrow> 'db kv \<Rightarrow> nat \<Rightarrow> nat list \<Rightarrow> nat list" where
  "pq_drain E s 0 q = []"
| "pq_drain E s (Suc n) q = q ! pq_top E s q # pq_drain E s n (pq_pop E s q)"

text \<open>
  One class: \<open>cands\<close> are the candidates from the back of the vector on. The result says whether
  the code jumps to \<^verbatim>\<open>tune_ops_pool_size\<close>.
\<close>

definition gc_batch :: "'db env \<Rightarrow> nat list \<Rightarrow> slist list \<Rightarrow> 'db kv \<Rightarrow> (bool \<times> slist list, 'db kv) outcome" where
  "gc_batch E to_drop fl s =
     (if 1 < length to_drop then
        if ops_pool_size s \<le> 0 then Ret (True, fl) s
        else seq (gc_dslabs E to_drop fl s) (\<lambda>fl s. Ret (False, fl) s)
      else Ret (False, fl) s)"

fun gc_class :: "'db env \<Rightarrow> nat list \<Rightarrow> nat list \<Rightarrow> int \<Rightarrow> slist list \<Rightarrow> 'db kv \<Rightarrow>
    (bool \<times> slist list, 'db kv) outcome" where
  "gc_class E [] to_drop moved fl s = gc_batch E to_drop fl s"
| "gc_class E (d # cands) to_drop moved fl s =
     (let used = nr_used (slabs s ! d)
      in seq (check (0 \<le> used) ''nr_used >= 0'' s) (\<lambda>_ s.
         if used + moved > int (nr_slots (slabs s ! d)) then gc_batch E to_drop fl s
         else gc_class E cands (to_drop @ [d]) (moved + used) fl s))"

text \<open>All classes, each with its candidates.\<close>

primrec gc_classes :: "'db env \<Rightarrow> nat list list \<Rightarrow> slist list \<Rightarrow> 'db kv \<Rightarrow> (slist list, 'db kv) outcome" where
  "gc_classes E [] fl s = Ret fl s"
| "gc_classes E (cands # rest) fl s =
     seq (gc_class E cands [] 0 fl s) (\<lambda>(jump, fl) s.
       if jump then Ret fl s else gc_classes E rest fl s)"

definition class_cands :: "'db kv \<Rightarrow> nat list \<Rightarrow> nat list list" where
  "class_cands s order =
     map (\<lambda>i. rev (filter (\<lambda>d. cid (slabs s ! d) = int i) order)) [0..<length (slab_class_table s)]"

text \<open>Adjusting the water marks, and the size the over-provisioned pool should have.\<close>

definition tune_ops_pool_size :: "int \<Rightarrow> 'db kv \<Rightarrow> int \<times> 'db kv" where
  "tune_ops_pool_size old_ops_size s =
     (if nr_free_dslab s > water_mark_high s then
        let low = max (water_mark_low s - 10) (water_mark_low_min s);
            high = max (water_mark_high s - 10) (double_times_int d_1_1 low)
        in (max 10 (old_ops_size - 1), s\<lparr>water_mark_low := low, water_mark_high := high\<rparr>)
      else (old_ops_size, s))"

text \<open>Refilling the pool with as many slabs as were taken from it.\<close>

partial_function (option) refill_ops :: "nat \<Rightarrow> int \<Rightarrow> slist list \<Rightarrow> 'db kv \<Rightarrow> (slist list \<times> 'db kv) option" where
  "refill_ops c k fl s =
     (if k \<le> 0 then Some (fl, s)
      else case items (fl ! c) of
             [] \<Rightarrow> refill_ops (next_channel s c) k fl s
           | d # ds \<Rightarrow>
               let s = upd_slab d slab_reset s
               in refill_ops (next_channel s c) (k - 1) (fl[c := (fl ! c)\<lparr>items := ds\<rparr>])
                    (s\<lparr>ops_pool := chan_add c d (ops_pool s), ops_pool_size := ops_pool_size s + 1\<rparr>))"

primrec shrink_ops :: "nat \<Rightarrow> slist list \<Rightarrow> 'db kv \<Rightarrow> slist list \<times> 'db kv" where
  "shrink_ops 0 fl s = (fl, s)"
| "shrink_ops (Suc n) fl s =
     (let c = next_channel s (next_ops_pool_remove_channel s);
          s = s\<lparr>next_ops_pool_remove_channel :=
                  (next_ops_pool_remove_channel s + 1) mod nat (nr_channels (ssd s))\<rparr>
      in case items (ops_pool s ! c) of
           [] \<Rightarrow> shrink_ops n fl s
         | d # _ \<Rightarrow>
             shrink_ops n (chan_add c d fl)
               (upd_slab d slab_reset
                  (s\<lparr>ops_pool := chan_del c d (ops_pool s), ops_pool_size := ops_pool_size s - 1\<rparr>)))"

primrec free_channel :: "nat \<Rightarrow> nat list \<Rightarrow> 'db kv \<Rightarrow> (unit, 'db kv) outcome" where
  "free_channel c [] s = Ret () s"
| "free_channel c (d # ds) s =
     seq (back_to_free c d (upd_slab d slab_reset s)) (\<lambda>_ s. free_channel c ds s)"

primrec free_channels :: "nat list \<Rightarrow> slist list \<Rightarrow> 'db kv \<Rightarrow> (unit, 'db kv) outcome" where
  "free_channels [] fl s = Ret () s"
| "free_channels (c # cs) fl s =
     seq (free_channel c (items (fl ! c)) s) (\<lambda>_ s. free_channels cs fl s)"

text \<open>From the label \<^verbatim>\<open>tune_ops_pool_size\<close> to the end of \<^verbatim>\<open>normal_gc\<close>.\<close>

definition give_back :: "int \<Rightarrow> slist list \<Rightarrow> 'db kv \<Rightarrow> (bool, 'db kv) outcome" where
  "give_back old_ops_size fl s =
     (case tune_ops_pool_size old_ops_size s of
        (new_ops_size, s) \<Rightarrow>
          let nr_reclaimed = (\<Sum>l \<leftarrow> fl. lsize l);
              consumed = old_ops_size - ops_pool_size s
          in seq (check (nr_reclaimed = 0 \<or> nr_reclaimed \<ge> consumed)
                    ''nr_reclaimed == 0 || nr_reclaimed >= ops_dslab_consumed'' s) (\<lambda>_ s.
             case refill_ops 0 consumed fl s of
               None \<Rightarrow> Hang
             | Some (fl, s) \<Rightarrow>
                 seq (check (ops_pool_size s \<le> old_ops_size) ''ops_pool_size_ <= old_ops_size'' s) (\<lambda>_ s.
                 case shrink_ops (nat (ops_pool_size s - new_ops_size)) fl s of
                   (fl, s) \<Rightarrow>
                     seq (free_channels [0..<nat (nr_channels (ssd s))] fl s) (\<lambda>_ s.
                     seq (check (check_ops_pool s) ''check_ops_pool()'' s) (\<lambda>_ s.
                     Ret True s)))))"

definition normal_gc :: "'db env \<Rightarrow> 'db kv \<Rightarrow> (bool, 'db kv) outcome" where
  "normal_gc E s =
     (let fulls = concat (map items (dslab_full s));
          pq = fold (pq_offer E s) fulls [];
          order = pq_drain E s (length pq) pq;
          old_ops_size = ops_pool_size s
      in seq (check (fulls = [] \<or> 0 < ops_pool_size s) ''pq.top() on an empty queue'' s) (\<lambda>_ s.
         seq (check (list_all (\<lambda>d. cid (slabs s ! d) \<noteq> -1) order) ''dslab->cid != -1'' s) (\<lambda>_ s.
         seq (gc_classes E (class_cands s order) (replicate (nat (nr_channels (ssd s))) slist_init) s) (\<lambda>fl s.
         give_back old_ops_size fl s))))"

subsection \<open>Batches of one class\<close>

text \<open>
  Progress of a normal collection. \<open>P\<close> is the set of slabs that may have been emptied; every other
  full slab is as before. Each slab taken from the pool empties at least two others. The list of
  full slabs gains one slab per batch that \<^verbatim>\<open>nr_full_dslab_\<close> does not count.
\<close>

definition gc_progress :: "'db env \<Rightarrow> nat set \<Rightarrow> slist list \<Rightarrow> 'db kv \<Rightarrow> slist list \<Rightarrow> 'db kv \<Rightarrow> bool" where
  "gc_progress E P fl s fl' s' \<longleftrightarrow> gc_state E fl' s' \<and> keeps E s s' \<and> same_place s s' \<and>
     placed (members fl') s' = placed (members fl) s \<and> nr_free_dslab s' = nr_free_dslab s \<and>
     mslab_free s' = mslab_free s \<and> mslab_full s' = mslab_full s \<and> slab_class_table s' = slab_class_table s \<and>
     max_ops_pool_size s' = max_ops_pool_size s \<and> index_locked s' = index_locked s \<and>
     apart E (insert (gc_buffer s) (set_mset (placed (members fl) s))) s s' \<and>
     ops_pool_size s' \<le> ops_pool_size s \<and>
     2 * (ops_pool_size s - ops_pool_size s') \<le> total_size fl' - total_size fl \<and>
     int (length (members fl')) - int (length (members fl)) = total_size fl' - total_size fl \<and>
     int (length (members (dslab_full s'))) - nr_full_dslab s' =
       int (length (members (dslab_full s))) - nr_full_dslab s + (ops_pool_size s - ops_pool_size s') \<and>
     (\<forall>i \<in> set (members (dslab_full s)) - P. i \<in> set (members (dslab_full s')) \<and>
        cid (slabs s' ! i) = cid (slabs s ! i) \<and> nr_used (slabs s' ! i) = nr_used (slabs s ! i) \<and>
        nr_slots (slabs s' ! i) = nr_slots (slabs s ! i))"

lemma gc_progress_refl: "gc_state E fl s \<Longrightarrow> gc_progress E P fl s fl s"
  by (simp add: gc_progress_def)

lemma gc_progress_trans:
  assumes "gc_progress E P fl s fl1 s1" and "gc_progress E Q fl1 s1 fl2 s2"
  shows "gc_progress E (P \<union> Q) fl s fl2 s2"
proof -
  let ?X = "insert (gc_buffer s) (set_mset (placed (members fl) s))"
  have a: "apart E ?X s s1" "apart E ?X s1 s2" and sp: "same_place s s1"
    using assms by (simp_all add: gc_progress_def same_place_def gc_buffer_def)
  have "keeps E s s2" "same_place s s2" "apart E ?X s s2"
    using assms keeps_trans [of E s s1 s2] same_place_trans [of s s1 s2] apart_trans [OF a sp]
    by (simp_all add: gc_progress_def)
  moreover have "\<forall>i \<in> set (members (dslab_full s)) - (P \<union> Q). i \<in> set (members (dslab_full s2)) \<and>
        cid (slabs s2 ! i) = cid (slabs s ! i) \<and> nr_used (slabs s2 ! i) = nr_used (slabs s ! i) \<and>
        nr_slots (slabs s2 ! i) = nr_slots (slabs s ! i)"
    using assms unfolding gc_progress_def by (metis DiffE DiffI UnCI)
  ultimately show ?thesis
    using assms unfolding gc_progress_def by (elim conjE, intro conjI; (assumption | linarith | simp))
qed

lemma gc_progress_weaken: "gc_progress E P fl s fl' s' \<Longrightarrow> P \<subseteq> Q \<Longrightarrow> gc_progress E Q fl s fl' s'"
  unfolding gc_progress_def by blast

lemma batch_done_progress:
  assumes "batch_done E td fl fl' s s'" and "1 < length td"
  shows "gc_progress E (set td) fl s fl' s'"
proof -
  have "mset (members fl') = mset td + mset (members fl)" using assms(1) by (simp add: batch_done_def)
  from arg_cong [OF this, of size] have "length (members fl') = length td + length (members fl)" by simp
  then show ?thesis using assms by (simp add: batch_done_def gc_progress_def)
qed

text \<open>Slabs that one class offers: full, of one class, no slab twice.\<close>

definition class_ok :: "nat list \<Rightarrow> 'db kv \<Rightarrow> bool" where
  "class_ok ds s \<longleftrightarrow> distinct ds \<and> set ds \<subseteq> set (members (dslab_full s)) \<and>
     (\<exists>C. C \<noteq> -1 \<and> (\<forall>d \<in> set ds. cid (slabs s ! d) = C))"

lemma class_ok_slots:
  assumes "gc_state E fl s" and "class_ok ds s" and "d \<in> set ds" "d' \<in> set ds"
  shows "nr_slots (slabs s ! d) = nr_slots (slabs s ! d')" and "0 \<le> nr_used (slabs s ! d)"
proof -
  have inv: "data_inv E s" and di: "disk_inv (members fl) {} s" using assms(1) by (simp_all add: gc_state_def)
  have h: "hdr_ok s (slabs s ! x)" if "x \<in> set ds" for x
  proof -
    have "x < length (slabs s)" using disk_invD(8) [OF di, of x] assms(2) that by (auto simp: class_ok_def is_dslab_def)
    from data_inv_slab(1) [OF inv this] show ?thesis .
  qed
  have "cid (slabs s ! d) = cid (slabs s ! d')" using assms(2-4) unfolding class_ok_def by metis
  then show "nr_slots (slabs s ! d) = nr_slots (slabs s ! d')"
    using hdr_ok_same_class [OF h [OF assms(3)] h [OF assms(4)]] by blast
  show "0 \<le> nr_used (slabs s ! d)" using h [OF assms(3)] by (simp add: hdr_ok_def)
qed

lemma class_ok_batch:
  assumes c: "class_ok (td @ rest) s" and td: "td \<noteq> []"
    and sum: "(\<Sum>d \<leftarrow> td. nr_used (slabs s ! d)) \<le> int (nr_slots (slabs s ! hd td))"
  shows "batch_ok td s"
proof -
  obtain C where "C \<noteq> -1" "\<forall>d \<in> set td. cid (slabs s ! d) = C" using c by (auto simp: class_ok_def)
  then show ?thesis using c td sum by (auto simp: batch_ok_def class_ok_def)
qed

lemma gc_batch_safe:
  assumes st: "gc_state E fl s" and c: "class_ok (td @ rest) s"
    and sum: "td \<noteq> [] \<Longrightarrow> (\<Sum>d \<leftarrow> td. nr_used (slabs s ! d)) \<le> int (nr_slots (slabs s ! hd td))"
  shows "safe (\<lambda>s'. data_inv E s' \<and> keeps E s s') (\<lambda>(jump, fl') s'. gc_progress E (set td) fl s fl' s')
    (gc_batch E td fl s)"
proof (cases "1 < length td \<and> \<not> ops_pool_size s \<le> 0")
  case True
  then have "td \<noteq> []" by auto
  note b = class_ok_batch [OF c this sum [OF this]]
  have "safe (\<lambda>s'. data_inv E s' \<and> keeps E s s') (\<lambda>fl' s'. gc_progress E (set td) fl s fl' s') (gc_dslabs E td fl s)"
    by (rule safe_weaken [OF gc_dslabs_safe [OF st _ b]]) (use batch_done_progress True in auto)
  then show ?thesis using True by (simp add: gc_batch_def)
next
  case False
  then show ?thesis using gc_progress_refl [OF st] by (auto simp: gc_batch_def)
qed

lemma gc_class_safe:
  assumes "gc_state E fl s" and "class_ok (td @ cands) s"
    and "moved = (\<Sum>d \<leftarrow> td. nr_used (slabs s ! d))"
    and "td \<noteq> [] \<Longrightarrow> moved \<le> int (nr_slots (slabs s ! hd td))"
  shows "safe (\<lambda>s'. data_inv E s' \<and> keeps E s s') (\<lambda>(jump, fl') s'. gc_progress E (set (td @ cands)) fl s fl' s')
    (gc_class E cands td moved fl s)"
  using assms
proof (induction cands arbitrary: td moved)
  case Nil
  then show ?case using gc_batch_safe [of E fl s td "[]"] by simp
next
  case (Cons d cands)
  have batch: "safe (\<lambda>s'. data_inv E s' \<and> keeps E s s') (\<lambda>(jump, fl') s'. gc_progress E (set (td @ d # cands)) fl s fl' s')
      (gc_batch E td fl s)"
    using gc_batch_safe [OF Cons.prems(1,2)] Cons.prems(3,4)
    by (auto elim!: safe_weaken intro: gc_progress_weaken)
  have din: "d \<in> set (td @ d # cands)" by simp
  note cs = class_ok_slots [OF Cons.prems(1,2) din]
  have rec: "safe (\<lambda>s'. data_inv E s' \<and> keeps E s s') (\<lambda>(jump, fl') s'. gc_progress E (set (td @ d # cands)) fl s fl' s')
      (gc_class E cands (td @ [d]) (moved + nr_used (slabs s ! d)) fl s)"
    if le: "nr_used (slabs s ! d) + moved \<le> int (nr_slots (slabs s ! d))"
  proof -
    have "nr_slots (slabs s ! d) = nr_slots (slabs s ! hd (td @ [d]))"
      by (rule cs(1)) (cases td, auto)
    then show ?thesis
      using Cons.IH [of "td @ [d]" "moved + nr_used (slabs s ! d)"] Cons.prems le by simp
  qed
  show ?case using batch rec cs(2) [of d] by (simp add: Let_def)
qed

subsection \<open>All classes\<close>

definition classes_ok :: "nat list list \<Rightarrow> 'db kv \<Rightarrow> bool" where
  "classes_ok css s \<longleftrightarrow> distinct (concat css) \<and> (\<forall>cs \<in> set css. class_ok cs s)"

lemma class_ok_progress:
  assumes "class_ok ds s" and "gc_progress E P fl s fl' s'" and "set ds \<inter> P = {}"
  shows "class_ok ds s'"
proof -
  have "d \<in> set (members (dslab_full s')) \<and> cid (slabs s' ! d) = cid (slabs s ! d)" if "d \<in> set ds" for d
    using assms that unfolding gc_progress_def class_ok_def by blast
  then show ?thesis using assms(1) unfolding class_ok_def by (metis subsetI)
qed

lemma classes_ok_progress:
  assumes "classes_ok (cs # css) s" and "gc_progress E (set cs) fl s fl1 s1"
  shows "classes_ok css s1"
proof -
  have "class_ok c' s1" if "c' \<in> set css" for c'
    using assms that by (intro class_ok_progress [OF _ assms(2)]) (auto simp: classes_ok_def)
  then show ?thesis using assms(1) by (simp add: classes_ok_def)
qed

lemma gc_classes_safe:
  assumes "gc_state E fl s" and "classes_ok css s"
  shows "safe (\<lambda>s'. data_inv E s' \<and> keeps E s s') (\<lambda>fl' s'. gc_progress E (set (concat css)) fl s fl' s')
    (gc_classes E css fl s)"
  using assms
proof (induction css arbitrary: fl s)
  case Nil
  then show ?case by (simp add: gc_progress_refl)
next
  case (Cons cs css)
  have c: "class_ok ([] @ cs) s" using Cons.prems(2) by (simp add: classes_ok_def)
  have step: "safe (\<lambda>s'. data_inv E s' \<and> keeps E s s') (\<lambda>fl' s'. gc_progress E (set (concat (cs # css))) fl s fl' s')
      (if jump then Ret fl1 s1 else gc_classes E css fl1 s1)"
    if p: "gc_progress E (set cs) fl s fl1 s1" for jump fl1 s1
  proof (cases jump)
    case True
    then show ?thesis using gc_progress_weaken [OF p] by simp
  next
    case False
    have st1: "gc_state E fl1 s1" and k1: "keeps E s s1" using p by (simp_all add: gc_progress_def)
    note classes_ok_progress [OF Cons.prems(2) p]
    from Cons.IH [OF st1 this] have "safe (\<lambda>s'. data_inv E s' \<and> keeps E s s')
        (\<lambda>fl' s'. gc_progress E (set cs \<union> set (concat css)) fl s fl' s') (gc_classes E css fl1 s1)"
      by (rule safe_mono) (use keeps_trans [OF k1] gc_progress_trans [OF p] in blast)+
    then show ?thesis using False by simp
  qed
  show ?case
    unfolding gc_classes.simps safe_seq
    by (rule safe_weaken [OF gc_class_safe [OF Cons.prems(1) c]]) (use step in auto)
qed

lemma class_cands_ok:
  assumes di: "disk_inv H {} s" and "distinct order" and "set order \<subseteq> set (members (dslab_full s))"
  shows "classes_ok (class_cands s order) s"
proof -
  let ?c = "\<lambda>i. rev (filter (\<lambda>d. cid (slabs s ! d) = int i) order)"
  have "class_ok (?c i) s" for i
    using assms(2,3) unfolding class_ok_def by (intro conjI exI [of _ "int i"]) auto
  moreover have "distinct (concat (map ?c is))" if "distinct is" for "is"
    using that assms(2) by (induction "is") auto
  ultimately show ?thesis by (auto simp: classes_ok_def class_cands_def)
qed

subsection \<open>The priority queue keeps the least used slabs\<close>

lemma mset_drop_nth: "i < length xs \<Longrightarrow> mset xs = add_mset (xs ! i) (mset (take i xs @ drop (Suc i) xs))"
  by (metis id_take_nth_drop mset_append mset.simps(2) union_mset_add_mset_right)

text \<open>
  After the fold the queue holds, among the slabs seen, as many as it may, and no slab that was
  turned away is less used than one that was kept.
\<close>

definition queue_ok :: "'db kv \<Rightarrow> nat list \<Rightarrow> nat list \<Rightarrow> bool" where
  "queue_ok s xs q \<longleftrightarrow> int (length q) = min (3 * ops_pool_size s) (int (length xs)) \<and>
     (\<exists>out. mset xs = mset q + out \<and> (\<forall>x \<in> set q. \<forall>y \<in># out. gc_priority s x \<le> gc_priority s y))"

lemma pq_top_greatest:
  assumes "heap_pick_ok E" and "q \<noteq> []"
  shows "pq_top E s q < length q" and "x \<in> set q \<Longrightarrow> gc_priority s x \<le> gc_priority s (q ! pq_top E s q)"
proof -
  let ?ps = "map (gc_priority s) q"
  have h: "heap_pick E ?ps < length ?ps" "\<forall>p \<in> set ?ps. p \<le> ?ps ! heap_pick E ?ps"
    using assms unfolding heap_pick_ok_def by (metis map_is_Nil_conv)+
  then show "pq_top E s q < length q" by (simp add: pq_top_def)
  show "x \<in> set q \<Longrightarrow> gc_priority s x \<le> gc_priority s (q ! pq_top E s q)"
    using h by (simp add: pq_top_def)
qed

lemma pq_pop_mset:
  assumes "heap_pick_ok E" and "q \<noteq> []"
  shows "mset q = add_mset (q ! pq_top E s q) (mset (pq_pop E s q))"
  unfolding pq_pop_def by (rule mset_drop_nth [OF pq_top_greatest(1) [OF assms]])

lemma pq_offer_ok:
  assumes hp: "heap_pick_ok E" and pos: "0 < ops_pool_size s" and q: "queue_ok s xs q"
  shows "queue_ok s (xs @ [d]) (pq_offer E s d q)"
proof -
  obtain out where len: "int (length q) = min (3 * ops_pool_size s) (int (length xs))"
    and out: "mset xs = mset q + out" and le: "\<And>x y. x \<in> set q \<Longrightarrow> y \<in># out \<Longrightarrow> gc_priority s x \<le> gc_priority s y"
    using q unfolding queue_ok_def by blast
  show ?thesis
  proof (cases "int (length q) < 3 * ops_pool_size s")
    case True
    then have "size (mset xs) = length q" using len by simp
    then have "out = {#}" using out by simp
    then show ?thesis using True len out unfolding queue_ok_def pq_offer_def by (intro conjI exI [of _ "{#}"]) auto
  next
    case False
    then have ne: "q \<noteq> []" using pos by auto
    let ?t = "q ! pq_top E s q"
    note top = pq_top_greatest(1) [OF hp ne, of s] pq_top_greatest(2) [OF hp ne, of _ s] and pm = pq_pop_mset [OF hp ne, of s]
    show ?thesis
    proof (cases "gc_priority s d < gc_priority s ?t")
      case True
      have sub: "set (pq_pop E s q) \<subseteq> set q" using arg_cong [OF pm, of set_mset] by auto
      have tq: "?t \<in> set q" using top(1) by simp
      have "mset (xs @ [d]) = mset (pq_pop E s q @ [d]) + add_mset ?t out" using out pm by simp
      moreover have "gc_priority s x \<le> gc_priority s y"
        if x: "x \<in> set (pq_pop E s q @ [d])" and y: "y \<in># add_mset ?t out" for x y
      proof -
        have "gc_priority s x \<le> gc_priority s ?t" using x sub top(2) True by auto
        moreover have "gc_priority s ?t \<le> gc_priority s y" using y le [OF tq] by auto
        ultimately show ?thesis by simp
      qed
      moreover have "length (pq_pop E s q @ [d]) = length q" using arg_cong [OF pm, of size] by simp
      ultimately show ?thesis
        using False True len unfolding queue_ok_def pq_offer_def by (intro conjI exI [of _ "add_mset ?t out"]) auto
    next
      case nd: False
      have "mset (xs @ [d]) = mset q + add_mset d out" using out by simp
      moreover have "gc_priority s x \<le> gc_priority s y" if x: "x \<in> set q" and y: "y \<in># add_mset d out" for x y
        using y le [OF x] top(2) [OF x] nd by auto
      ultimately show ?thesis
        using False nd len unfolding queue_ok_def pq_offer_def by (intro conjI exI [of _ "add_mset d out"]) auto
    qed
  qed
qed

lemma pq_fold_ok:
  assumes "heap_pick_ok E" and "0 < ops_pool_size s"
  shows "queue_ok s xs (fold (pq_offer E s) xs [])"
proof (induction xs rule: rev_induct)
  case Nil
  then show ?case using assms(2) by (simp add: queue_ok_def)
next
  case (snoc d xs)
  then show ?case using pq_offer_ok [OF assms snoc] by simp
qed

text \<open>Draining the queue lists the same slabs, the most used first.\<close>

lemma pq_drain_ok:
  assumes "heap_pick_ok E"
  shows "n = length q \<Longrightarrow> mset (pq_drain E s n q) = mset q \<and>
    sorted_wrt (\<lambda>x y. gc_priority s y \<le> gc_priority s x) (pq_drain E s n q)"
proof (induction n arbitrary: q)
  case 0
  then show ?case by simp
next
  case (Suc n)
  then have ne: "q \<noteq> []" by auto
  note top = pq_top_greatest(1) [OF assms ne, of s] pq_top_greatest(2) [OF assms ne, of _ s] and pm = pq_pop_mset [OF assms ne, of s]
  have "n = length (pq_pop E s q)" using arg_cong [OF pm, of size] Suc.prems by simp
  from Suc.IH [OF this]
  have IH: "mset (pq_drain E s n (pq_pop E s q)) = mset (pq_pop E s q)"
    "sorted_wrt (\<lambda>x y. gc_priority s y \<le> gc_priority s x) (pq_drain E s n (pq_pop E s q))" by auto
  have "set (pq_drain E s n (pq_pop E s q)) \<subseteq> set q"
    using arg_cong [OF pm, of set_mset] arg_cong [OF IH(1), of set_mset] by auto
  then show ?case using IH pm top(2) by auto
qed

lemma normal_gc_order:
  assumes "heap_pick_ok E" and "0 < ops_pool_size s" and di: "disk_inv H {} s"
  defines "order \<equiv> (let pq = fold (pq_offer E s) (members (dslab_full s)) [] in pq_drain E s (length pq) pq)"
  shows "distinct order" and "set order \<subseteq> set (members (dslab_full s))"
proof -
  let ?q = "fold (pq_offer E s) (members (dslab_full s)) []"
  have o: "mset order = mset ?q" using pq_drain_ok [OF assms(1) refl] by (simp add: order_def Let_def)
  obtain out where m: "mset (members (dslab_full s)) = mset ?q + out"
    using pq_fold_ok [OF assms(1,2), of "members (dslab_full s)"] unfolding queue_ok_def by blast
  have u: "count (mset (members (dslab_full s))) d \<le> 1" for d
  proof -
    have "count (placed H s) d \<le> 1" using di by (simp add: disk_inv_def)
    then show ?thesis by (simp add: placed_def on_lists_def)
  qed
  have "count (mset order) d \<le> 1" for d using u [of d] unfolding o m by simp
  then show "distinct order" by (rule distinct_countI)
  show "set order \<subseteq> set (members (dslab_full s))"
    using arg_cong [OF o, of set_mset] arg_cong [OF m, of set_mset] by auto
qed

subsection \<open>Giving the emptied slabs back\<close>

text \<open>Taking the first slab off a channel of the free list.\<close>

lemma fl_pop:
  assumes "chan_items s fl" and "c < nch s" and "items (fl ! c) = d # ds"
  defines "fl' \<equiv> fl[c := (fl ! c)\<lparr>items := ds\<rparr>]"
  shows "chan_items s fl'" and "mset (members fl) = add_mset d (mset (members fl'))" and "slab_channel s d = c"
proof -
  have c: "c < length fl" using assms(1,2) by (simp add: chan_items_def)
  have "set (items (fl' ! c')) \<subseteq> set (items (fl ! c'))" for c'
    using assms(3) c by (cases "c' = c") (auto simp: fl'_def)
  then show "chan_items s fl'"
    using assms(1) unfolding chan_items_def by (auto simp: fl'_def)
  show "mset (members fl) = add_mset d (mset (members fl'))"
    using members_update [OF c, of "(fl ! c)\<lparr>items := ds\<rparr>"] assms(3) by (auto simp: fl'_def)
  show "slab_channel s d = c" using assms(1-3) by (simp add: chan_items_def)
qed

lemma gc_state_reclaim:
  assumes st: "gc_state E fl s" and r: "reclaimed E P s s'" and di: "disk_inv (members fl') {} s'" and mi: "mem_inv [] s'"
    and ci: "chan_items s fl'" and sub: "\<And>d. d \<in> set (members fl') \<Longrightarrow> live s d = {}"
  shows "gc_state E fl' s'"
proof -
  have sp: "same_place s s'" and l: "live s' = live s" and inv: "data_inv E s'" using r by (simp_all add: reclaimed_def)
  have "gc_buffer s' = gc_buffer s" using sp by (simp add: same_place_def gc_buffer_def)
  then show ?thesis
    using st inv di mi ci sub l sp chan_items_place [OF sp] by (simp add: gc_state_def same_place_def)
qed

lemma set_members_add: "mset (members fl) = add_mset d (mset (members fl')) \<Longrightarrow> x \<in> set (members fl') \<Longrightarrow> x \<in> set (members fl)"
  by (metis insert_iff set_mset_add_mset_insert set_mset_mset)

text \<open>One slab back to the pool.\<close>

definition refill_one :: "nat \<Rightarrow> nat \<Rightarrow> 'db kv \<Rightarrow> 'db kv" where
  "refill_one c d s = (let s = upd_slab d slab_reset s
     in s\<lparr>ops_pool := chan_add c d (ops_pool s), ops_pool_size := ops_pool_size s + 1\<rparr>)"

lemma refill_one_ok:
  assumes st: "gc_state E fl s" and c: "c < nch s" and it: "items (fl ! c) = d # ds"
    and P: "set_mset (placed (members fl) s) \<subseteq> P"
  defines "fl' \<equiv> fl[c := (fl ! c)\<lparr>items := ds\<rparr>]" and "s' \<equiv> refill_one c d s"
  shows "gc_state E fl' s'" and "reclaimed E P s s'" and "ops_pool_size s' = ops_pool_size s + 1"
    and "placed (members fl') s' = placed (members fl) s" and "nr_free_dslab s' = nr_free_dslab s"
    and "length (members fl) = Suc (length (members fl'))"
proof -
  have inv: "data_inv E s" and di: "disk_inv (members fl) {} s" and mi: "mem_inv [] s" and ci: "chan_items s fl"
    and un: "\<And>x. x \<in> set (members fl) \<Longrightarrow> live s x = {}"
    using st by (simp_all add: gc_state_def)
  note fp = fl_pop [OF ci c it, folded fl'_def]
  have di1: "disk_inv (d # members fl') {} s" by (rule disk_inv_perm [OF di]) (simp add: fp(2))
  have dm: "d \<in> set (members fl)" using arg_cong [OF fp(2), of set_mset] by auto
  note rh = reset_held [OF inv di1 mi un [OF dm]]
  have "d \<in> P" using dm P by (auto simp: placed_def)
  note rr = reclaimed_reset [OF inv di1 mi un [OF dm] this]
  let ?s1 = "upd_slab d slab_reset s"
  have chd: "slab_channel ?s1 d = c" using fp(3) rh(5) by (simp add: same_place_def)
  have s': "s' = ?s1\<lparr>ops_pool := chan_add (slab_channel ?s1 d) d (ops_pool ?s1), ops_pool_size := ops_pool_size ?s1 + 1\<rparr>"
    by (simp add: s'_def refill_one_def chd Let_def)
  have di2: "disk_inv (members fl') {} s'"
    unfolding s' by (rule give_ops [OF data_invD(1) [OF rh(1)] rh(3)]) (simp_all add: rh(6))
  have lm: "list_move ?s1 s'" by (simp add: s')
  have "reclaimed E P ?s1 s'" by (rule reclaimed_move [OF rh(1) lm]) (simp_all add: s')
  with rr show r: "reclaimed E P s s'" by (rule reclaimed_trans)
  have mi2: "mem_inv [] s'" using list_move_mem [OF lm] rh(4) by simp
  show "gc_state E fl' s'"
    by (rule gc_state_reclaim [OF st r di2 mi2 fp(1)]) (use un set_members_add [OF fp(2)] in blast)
  show "ops_pool_size s' = ops_pool_size s + 1" "nr_free_dslab s' = nr_free_dslab s" by (simp_all add: s')
  have "slab_channel ?s1 d < nch ?s1" using chd c by simp
  from chans_add(2) [OF disk_invD(3) [OF rh(3)] this]
  show "placed (members fl') s' = placed (members fl) s" by (simp add: s' placed_def on_lists_def fp(2))
  show "length (members fl) = Suc (length (members fl'))" using arg_cong [OF fp(2), of size] by simp
qed

lemma refill_ops_unfold:
  "refill_ops c k fl s =
     (if k \<le> 0 then Some (fl, s)
      else case items (fl ! c) of
             [] \<Rightarrow> refill_ops (next_channel s c) k fl s
           | d # ds \<Rightarrow> refill_ops (next_channel s c) (k - 1) (fl[c := (fl ! c)\<lparr>items := ds\<rparr>]) (refill_one c d s))"
  by (subst refill_ops.simps)
    (simp add: Let_def refill_one_def next_channel_def split: list.split)

lemma refill_ops_induct [consumes 1, case_names stop skip took]:
  assumes "refill_ops c k fl s = Some y"
    and stop: "\<And>c k fl s. k \<le> 0 \<Longrightarrow> P c k fl s (fl, s)"
    and skip: "\<And>c k fl s y. 0 < k \<Longrightarrow> items (fl ! c) = [] \<Longrightarrow> P (next_channel s c) k fl s y \<Longrightarrow> P c k fl s y"
    and took: "\<And>c k fl s d ds y. 0 < k \<Longrightarrow> items (fl ! c) = d # ds \<Longrightarrow>
      P (next_channel s c) (k - 1) (fl[c := (fl ! c)\<lparr>items := ds\<rparr>]) (refill_one c d s) y \<Longrightarrow> P c k fl s y"
  shows "P c k fl s y"
proof (rule refill_ops.raw_induct [OF _ assms(1)])
  fix f c and k :: int and fl and s :: "'a kv" and y
  assume IH: "\<And>c k fl s y. f c k fl s = Some y \<Longrightarrow> P c k fl s y"
    and body: "(if k \<le> 0 then Some (fl, s)
      else case items (fl ! c) of
             [] \<Rightarrow> f (next_channel s c) k fl s
           | d # ds \<Rightarrow> let s = upd_slab d slab_reset s
               in f (next_channel s c) (k - 1) (fl[c := (fl ! c)\<lparr>items := ds\<rparr>])
                    (s\<lparr>ops_pool := chan_add c d (ops_pool s), ops_pool_size := ops_pool_size s + 1\<rparr>)) = Some y"
  show "P c k fl s y"
  proof (cases "k \<le> 0")
    case True
    then show ?thesis using body stop [of k c fl s] by simp
  next
    case False
    show ?thesis
    proof (cases "items (fl ! c)")
      case Nil
      then show ?thesis using body IH skip [of k fl c s y] False by simp
    next
      case (Cons d ds)
      then have "f (next_channel s c) (k - 1) (fl[c := (fl ! c)\<lparr>items := ds\<rparr>]) (refill_one c d s) = Some y"
        using body False by (simp add: Let_def refill_one_def next_channel_def)
      from IH [OF this] show ?thesis using took [of k fl c d ds s y] Cons False by simp
    qed
  qed
qed

definition refill_result :: "'db env \<Rightarrow> nat set \<Rightarrow> int \<Rightarrow> slist list \<Rightarrow> 'db kv \<Rightarrow> slist list \<times> 'db kv \<Rightarrow> bool" where
  "refill_result E P k fl s y \<longleftrightarrow> gc_state E (fst y) (snd y) \<and> reclaimed E P s (snd y) \<and>
     ops_pool_size (snd y) = ops_pool_size s + max 0 k \<and> placed (members (fst y)) (snd y) = placed (members fl) s \<and>
     nr_free_dslab (snd y) = nr_free_dslab s"

lemma reclaimed_nch: "reclaimed E P s s' \<Longrightarrow> nch s' = nch s"
  by (simp add: reclaimed_def same_place_def)

lemma refill_ops_result:
  assumes "refill_ops c k fl s = Some y" and "gc_state E fl s" and "c < nch s" and "set_mset (placed (members fl) s) \<subseteq> P"
  shows "refill_result E P k fl s y"
proof -
  have "gc_state E fl s \<longrightarrow> c < nch s \<longrightarrow> set_mset (placed (members fl) s) \<subseteq> P \<longrightarrow> refill_result E P k fl s y"
    using assms(1)
  proof (induction rule: refill_ops_induct)
    case (stop c k fl s)
    then show ?case by (simp add: refill_result_def reclaimed_refl gc_state_def)
  next
    case (skip c k fl s y)
    then show ?case by (auto simp: next_channel_def nch_def)
  next
    case (took c k fl s d ds y)
    show ?case
    proof (intro impI)
      assume st: "gc_state E fl s" and c: "c < nch s" and P: "set_mset (placed (members fl) s) \<subseteq> P"
      note ro = refill_one_ok [OF st c took(2) P]
      have "next_channel s c < nch (refill_one c d s)"
        using c reclaimed_nch [OF ro(2)] by (simp add: next_channel_def nch_def)
      then have "refill_result E P (k - 1) (fl[c := (fl ! c)\<lparr>items := ds\<rparr>]) (refill_one c d s) y"
        using took(3) ro(1,4) P by simp
      then show "refill_result E P k fl s y"
        using ro reclaimed_trans [OF ro(2)] took(1) by (simp add: refill_result_def)
    qed
  qed
  then show ?thesis using assms by blast
qed

lemma next_item:
  assumes "chan_items s fl" and "members fl \<noteq> []"
  shows "\<exists>j. items (fl ! ((p + j) mod nch s)) \<noteq> []"
proof -
  obtain d where "d \<in> set (members fl)" using assms(2) by (cases "members fl") auto
  then obtain c where c: "c < nch s" "items (fl ! c) \<noteq> []"
    using assms(1) by (force simp: members_def chan_items_def in_set_conv_nth [of _ fl])
  define j where "j = nch s + c - p mod nch s"
  have "p mod nch s < nch s" using c(1) by simp
  then have "p mod nch s + j = nch s + c" by (simp add: j_def)
  moreover have "(p + j) mod nch s = (p mod nch s + j) mod nch s" by (simp add: mod_simps)
  ultimately show ?thesis using c by (intro exI [of _ j]) simp
qed

lemma refill_ops_returns:
  assumes "gc_state E fl s" and "c < nch s" and "k \<le> int (length (members fl))"
  shows "refill_ops c k fl s \<noteq> None"
  using assms
proof (induction "nat k" arbitrary: c k fl s)
  case 0
  then show ?case by (simp add: refill_ops_unfold)
next
  case (Suc n)
  have k: "0 < k" using Suc.hyps by simp
  have "members fl \<noteq> []" using Suc.prems(3) k by auto
  then obtain j where j: "items (fl ! ((c + j) mod nch s)) \<noteq> []"
    using next_item [of s fl c] Suc.prems(1) by (auto simp: gc_state_def)
  have took: "refill_ops c k fl s \<noteq> None" if c: "c < nch s" and it: "items (fl ! c) = d # ds" for c d ds
  proof -
    note ro = refill_one_ok [OF Suc.prems(1) c it subset_refl]
    have "refill_ops (next_channel s c) (k - 1) (fl[c := (fl ! c)\<lparr>items := ds\<rparr>]) (refill_one c d s) \<noteq> None"
      by (rule Suc.hyps(1))
        (use Suc.hyps(2) Suc.prems(3) ro c reclaimed_nch [OF ro(2)] in \<open>auto simp: next_channel_def nch_def\<close>)
    then show ?thesis using it k by (subst refill_ops_unfold) simp
  qed
  have "refill_ops c k fl s \<noteq> None" if "c < nch s" "items (fl ! ((c + j) mod nch s)) \<noteq> []" for c j
    using that
  proof (induction j arbitrary: c)
    case 0
    then show ?case using took by (auto simp: neq_Nil_conv)
  next
    case (Suc j)
    show ?case
    proof (cases "items (fl ! c)")
      case Nil
      have "(next_channel s c + j) mod nch s = (c + Suc j) mod nch s"
        using mod_add_left_eq [of "c + 1" "nch s" j] by (simp add: next_channel_def nch_def)
      then have "refill_ops (next_channel s c) k fl s \<noteq> None"
        using Suc.prems by (intro Suc.IH) (simp_all add: next_channel_def nch_def)
      then show ?thesis using Nil k by (subst refill_ops_unfold) simp
    next
      case (Cons d ds)
      then show ?thesis using took [OF Suc.prems(1)] by blast
    qed
  qed
  then show ?case using j Suc.prems(2) by blast
qed

text \<open>Shrinking the pool.\<close>

lemma shrink_one_ok:
  assumes st: "gc_state E fl s" and it: "items (ops_pool s ! c) = d # ds" and c: "c < nch s"
    and s': "s' = upd_slab d slab_reset (s\<lparr>next_ops_pool_remove_channel := p,
      ops_pool := chan_del c d (ops_pool s), ops_pool_size := ops_pool_size s - 1\<rparr>)" and p: "p < nch s"
    and P: "set_mset (placed (members fl) s) \<subseteq> P"
  shows "gc_state E (chan_add c d fl) s'" and "reclaimed E P s s'" and "ops_pool_size s' = ops_pool_size s - 1"
    and "placed (members (chan_add c d fl)) s' = placed (members fl) s" and "nr_free_dslab s' = nr_free_dslab s"
proof -
  have inv: "data_inv E s" and di: "disk_inv (members fl) {} s" and mi: "mem_inv [] s" and ci: "chan_items s fl"
    and un: "\<And>x. x \<in> set (members fl) \<Longrightarrow> live s x = {}"
    using st by (simp_all add: gc_state_def)
  let ?s0 = "s\<lparr>next_ops_pool_remove_channel := p\<rparr>"
  let ?s1 = "?s0\<lparr>ops_pool := chan_del c d (ops_pool s), ops_pool_size := ops_pool_size s - 1\<rparr>"
  have d: "d \<in> set (items (ops_pool s ! c))" using it by simp
  note dl = chans_del [OF disk_invD(3) [OF di] c d]
  have lm: "list_move s ?s1" using list_move_trans [of s ?s0 ?s1] p by simp
  have di1: "disk_inv (d # members fl) {} ?s1" using take_ops_pool [of "members fl" "{}" ?s0 c d] di c d by simp
  have inv1: "data_inv E ?s1" using list_move_data(1) [OF lm] inv by simp
  have mi1: "mem_inv [] ?s1" using list_move_mem [OF lm] mi by simp
  have l1: "live ?s1 = live s" by (rule list_move_live [OF lm])
  have lvd: "live s d = {}" using live_empty_alloc [OF inv] disk_invD(7) [OF di dl(3)] by simp
  have un1: "live ?s1 d = {}" using l1 lvd by simp
  note rh = reset_held [OF inv1 di1 mi1 un1]
  have "d \<in> P" using dl(3) P by (auto simp: placed_def on_lists_def)
  note rr = reclaimed_reset [OF inv1 di1 mi1 un1 this]
  have e: "s' = upd_slab d slab_reset ?s1" by (simp add: s')
  show r: "reclaimed E P s s'"
    unfolding e using reclaimed_trans [OF reclaimed_move [OF inv lm] rr] by simp
  note fa = chan_items_add [OF ci, of d, unfolded dl(4), OF c]
  have "disk_inv (members (chan_add c d fl)) {} s'"
    by (rule disk_inv_perm [OF rh(3) [folded e]]) (simp add: fa(2))
  then show "gc_state E (chan_add c d fl) s'"
    by (rule gc_state_reclaim [OF st r _ rh(4) [folded e] fa(1)])
      (use arg_cong [OF fa(2), of set_mset] un lvd in auto)
  show "ops_pool_size s' = ops_pool_size s - 1" "nr_free_dslab s' = nr_free_dslab s" by (simp_all add: e)
  show "placed (members (chan_add c d fl)) s' = placed (members fl) s"
    using dl(2) by (simp add: e placed_def on_lists_def fa(2) flip: dl(2))
qed

lemma shrink_ops_ok:
  assumes "shrink_ops n fl s = (fl', s')" and "gc_state E fl s" and "set_mset (placed (members fl) s) \<subseteq> P"
  shows "gc_state E fl' s' \<and> reclaimed E P s s' \<and> ops_pool_size s - int n \<le> ops_pool_size s' \<and>
    ops_pool_size s' \<le> ops_pool_size s \<and> placed (members fl') s' = placed (members fl) s \<and>
    nr_free_dslab s' = nr_free_dslab s"
  using assms
proof (induction n arbitrary: fl s)
  case 0
  then show ?case by (simp add: reclaimed_refl gc_state_def)
next
  case (Suc n)
  have inv: "data_inv E s" using Suc.prems(2) by (simp add: gc_state_def)
  let ?c = "next_channel s (next_ops_pool_remove_channel s)"
  have npos: "0 < nch s" by (rule nch_pos [OF data_invD(1) [OF inv]])
  then have c: "?c < nch s" "(next_ops_pool_remove_channel s + 1) mod nat (nr_channels (ssd s)) = ?c"
    by (simp_all add: next_channel_def nch_def)
  show ?case
  proof (cases "items (ops_pool s ! ?c)")
    case Nil
    let ?s1 = "s\<lparr>next_ops_pool_remove_channel := ?c\<rparr>"
    have lm: "list_move s ?s1" using c by simp
    have r1: "reclaimed E P s ?s1" by (rule reclaimed_move [OF inv lm]) simp_all
    have st1: "gc_state E fl ?s1"
      using Suc.prems(2) list_move_mem [OF lm, of "[]"] list_move_live [OF lm] r1
        chan_items_place [of s ?s1] lm
      by (simp add: gc_state_def reclaimed_def same_place_def gc_buffer_def list_move_def)
    have pl1: "placed (members fl) ?s1 = placed (members fl) s" by (simp add: placed_def on_lists_def)
    have "shrink_ops n fl ?s1 = (fl', s')" using Suc.prems(1) Nil c by (simp add: Let_def)
    from Suc.IH [OF this st1] show ?thesis using reclaimed_trans [OF r1] pl1 Suc.prems(3) by auto
  next
    case (Cons d ds)
    let ?s1 = "upd_slab d slab_reset (s\<lparr>next_ops_pool_remove_channel := ?c,
      ops_pool := chan_del ?c d (ops_pool s), ops_pool_size := ops_pool_size s - 1\<rparr>)"
    note so = shrink_one_ok [OF Suc.prems(2) Cons c(1) refl c(1) Suc.prems(3)]
    have "shrink_ops n (chan_add ?c d fl) ?s1 = (fl', s')" using Suc.prems(1) Cons c by (simp add: Let_def)
    from Suc.IH [OF this so(1)] show ?thesis using reclaimed_trans [OF so(2)] so(3-5) Suc.prems(3) by auto
  qed
qed

text \<open>The last loop frees the rest, channel by channel.\<close>

lemma slab_channel_reset [simp]: "slab_channel (upd_slab d slab_reset s) = slab_channel s"
  using same_place_upd_slab [of slab_reset s d] by (simp add: same_place_def)

lemma back_to_free_channel: "back_to_free c d s = Ret () s' \<Longrightarrow> slab_channel s' = slab_channel s"
  by (auto simp: back_to_free_def Let_def check_def split: if_splits)

lemma free_channel_eq:
  "(\<And>d. d \<in> set ds \<Longrightarrow> slab_channel s d = c) \<Longrightarrow> free_channel c ds s = reclaim_to_free ds s"
proof (induction ds arbitrary: s)
  case Nil
  then show ?case by simp
next
  case (Cons d ds)
  show ?case
  proof (cases "back_to_free c d (upd_slab d slab_reset s)")
    case (Ret u s1)
    then have "free_channel c ds s1 = reclaim_to_free ds s1"
      using Cons.prems back_to_free_channel [of c d "upd_slab d slab_reset s" s1] by (intro Cons.IH) simp
    then show ?thesis using Ret Cons.prems by (simp add: Let_def)
  qed (use Cons.prems in \<open>simp_all add: Let_def\<close>)
qed

lemma reclaim_to_free_append:
  "reclaim_to_free (as @ bs) s = seq (reclaim_to_free as s) (\<lambda>_ s. reclaim_to_free bs s)"
  by (induction as arbitrary: s) (simp_all add: Let_def seq_assoc)

lemma reclaim_to_free_channel: "reclaim_to_free ds s = Ret () s' \<Longrightarrow> slab_channel s' = slab_channel s"
  by (induction ds arbitrary: s) (auto simp: Let_def seq_Ret_iff dest: back_to_free_channel)

lemma free_channels_eq:
  "(\<And>c d. c \<in> set cs \<Longrightarrow> d \<in> set (items (fl ! c)) \<Longrightarrow> slab_channel s d = c) \<Longrightarrow>
   free_channels cs fl s = reclaim_to_free (concat (map (\<lambda>c. items (fl ! c)) cs)) s"
proof (induction cs arbitrary: s)
  case Nil
  then show ?case by simp
next
  case (Cons c cs)
  have e: "free_channel c (items (fl ! c)) s = reclaim_to_free (items (fl ! c)) s"
    using Cons.prems by (intro free_channel_eq) simp
  show ?case
  proof (cases "reclaim_to_free (items (fl ! c)) s")
    case (Ret u s1)
    then have "free_channels cs fl s1 = reclaim_to_free (concat (map (\<lambda>c. items (fl ! c)) cs)) s1"
      using Cons.prems reclaim_to_free_channel [of "items (fl ! c)" s s1] by (intro Cons.IH) simp
    then show ?thesis using Ret e by (simp add: reclaim_to_free_append)
  qed (use e in \<open>simp_all add: reclaim_to_free_append\<close>)
qed

lemma free_all_eq:
  assumes "chan_items s fl"
  shows "free_channels [0..<nch s] fl s = reclaim_to_free (members fl) s"
proof -
  have "map (\<lambda>c. items (fl ! c)) [0..<nch s] = map items fl"
    using assms by (intro nth_equalityI) (simp_all add: chan_items_def)
  then show ?thesis using free_channels_eq [of "[0..<nch s]" fl s] assms by (simp add: chan_items_def members_def)
qed

subsection \<open>Normal garbage collection keeps every object\<close>

text \<open>
  After a normal collection the invariant holds, every object is still there, and every disk slab
  that was on a list is on one; the list of full slabs may have grown ahead of its counter.
\<close>

definition normal_gc_result :: "'db env \<Rightarrow> 'db kv \<Rightarrow> 'db kv \<Rightarrow> bool" where
  "normal_gc_result E s s' \<longleftrightarrow> gc_result E s s' \<and> keeps E s s' \<and> on_lists s' = on_lists s \<and>
     int (length (members (dslab_full s))) - nr_full_dslab s \<le>
     int (length (members (dslab_full s'))) - nr_full_dslab s'"

lemma members_replicate [simp]: "members (replicate n slist_init) = []" "total_size (replicate n slist_init) = 0"
  by (induction n) (simp_all add: members_def total_size_def)

lemma gc_state_start:
  assumes "kv_inv E s"
  shows "gc_state E (replicate (nch s) slist_init) s"
  using assms by (simp add: kv_inv_def gc_state_def chan_items_def)

lemma gc_state_end:
  assumes "gc_state E fl s" and "members fl = []" and "ops_in_range s"
  shows "kv_inv E s"
  using assms by (simp add: kv_inv_def gc_state_def)

lemma tune_ops_pool_size_ok:
  assumes "tune_ops_pool_size old s = (new, s')"
  shows "list_move s s'" "new = old \<or> 10 \<le> new" "disk_inv H X s' = disk_inv H X s"
    "placed H s' = placed H s" "ops_pool_size s' = ops_pool_size s" "nr_full_dslab s' = nr_full_dslab s"
    "dslab_full s' = dslab_full s" "nr_free_dslab s' = nr_free_dslab s" "chan_items s' fl = chan_items s fl"
  using assms
  by (auto simp: tune_ops_pool_size_def Let_def placed_def on_lists_def chan_items_def split: if_splits)

lemma reclaimed_frame:
  "reclaimed E P s s' \<Longrightarrow> keeps E s s' \<and> same_place s s' \<and> mslab_free s' = mslab_free s \<and> mslab_full s' = mslab_full s \<and>
    slab_class_table s' = slab_class_table s \<and> max_ops_pool_size s' = max_ops_pool_size s \<and>
    index_locked s' = index_locked s \<and> dslab_full s' = dslab_full s \<and> nr_full_dslab s' = nr_full_dslab s \<and>
    apart E P s s'"
  by (simp add: reclaimed_def)

lemma give_back_ok:
  assumes st: "gc_state E fl s" and op: "0 < old" "old \<le> max_ops_pool_size s" "ops_pool_size s \<le> old"
    and two: "2 * (old - ops_pool_size s) \<le> total_size fl" and len: "int (length (members fl)) = total_size fl"
    and P: "set_mset (placed (members fl) s) \<subseteq> P"
  shows "\<exists>s'. give_back old fl s = Ret True s' \<and> kv_inv E s' \<and> reclaimed E P s s' \<and> on_lists s' = placed (members fl) s"
proof -
  obtain new s1 where tu: "tune_ops_pool_size old s = (new, s1)" by (cases "tune_ops_pool_size old s") auto
  note tn = tune_ops_pool_size_ok [OF tu]
  have inv: "data_inv E s" using st by (simp add: gc_state_def)
  have r1: "reclaimed E P s s1" by (rule reclaimed_move [OF inv tn(1,7,6)])
  have st1: "gc_state E fl s1"
    using st r1 list_move_mem [OF tn(1), of "[]"] list_move_live [OF tn(1)] tn(3,9)
    by (simp add: gc_state_def reclaimed_def same_place_def gc_buffer_def)
  have n1: "0 < nch s1" using nch_pos data_invD(1) st1 by (metis gc_state_def)
  let ?k = "old - ops_pool_size s1"
  have k: "?k \<le> int (length (members fl))" "0 \<le> ?k" using two len op tn(5) by simp_all
  obtain y where y: "refill_ops 0 ?k fl s1 = Some y" using refill_ops_returns [OF st1 n1 k(1)] by blast
  obtain fl2 s2 where y2: "y = (fl2, s2)" by (cases y) auto
  have rf: "gc_state E fl2 s2" "reclaimed E P s1 s2" "ops_pool_size s2 = old" "placed (members fl2) s2 = placed (members fl) s1"
    using refill_ops_result [OF y st1 n1, of P] k(2) P tn(4) by (simp_all add: refill_result_def y2)
  obtain fl3 s3 where sh: "shrink_ops (nat (ops_pool_size s2 - new)) fl2 s2 = (fl3, s3)"
    by (cases "shrink_ops (nat (ops_pool_size s2 - new)) fl2 s2") auto
  have "set_mset (placed (members fl2) s2) \<subseteq> P" using P tn(4) rf(4) by simp
  note so = shrink_ops_ok [OF sh rf(1) this]
  have "placed (members fl3) s3 = placed (members fl) s" using so rf(4) tn(4) by simp
  then have "set_mset (placed (members fl3) s3) \<subseteq> P" using P by simp
  then have mP: "set (members fl3) \<subseteq> P" by (simp add: placed_def)
  have st3: "gc_state E fl3 s3" using so by blast
  have d3: "data_inv E s3" "disk_inv (members fl3 @ []) {} s3" "mem_inv [] s3" "\<forall>d \<in> set (members fl3). live s3 d = {}"
    using st3 by (simp_all add: gc_state_def)
  obtain s' where s': "reclaim_to_free (members fl3) s3 = Ret () s'" "reclaimed E P s3 s'" "disk_inv [] {} s'" "mem_inv [] s'"
    "ops_pool_size s' = ops_pool_size s3" "placed [] s' = placed (members fl3 @ []) s3"
    using reclaim_to_free_ok [OF d3 mP] by blast
  have fr: "free_channels [0..<nat (nr_channels (ssd s3))] fl3 s3 = Ret () s'"
    using free_all_eq [of s3 fl3] st3 s'(1) by (simp add: gc_state_def nch_def)
  have rall: "reclaimed E P s s'"
    using reclaimed_trans [OF r1 reclaimed_trans [OF rf(2) reclaimed_trans [OF _ s'(2)]]] so by blast
  have rng: "ops_in_range s'"
    using so rf(3) tn(2) s'(5) op reclaimed_frame [OF rall] by (auto simp: ops_in_range_def split: if_splits)
  have "live s' = live s3" "same_place s3 s'" "data_inv E s'" using s'(2) by (simp_all add: reclaimed_def)
  then have "kv_inv E s'"
    using st3 s'(3,4) rng by (simp add: kv_inv_def gc_state_def same_place_def gc_buffer_def)
  moreover have "on_lists s' = placed (members fl) s" using s'(6) so rf(4) tn(4) by (simp add: placed_def)
  moreover have "give_back old fl s = Ret True s'"
    using tu y y2 sh fr rf(3) check_ops_pool_inv [OF s'(3)] two len tn(5) op
    by (simp add: give_back_def Let_def total_size_def)
  ultimately show ?thesis using rall by blast
qed

lemma normal_gc_safe:
  assumes inv: "kv_inv E s" and hp: "heap_pick_ok E"
  shows "safe (\<lambda>s'. data_inv E s' \<and> keeps E s s') (\<lambda>go s'. go \<and> normal_gc_result E s s') (normal_gc E s)"
proof -
  define order where "order = (let pq = fold (pq_offer E s) (members (dslab_full s)) [] in pq_drain E s (length pq) pq)"
  let ?fl0 = "replicate (nch s) slist_init"
  have di: "disk_inv [] {} s" and pos: "0 < ops_pool_size s" "ops_pool_size s \<le> max_ops_pool_size s"
    using inv by (simp_all add: kv_inv_def ops_in_range_def)
  note ord = normal_gc_order [OF hp pos(1) di, folded order_def]
  have cids: "list_all (\<lambda>d. cid (slabs s ! d) \<noteq> -1) order"
    using ord(2) disk_invD(9) [OF di] by (auto simp: list_all_iff)
  have fin: "safe (\<lambda>s'. data_inv E s' \<and> keeps E s s') (\<lambda>go s'. go \<and> normal_gc_result E s s')
      (give_back (ops_pool_size s) fl s1)" if p: "gc_progress E P ?fl0 s fl s1" for P fl s1
  proof -
    have st: "gc_state E fl s1" and k1: "keeps E s s1" and sp1: "same_place s s1" and le: "ops_pool_size s1 \<le> ops_pool_size s"
      and two: "2 * (ops_pool_size s - ops_pool_size s1) \<le> total_size fl" and len: "int (length (members fl)) = total_size fl"
      and pl: "placed (members fl) s1 = on_lists s" and mx: "max_ops_pool_size s1 = max_ops_pool_size s"
      and fr: "mslab_free s1 = mslab_free s" "mslab_full s1 = mslab_full s" "slab_class_table s1 = slab_class_table s"
        "index_locked s1 = index_locked s" "apart E (gc_reach s) s s1"
      and dr: "int (length (members (dslab_full s))) - nr_full_dslab s \<le>
        int (length (members (dslab_full s1))) - nr_full_dslab s1"
      using p by (simp_all add: gc_progress_def placed_def gc_reach_def)
    have "set_mset (placed (members fl) s1) \<subseteq> gc_reach s" by (simp add: pl gc_reach_def subset_insertI)
    then obtain s' where s': "give_back (ops_pool_size s) fl s1 = Ret True s'" "kv_inv E s'" "reclaimed E (gc_reach s) s1 s'"
      "on_lists s' = placed (members fl) s1"
      using give_back_ok [OF st pos(1) _ le two len] pos(2) mx by auto
    note rf = reclaimed_frame [OF s'(3)]
    have "keeps E s s'" "same_place s s'" "apart E (gc_reach s) s s'"
      using rf keeps_trans [OF k1] same_place_trans [OF sp1] apart_trans [OF fr(5) _ sp1] by blast+
    then have "normal_gc_result E s s'"
      using s' rf fr pl dr keeps_refines by (simp add: normal_gc_result_def gc_result_def)
    then show ?thesis using s'(1) by simp
  qed
  have run: "normal_gc E s = seq (gc_classes E (class_cands s order) ?fl0 s) (\<lambda>fl s1. give_back (ops_pool_size s) fl s1)"
    using pos cids
    by (simp add: normal_gc_def Let_def order_def members_def [symmetric] nch_def)
  show ?thesis
    unfolding run safe_seq
    by (rule safe_mono [OF gc_classes_safe [OF gc_state_start [OF inv] class_cands_ok [OF di ord]]]) (use fin in auto)
qed

end
