(* ===== verification/KV_GC.thy ===== *)
theory KV_GC
  imports KV_NormalGC
begin

text \<open>The round of the collector (\<^verbatim>\<open>do_slab_gc\<close>) and how it is started.\<close>

subsection \<open>The collector\<close>

definition do_slab_gc :: "'db env \<Rightarrow> 'db kv \<Rightarrow> (bool, 'db kv) outcome" where
  "do_slab_gc E s =
     (if \<not> (nr_full_dslab s > 0 \<or> shutdown s) then Wait ''gc_signal_'' s
      else if shutdown s then Ret False s
      else
        let nr_free = nr_free_dslab s
        in seq (check (0 \<le> nr_free) ''nr_free_dslab >= 0'' s) (\<lambda>_ s.
           if nr_free_index_entry (index s) = 0 then do_quick_gc E 1 0 s
           else if nr_free < water_mark_low s then quick_gc E s
           else normal_gc E s))"

text \<open>
  \<^verbatim>\<open>slab_gc\<close>: with background collection it only starts the collector thread the first time;
  otherwise it runs one round itself.
\<close>

definition slab_gc :: "'db env \<Rightarrow> 'db kv \<Rightarrow> (unit, 'db kv) outcome" where
  "slab_gc E s =
     (if enable_background_gc s then Ret () (s\<lparr>slab_gc_thread_started := True\<rparr>)
      else seq (do_slab_gc E s) (\<lambda>_ s. Ret () s))"

definition wait_slab_gc_until_shutdown :: "'db kv \<Rightarrow> (bool, 'db kv) outcome" where
  "wait_slab_gc_until_shutdown s =
     (if enable_background_gc s then
        if nr_free_dslab s > 0 \<or> shutdown s then Ret (\<not> shutdown s) s
        else Wait ''gc_finished_signal_'' s
      else Ret True s)"

subsection \<open>A round of the collector is safe\<close>

lemma gc_result_refl: "kv_inv E s \<Longrightarrow> gc_result E s s"
  by (simp add: gc_result_def)

lemma gc_exit_refl: "kv_inv E s \<Longrightarrow> gc_exit E s s"
  by (simp add: gc_exit_def kv_inv_def)

lemma nr_free_nonneg:
  assumes "disk_inv H X s"
  shows "0 \<le> nr_free_dslab s"
  using disk_invD(1,4) [OF assms] total_size_members by simp

lemma kv_inv_ops: "kv_inv E s \<Longrightarrow> 0 < ops_pool_size s \<and> ops_pool_size s \<le> max_ops_pool_size s"
  by (simp add: kv_inv_def ops_in_range_def)

lemma do_slab_gc_safe:
  assumes inv: "kv_inv E s" and hp: "heap_pick_ok E"
  shows "safe (gc_exit E s) (\<lambda>_ s'. gc_result E s s') (do_slab_gc E s)"
proof -
  have free: "0 \<le> nr_free_dslab s" using inv nr_free_nonneg by (auto simp: kv_inv_def)
  have drop: "safe (gc_exit E s) (\<lambda>_ s'. gc_result E s s') (do_quick_gc E 1 0 s)"
    by (rule safe_weaken [OF do_quick_gc_safe [OF inv]]) (use kv_inv_ops [OF inv] quick_gc_result_gc in auto)
  have quick: "safe (gc_exit E s) (\<lambda>_ s'. gc_result E s s') (quick_gc E s)"
    by (rule safe_weaken [OF quick_gc_safe [OF inv]]) simp
  have normal: "safe (gc_exit E s) (\<lambda>_ s'. gc_result E s s') (normal_gc E s)"
    by (rule safe_mono [OF normal_gc_safe [OF inv hp]])
      (auto simp: gc_exit_def normal_gc_result_def keeps_refines)
  show ?thesis
    using drop quick normal free gc_result_refl [OF inv] gc_exit_refl [OF inv]
    by (simp add: do_slab_gc_def Let_def)
qed

lemma started_same_data: "same_data s (s\<lparr>slab_gc_thread_started := b\<rparr>)"
  by (simp add: same_data_def)

lemma slab_gc_safe:
  assumes inv: "kv_inv E s" and hp: "heap_pick_ok E"
  shows "safe (gc_exit E s) (\<lambda>_ s'. gc_result E s s') (slab_gc E s)"
proof (cases "enable_background_gc s")
  case True
  let ?s = "s\<lparr>slab_gc_thread_started := True\<rparr>"
  have lm: "list_move s ?s" by (simp add: list_move_def same_data_def same_place_def ptrs_ok_def)
  have "disk_inv [] {} ?s"
    using inv by (simp add: kv_inv_def disk_inv_def placed_def on_lists_def is_dslab_def)
  then have "kv_inv E ?s"
    by (intro kv_inv_move [OF inv lm]) (use inv in \<open>simp_all add: kv_inv_def ops_in_range_def\<close>)
  then have "gc_result E s ?s"
    by (intro move_gc_result [OF lm]) (simp_all add: on_lists_def)
  then show ?thesis using True by (simp add: slab_gc_def)
next
  case False
  then show ?thesis using do_slab_gc_safe [OF inv hp] by (simp add: slab_gc_def)
qed

lemma wait_slab_gc_safe:
  "kv_inv E s \<Longrightarrow> safe (gc_exit E s) (\<lambda>_ s'. s' = s) (wait_slab_gc_until_shutdown s)"
  using gc_exit_refl [of E s] by (simp add: wait_slab_gc_until_shutdown_def)

end
