(* ===== verification/KV_Flush.thy ===== *)
theory KV_Flush
  imports KV_GC
begin

text \<open>
  Flushing full memory slabs to disk (\<^verbatim>\<open>do_slab_flush\<close>, \<^verbatim>\<open>slab_flush\<close>) and the allocation of a slot
  for a new object (\<^verbatim>\<open>slot_alloc\<close>). Loops and recursions that wait for another component to make
  progress carry a bound; running out of it is the outcome \<open>Hang\<close>.
\<close>

subsection \<open>Flushing\<close>

text \<open>One round over the channels in search of a free disk slab: the slab and its channel.\<close>

fun take_free_dslab :: "nat \<Rightarrow> nat \<Rightarrow> 'db kv \<Rightarrow> ((nat \<times> nat) option, 'db kv) outcome" where
  "take_free_dslab 0 beginning s = Ret None s"
| "take_free_dslab (Suc n) beginning s =
     (let c = next_mslab_flush_channel s;
          s = s\<lparr>next_mslab_flush_channel := next_channel s c\<rparr>
      in case items (dslab_free s ! c) of
           d # _ \<Rightarrow>
             seq (check (cid (slabs s ! d) = -1) ''dslab->cid == -1'' s) (\<lambda>_ s.
             let s = s\<lparr>dslab_free := chan_del c d (dslab_free s), nr_free_dslab := nr_free_dslab s - 1\<rparr>
             in seq (check (0 \<le> nr_free_dslab s) ''nr_free_dslab_ >= 0'' s) (\<lambda>_ s.
                Ret (Some (d, c)) s))
         | [] \<Rightarrow>
             if next_mslab_flush_channel s = beginning then Ret None s
             else take_free_dslab n beginning s)"

fun find_dslab :: "'db env \<Rightarrow> nat \<Rightarrow> 'db kv \<Rightarrow> ((nat \<times> nat) option, 'db kv) outcome" where
  "find_dslab E 0 s = Hang"
| "find_dslab E (Suc n) s =
     seq (take_free_dslab (nat (nr_channels (ssd s))) (next_mslab_flush_channel s) s) (\<lambda>r s.
     case r of
       Some dc \<Rightarrow> Ret (Some dc) s
     | None \<Rightarrow>
         seq (slab_gc E s) (\<lambda>_ s.
         seq (wait_slab_gc_until_shutdown s) (\<lambda>go s.
         if \<not> go then Ret None s else find_dslab E n s)))"

definition finish_flush :: "nat \<Rightarrow> nat \<Rightarrow> nat \<Rightarrow> 'db kv \<Rightarrow> 'db kv" where
  "finish_flush m d c s =
     (let s = upd_slab m slab_reset s;
          s = s\<lparr>mslab_free := slist_add m (mslab_free s)\<rparr>
      in s\<lparr>dslab_full := chan_add c d (dslab_full s), nr_full_dslab := nr_full_dslab s + 1\<rparr>)"

definition flush_to :: "'db env \<Rightarrow> nat \<Rightarrow> nat \<Rightarrow> nat \<Rightarrow> 'db kv \<Rightarrow> (bool, 'db kv) outcome" where
  "flush_to E m d c s =
     seq (check (int c < nr_channels (ssd s)) ''dslab_channel < nr_channels_'' s) (\<lambda>_ s.
     seq (flush_mslab_to_dslab E m d s) (\<lambda>_ s.
     seq (check (cid (slabs s ! d) = cid (slabs s ! m)) ''dslab->cid == mslab->cid'' s) (\<lambda>_ s.
     seq (check (cid (slabs s ! d) \<noteq> -1) ''dslab->cid != -1'' s) (\<lambda>_ s.
     seq (lock_index s) (\<lambda>_ s.
     seq (modify_index_to E m d s) (\<lambda>_ s.
     Ret True (finish_flush m d c (unlock_index s))))))))"

definition do_slab_flush :: "'db env \<Rightarrow> nat \<Rightarrow> 'db kv \<Rightarrow> (bool, 'db kv) outcome" where
  "do_slab_flush E fuel s =
     (if shutdown s then Ret False s
      else case items (mslab_full s) of
        [] \<Rightarrow> Wait ''flush_signal_'' s
      | m # _ \<Rightarrow>
          seq (check (cid (slabs s ! m) \<noteq> -1) ''mslab->cid != -1'' s) (\<lambda>_ s.
          seq (find_dslab E fuel (s\<lparr>mslab_full := slist_del m (mslab_full s)\<rparr>)) (\<lambda>r s.
          case r of
            None \<Rightarrow> Ret False s
          | Some (d, c) \<Rightarrow> flush_to E m d c s)))"

definition slab_flush :: "'db env \<Rightarrow> nat \<Rightarrow> 'db kv \<Rightarrow> (unit, 'db kv) outcome" where
  "slab_flush E fuel s =
     (if enable_background_flush s then Ret () (s\<lparr>slab_flush_thread_started := True\<rparr>)
      else seq (do_slab_flush E fuel s) (\<lambda>_ s. Ret () s))"

definition wait_slab_flush_until_shutdown :: "'db kv \<Rightarrow> (bool, 'db kv) outcome" where
  "wait_slab_flush_until_shutdown s =
     (if enable_background_flush s then
        if items (mslab_free s) \<noteq> [] \<or> shutdown s then Ret (\<not> shutdown s) s
        else Wait ''flush_finished_signal_'' s
      else Ret True s)"

subsection \<open>Allocating a slot\<close>

definition upd_class :: "nat \<Rightarrow> (slab_class \<Rightarrow> slab_class) \<Rightarrow> 'db kv \<Rightarrow> 'db kv" where
  "upd_class c f s = s\<lparr>slab_class_table := (slab_class_table s)[c := f (slab_class_table s ! c)]\<rparr>"

text \<open>Taking a slot of the first partial slab of a class; the result is the address of the slot.\<close>

definition alloc_partial :: "nat \<Rightarrow> nat \<Rightarrow> 'db kv \<Rightarrow> (nat, 'db kv) outcome" where
  "alloc_partial c m s =
     seq (check (-1 \<le> cid (slabs s ! m)) ''slab->cid >= -1'' s) (\<lambda>_ s.
     case slab_slot_alloc (slabs s ! m) of
       Ret off sl \<Rightarrow>
         let s = upd_slab m (\<lambda>_. sl) s;
             s = (if is_full sl then upd_class c (\<lambda>sc. sc\<lparr>slab_partial := remove1 m (slab_partial sc)\<rparr>) s
                  else s)
         in Ret (slab_addr (mslab_base s) (slab_size s) (nr_mslab s) m + slab_header_size + off) s
     | _ \<Rightarrow> Abort ''!slab->is_full()'')"

text \<open>A free memory slab becomes the partial slab of a class.\<close>

definition take_free_mslab :: "nat \<Rightarrow> nat \<Rightarrow> 'db kv \<Rightarrow> 'db kv" where
  "take_free_mslab c m s =
     (let s = s\<lparr>mslab_free := slist_del m (mslab_free s)\<rparr>;
          sc = slab_class_table s ! c;
          s = upd_slab m (\<lambda>sl. sl\<lparr>cid := sc_cid sc, slot_size := sc_slot_size sc,
                nr_slots := (slab_size s - slab_header_size) div sc_slot_size sc\<rparr>) s
      in upd_class c (\<lambda>sc. sc\<lparr>slab_partial := m # slab_partial sc\<rparr>) s)"

fun slot_alloc :: "'db env \<Rightarrow> nat \<Rightarrow> nat \<Rightarrow> nat \<Rightarrow> 'db kv \<Rightarrow> (Status + nat, 'db kv) outcome" where
  "slot_alloc E fuel 0 sz s = Hang"
| "slot_alloc E fuel (Suc n) sz s =
     (case get_slab_class (slab_class_table s) sz of
        Inl st \<Rightarrow> Ret (Inl st) s
      | Inr c \<Rightarrow>
          (case slab_partial (slab_class_table s ! c) of
             m # _ \<Rightarrow> seq (alloc_partial c m s) (\<lambda>slot s. Ret (Inr slot) s)
           | [] \<Rightarrow>
               (case items (mslab_free s) of
                  m # _ \<Rightarrow>
                    seq (check (sc_cid (slab_class_table s ! c) \<noteq> -1) ''slab->cid != -1'' s) (\<lambda>_ s.
                    slot_alloc E fuel n sz (take_free_mslab c m s))
                | [] \<Rightarrow>
                    seq (slab_flush E fuel s) (\<lambda>_ s.
                    seq (wait_slab_flush_until_shutdown s) (\<lambda>go s.
                    if \<not> go then Ret (Inl (Shutdown ''KVCache is shutting down'')) s
                    else slot_alloc E fuel n sz s)))))"

subsection \<open>The search for a free disk slab\<close>

text \<open>The invariant of an operation that holds the disk slabs \<open>H\<close> off the lists.\<close>

definition kv_held :: "'db env \<Rightarrow> nat list \<Rightarrow> 'db kv \<Rightarrow> bool" where
  "kv_held E H s \<longleftrightarrow> data_inv E s \<and> disk_inv H {} s \<and> mem_inv [] s \<and> ops_in_range s \<and>
     ptrs_ok s \<and> live s (gc_buffer s) = {}"

lemma kv_held_Nil: "kv_held E [] s = kv_inv E s"
  by (simp add: kv_held_def kv_inv_def)

lemma kv_held_move:
  assumes inv: "kv_held E H s" and lm: "list_move s s'" and "disk_inv H' {} s'"
    and "ops_pool_size s' = ops_pool_size s"
  shows "kv_held E H' s'"
proof -
  have "gc_buffer s' = gc_buffer s" "ptrs_ok s'" "ops_in_range s'"
    using lm inv assms(4) by (simp_all add: list_move_def same_data_def gc_buffer_def kv_held_def same_place_def ops_in_range_def)
  then show ?thesis
    using assms list_move_data(1) [OF lm, of E] list_move_mem [OF lm] list_move_live [OF lm]
    by (simp add: kv_held_def)
qed

definition took :: "(nat \<times> nat) option \<Rightarrow> 'db kv \<Rightarrow> 'db kv \<Rightarrow> bool" where
  "took r s s' \<longleftrightarrow> list_move s s' \<and> ops_pool_size s' = ops_pool_size s \<and>
     (case r of None \<Rightarrow> disk_inv [] {} s' \<and> on_lists s' \<subseteq># on_lists s
      | Some (d, c) \<Rightarrow> disk_inv [d] {} s' \<and> placed [d] s' \<subseteq># on_lists s \<and> c = slab_channel s d \<and> is_dslab s d \<and> nr_alloc (slabs s ! d) = 0)"

lemma took_move:
  assumes "list_move s t" and "ops_pool_size t = ops_pool_size s" and "took r t s'" and "on_lists t = on_lists s"
  shows "took r s s'"
proof -
  have "slab_channel t = slab_channel s" using assms(1) by (simp add: list_move_def same_place_def)
  then show ?thesis
    using assms list_move_trans [OF assms(1), of s'] list_move_data(3,4) [OF assms(1)]
    by (auto simp: took_def split: option.splits)
qed

lemma take_free_dslab_ok:
  assumes "data_inv E s" and "disk_inv [] {} s" and "next_mslab_flush_channel s < nch s"
  shows "\<exists>r s'. take_free_dslab n b s = Ret r s' \<and> took r s s'"
  using assms
proof (induction n arbitrary: s)
  case 0
  then show ?case by (simp add: took_def)
next
  case (Suc n)
  let ?c = "next_mslab_flush_channel s"
  let ?s = "s\<lparr>next_mslab_flush_channel := next_channel s ?c\<rparr>"
  have nx: "next_channel s ?c < nch s"
    using nch_pos [OF data_invD(1) [OF Suc.prems(1)]] by (simp add: next_channel_def nch_def)
  have lm: "list_move s ?s" using nx by simp
  show ?case
  proof (cases "items (dslab_free s ! ?c)")
    case Nil
    have "data_inv E ?s" "disk_inv [] {} ?s" "next_mslab_flush_channel ?s < nch ?s"
      using Suc.prems list_move_data(1) [OF lm] nx by simp_all
    from Suc.IH [OF this] obtain r s' where "take_free_dslab n b ?s = Ret r s'" "took r ?s s'" by blast
    then have rec: "take_free_dslab n b ?s = Ret r s'" "took r s s'" using took_move [OF lm] by (auto simp: on_lists_def)
    have "took None s ?s" using lm Suc.prems(2) by (simp add: took_def on_lists_def)
    with rec Nil show ?thesis by (cases "next_channel s ?c = b") (simp_all add: Let_def)
  next
    case (Cons d ds)
    let ?t = "?s\<lparr>dslab_free := chan_del ?c d (dslab_free ?s), nr_free_dslab := nr_free_dslab ?s - 1\<rparr>"
    have d: "d \<in> set (items (dslab_free ?s ! ?c))" using Cons by simp
    have di: "disk_inv [] {} ?s" using Suc.prems(2) by simp
    have c: "?c < nch ?s" using Suc.prems(3) by simp
    note tk = take_free [OF di c d]
    note dl = chans_del [OF disk_invD(1) [OF di] c d]
    have hd: "is_dslab ?s d \<and> nr_alloc (slabs ?s ! d) = 0 \<and> cid (slabs ?s ! d) = -1"
      by (rule disk_invD(6) [OF di dl(3)])
    have "list_move s ?t" by (rule list_move_trans [OF lm]) simp
    moreover have "placed [d] ?t = on_lists s" using dl(2) by (simp add: placed_def on_lists_def flip: dl(2))
    ultimately have "took (Some (d, ?c)) s ?t" using tk(1) hd dl(4) by (simp add: took_def is_dslab_def)
    moreover have "0 \<le> nr_free_dslab ?t" using tk(2) by simp
    ultimately show ?thesis using Cons hd by (simp add: Let_def)
  qed
qed

text \<open>The round over the channels misses no free slab.\<close>

lemma take_free_dslab_None:
  assumes "take_free_dslab n b s = Ret None s'" and "next_mslab_flush_channel s = (b + i) mod nch s"
    and "i + n = nch s" and "i \<le> k" "k < nch s" and "b < nch s"
  shows "items (dslab_free s ! ((b + k) mod nch s)) = []"
  using assms
proof (induction n arbitrary: s i)
  case 0
  then show ?case by simp
next
  case (Suc n)
  let ?c = "next_mslab_flush_channel s"
  let ?s = "s\<lparr>next_mslab_flush_channel := next_channel s ?c\<rparr>"
  have nx: "next_channel s ?c = (b + Suc i) mod nch s"
    using Suc.prems(2) by (simp add: next_channel_def nch_def mod_Suc_eq)
  have emp: "items (dslab_free s ! ?c) = []"
    using Suc.prems(1) by (auto simp: Let_def check_def split: list.splits if_splits)
  show ?case
  proof (cases "k = i")
    case True
    then show ?thesis using emp Suc.prems(2) by simp
  next
    case False
    then have k: "Suc i \<le> k" using Suc.prems(4) by simp
    have "Suc i < nch s" using k Suc.prems(5) by simp
    have "(b + Suc i) mod nch s \<noteq> b"
    proof
      assume "(b + Suc i) mod nch s = b"
      moreover have "b mod nch s = b" using Suc.prems(6) by simp
      ultimately have "(b + Suc i) mod nch s = b mod nch s" by simp
      then have "nch s dvd Suc i" by (simp add: mod_eq_dvd_iff_nat)
      with \<open>Suc i < nch s\<close> show False by (auto dest: dvd_imp_le)
    qed
    then have run: "take_free_dslab n b ?s = Ret None s'"
      using Suc.prems(1) emp nx by (simp add: Let_def)
    have "items (dslab_free ?s ! ((b + k) mod nch ?s)) = []"
      by (rule Suc.IH [OF run, of "Suc i"]) (use nx k Suc.prems in simp_all)
    then show ?thesis by simp
  qed
qed

lemma take_free_dslab_finds:
  assumes inv: "kv_inv E s" and free: "0 < nr_free_dslab s"
  shows "\<exists>d c s'. take_free_dslab (nat (nr_channels (ssd s))) (next_mslab_flush_channel s) s = Ret (Some (d, c)) s' \<and>
    took (Some (d, c)) s s'"
proof -
  let ?b = "next_mslab_flush_channel s"
  have di: "disk_inv [] {} s" and b: "?b < nch s" and data: "data_inv E s"
    using inv by (simp_all add: kv_inv_def ptrs_ok_def)
  obtain r s' where r: "take_free_dslab (nch s) ?b s = Ret r s'" "took r s s'"
    using take_free_dslab_ok [OF data di b, of "nch s" ?b] by blast
  have "r \<noteq> None"
  proof
    assume "r = None"
    then have run: "take_free_dslab (nch s) ?b s = Ret None s'" using r by simp
    have none: "items (dslab_free s ! ((?b + k) mod nch s)) = []" if "k < nch s" for k
      by (rule take_free_dslab_None [OF run, of 0]) (use b that in simp_all)
    have "items (dslab_free s ! c) = []" if "c < nch s" for c
    proof -
      have "(?b + (c + nch s - ?b) mod nch s) mod nch s = (c + nch s) mod nch s"
        using b by (simp add: mod_add_right_eq)
      also have "\<dots> = c" using that by simp
      finally show ?thesis using none [of "(c + nch s - ?b) mod nch s"] that by simp
    qed
    then have "members (dslab_free s) = []"
      using disk_invD(1) [OF di] by (auto simp: members_def chans_def in_set_conv_nth)
    then show False
      using free disk_invD(4) [OF di] total_size_members [OF disk_invD(1) [OF di]] by simp
  qed
  then show ?thesis using r by (auto simp: nch_def)
qed

subsection \<open>Flushing is safe\<close>

text \<open>
  What the search leaves: contents only shrink (by the collections it may run), the memory lists
  are untouched, and the slab it found is held.
\<close>

definition found :: "'db env \<Rightarrow> (nat \<times> nat) option \<Rightarrow> 'db kv \<Rightarrow> 'db kv \<Rightarrow> bool" where
  "found E r s s' \<longleftrightarrow> refines E s s' \<and> same_place s s' \<and> mslab_free s' = mslab_free s \<and>
     mslab_full s' = mslab_full s \<and> slab_class_table s' = slab_class_table s \<and>
     index_locked s' = index_locked s \<and> apart E (gc_reach s) s s' \<and>
     (case r of None \<Rightarrow> kv_inv E s' \<and> on_lists s' \<subseteq># on_lists s
      | Some (d, c) \<Rightarrow> kv_held E [d] s' \<and> placed [d] s' \<subseteq># on_lists s \<and> c = slab_channel s' d \<and> is_dslab s' d \<and> nr_alloc (slabs s' ! d) = 0)"

lemma took_found:
  assumes inv: "kv_inv E s" and t: "took r s s'"
  shows "found E r s s'" and "keeps E s s'"
proof -
  have lm: "list_move s s'" using t by (simp add: took_def)
  have sp: "same_place s s'" "slab_channel s' = slab_channel s" using lm by (simp_all add: list_move_def same_place_def)
  have held: "kv_held E [] s" using inv by (simp add: kv_held_Nil)
  show k: "keeps E s s'" by (rule list_move_data(2) [OF lm])
  show "found E r s s'"
    using t lm sp keeps_refines [OF k] list_move_apart [OF lm] kv_held_move [OF held lm] list_move_data(3,4) [OF lm]
    by (auto simp: found_def took_def list_move_def kv_held_Nil [symmetric] split: option.splits)
qed

lemma found_trans:
  assumes "gc_result E s t" and "found E r t s'"
  shows "found E r s s'"
proof -
  have sp: "same_place s t" and ol: "on_lists t \<subseteq># on_lists s" using assms(1) by (simp_all add: gc_result_def)
  have "apart E (gc_reach s) t s'"
    by (rule apart_mono [OF _ gc_reach_mono [OF sp ol]]) (use assms(2) in \<open>simp add: found_def\<close>)
  then have "apart E (gc_reach s) s s'"
    by (rule apart_trans [OF _ _ sp, rotated]) (use assms(1) in \<open>simp add: gc_result_def\<close>)
  then show ?thesis
    using assms refines_trans [of E s t s'] same_place_trans [OF sp] subset_mset.order_trans [OF _ ol]
    by (auto simp: found_def gc_result_def split: option.splits)
qed

lemma gc_exit_trans:
  assumes "gc_result E s t" and "gc_exit E t s'"
  shows "gc_exit E s s'"
  using assms refines_trans [of E s t s'] by (simp add: gc_result_def gc_exit_def)

lemma find_dslab_safe:
  assumes inv: "kv_inv E s" and hp: "heap_pick_ok E"
  shows "safe (gc_exit E s) (\<lambda>r s'. found E r s s') (find_dslab E n s)"
  using inv
proof (induction n arbitrary: s)
  case 0
  then show ?case by simp
next
  case (Suc n)
  have pr: "data_inv E s" "disk_inv [] {} s" "next_mslab_flush_channel s < nch s"
    using Suc.prems by (simp_all add: kv_inv_def ptrs_ok_def)
  obtain r s1 where r: "take_free_dslab (nat (nr_channels (ssd s))) (next_mslab_flush_channel s) s = Ret r s1" "took r s s1"
    using take_free_dslab_ok [OF pr] by blast
  note f1 = took_found [OF Suc.prems r(2)]
  show ?case
  proof (cases r)
    case (Some dc)
    then show ?thesis using r f1(1) by simp
  next
    case None
    have inv1: "kv_inv E s1" using f1(1) None by (simp add: found_def)
    have g1: "gc_result E s s1" using f1(1) inv1 None by (simp add: found_def gc_result_def)
    have rest: "safe (gc_exit E s) (\<lambda>go s'. safe (gc_exit E s) (\<lambda>r s'. found E r s s')
        (if \<not> go then Ret None s' else find_dslab E n s')) (wait_slab_gc_until_shutdown s2)"
      if g: "gc_result E s s2" for s2
    proof -
      have inv2: "kv_inv E s2" using g by (simp add: gc_result_def)
      have "found E None s s2" using g by (simp add: found_def gc_result_def)
      moreover have "safe (gc_exit E s) (\<lambda>r s'. found E r s s') (find_dslab E n s2)"
        by (rule safe_mono [OF Suc.IH [OF inv2]]) (use gc_exit_trans [OF g] found_trans [OF g] in blast)+
      ultimately show ?thesis
        by (intro safe_mono [OF wait_slab_gc_safe [OF inv2]]) (use gc_exit_trans [OF g] in auto)
    qed
    have "safe (gc_exit E s) (\<lambda>_ s2. gc_result E s s2) (slab_gc E s1)"
      by (rule safe_mono [OF slab_gc_safe [OF inv1 hp]])
        (use gc_exit_trans [OF g1] gc_result_trans [OF g1] in blast)+
    then have "safe (gc_exit E s) (\<lambda>_ s2. safe (gc_exit E s) (\<lambda>go s'. safe (gc_exit E s) (\<lambda>r s'. found E r s s')
        (if \<not> go then Ret None s' else find_dslab E n s')) (wait_slab_gc_until_shutdown s2)) (slab_gc E s1)"
      by (rule safe_weaken) (rule rest)
    then show ?thesis using r None by simp
  qed
qed

lemma held_exclusive:
  assumes "disk_inv (d # H) X s"
  shows "d \<notin> set (members (dslab_free s))" "d \<notin> set (members (ops_pool s))" "is_dslab s d"
proof -
  have "count (placed (d # H) s) d \<le> 1" using assms unfolding disk_inv_def by blast
  then have "d \<notin># mset H + on_lists s" by (simp add: placed_def not_in_iff)
  then show "d \<notin> set (members (dslab_free s))" "d \<notin> set (members (ops_pool s))" by (simp_all add: on_lists_def)
  show "is_dslab s d" using disk_invD(10) [OF assms] by simp
qed

lemma disk_inv_mem:
  assumes "disk_inv H X s" and "m < nr_mslab s"
  shows "m \<notin> set (members (dslab_free s))" "m \<notin> set (members (ops_pool s))" "m \<notin> set (members (dslab_full s))"
  using disk_invD(6-8) [OF assms(1), of m] assms(2) by (auto simp: is_dslab_def)

text \<open>Memory slabs leaving and entering lists.\<close>

lemma count_le1_move:
  assumes "\<forall>x. count (add_mset m A) x \<le> 1"
  shows "m \<notin># A" and "\<forall>x. count A x \<le> 1"
  using assms by (auto simp: not_in_iff le_Suc_eq split: if_splits dest: spec [of _ m] spec)

lemma mem_inv_take_full:
  assumes mi: "mem_inv [] s" and m: "m \<in> set (items (mslab_full s))"
  defines "s' \<equiv> s\<lparr>mslab_full := slist_del m (mslab_full s)\<rparr>"
  shows "mem_inv [] s'" and "m \<notin># mem_lists s'" and "m < gc_buffer s" and "cid (slabs s ! m) \<noteq> -1"
proof -
  have A: "mem_lists s = add_mset m (mem_lists s')"
    using m by (simp add: s'_def mem_lists_def partials_def)
  have one: "\<forall>x. count (add_mset m (mem_lists s')) x \<le> 1" using mi A by (simp add: mem_inv_def)
  show "m \<notin># mem_lists s'" by (rule count_le1_move(1) [OF one])
  have "set (items (mslab_full s')) \<subseteq> set (items (mslab_full s))"
    by (simp add: s'_def set_remove1_subset)
  moreover have "slist_ok (mslab_full s')" using mi m by (simp add: s'_def mem_inv_def slist_ok_del)
  moreover have "\<forall>x \<in># mem_lists s'. x < nr_mslab s - 1" using mi A by (simp add: mem_inv_def)
  ultimately show "mem_inv [] s'"
    using mi count_le1_move(2) [OF one] unfolding mem_inv_def by (auto simp: s'_def)
  show "m < gc_buffer s" "cid (slabs s ! m) \<noteq> -1"
    using mi m by (auto simp: mem_inv_def mem_lists_def gc_buffer_def)
qed

lemma mem_inv_add_free:
  assumes mi: "mem_inv [] s" and m: "m \<notin># mem_lists s" "m < nr_mslab s - 1" "nr_alloc (slabs s ! m) = 0"
  shows "mem_inv [] (s\<lparr>mslab_free := slist_add m (mslab_free s)\<rparr>)"
proof -
  let ?s = "s\<lparr>mslab_free := slist_add m (mslab_free s)\<rparr>"
  have A: "mem_lists ?s = add_mset m (mem_lists s)" by (simp add: mem_lists_def partials_def)
  have "count (mem_lists ?s) x \<le> 1" for x
    using mi m(1) unfolding A mem_inv_def by (auto simp: not_in_iff)
  then show ?thesis
    using mi m(2,3) A unfolding mem_inv_def by auto
qed

lemma kv_inv_unlist_full:
  assumes inv: "kv_inv E s" and m: "m \<in> set (items (mslab_full s))"
  defines "s' \<equiv> s\<lparr>mslab_full := slist_del m (mslab_full s)\<rparr>"
  shows "kv_inv E s'" and "keeps E s s'" and "same_place s s'" and "gc_buffer s' = gc_buffer s"
proof -
  have sd: "same_data s s'" by (simp add: s'_def)
  show "keeps E s s'" by (rule same_data_keeps [OF sd])
  show sp: "same_place s s'" by (simp add: s'_def same_place_def ptrs_ok_def)
  show gb: "gc_buffer s' = gc_buffer s" by (simp add: s'_def gc_buffer_def)
  have "disk_inv [] {} s'"
    using inv by (simp add: kv_inv_def disk_inv_def s'_def placed_def on_lists_def is_dslab_def)
  then show "kv_inv E s'"
    using inv sp gb same_data_inv [OF sd] same_data_view(5) [OF sd] mem_inv_take_full(1) [OF _ m]
    by (simp add: kv_inv_def same_place_def ops_in_range_def) (simp add: s'_def)
qed

text \<open>The end of a flush: both slabs are back on lists.\<close>

definition flush_result :: "'db env \<Rightarrow> 'db kv \<Rightarrow> 'db kv \<Rightarrow> bool" where
  "flush_result E s s' \<longleftrightarrow> kv_inv E s' \<and> refines E s s' \<and> same_place s s' \<and>
     slab_class_table s' = slab_class_table s \<and> index_locked s' = index_locked s"

text \<open>First the memory slab, now without live slots, goes back to the free list.\<close>

lemma return_mslab_ok:
  assumes inv: "data_inv E t" and di: "disk_inv [d] {} t" and mi: "mem_inv [] t" and un: "live t m = {}"
    and m: "m \<notin># mem_lists t" "m < gc_buffer t"
  defines "u \<equiv> (upd_slab m slab_reset t)\<lparr>mslab_free := slist_add m (mslab_free (upd_slab m slab_reset t))\<rparr>"
  shows "data_inv E u" "keeps E t u" "disk_inv [d] {} u" "mem_inv [] u" "live u = live t" "same_place t u"
proof -
  let ?t1 = "upd_slab m slab_reset t"
  have mt: "m < nr_mslab t" "m < nr_mslab t - 1" "m < length (slabs t)"
    using m(2) gc_buffer_mem [OF data_invD(1) [OF inv]] data_invD(1) [OF inv] by (auto simp: gc_buffer_def geom_def)
  have d1: "data_inv E ?t1" "keeps E t ?t1" using upd_unused_slab [OF inv mt(3) _ un] by simp_all
  have di1: "disk_inv [d] {} ?t1" by (rule disk_inv_upd [OF di]) (use disk_inv_mem [OF di mt(1)] in auto)
  have mi1: "mem_inv [] ?t1" by (rule mem_inv_upd [OF mi]) (use m(1) in simp_all)
  have sd: "same_data ?t1 u" by (simp add: u_def)
  show "data_inv E u" using same_data_inv [OF sd, of E] d1(1) by simp
  show "keeps E t u" using keeps_trans [OF d1(2) same_data_keeps [OF sd]] .
  show "disk_inv [d] {} u" using di1 by (simp add: u_def disk_inv_def placed_def on_lists_def is_dslab_def)
  show "mem_inv [] u" unfolding u_def
    by (rule mem_inv_add_free [OF mi1]) (use m(1) mt in \<open>simp_all add: mem_lists_def partials_def\<close>)
  show "live u = live t" using same_data_view(5) [OF sd] by simp
  have "same_place t ?t1" by (rule same_place_upd_slab) simp
  then show "same_place t u" by (auto simp: u_def same_place_def ptrs_ok_def)
qed

lemma finish_flush_ok:
  assumes held: "kv_held E [d] s" and m: "m \<notin># mem_lists s" "m < gc_buffer s" "cid (slabs s ! m) \<noteq> -1"
    and mo: "moved_out E m d s t" and c: "c = slab_channel s d"
  shows "kv_inv E (finish_flush m d c t)" "keeps E s (finish_flush m d c t)" "same_place s (finish_flush m d c t)"
    "slab_class_table (finish_flush m d c t) = slab_class_table s" "index_locked (finish_flush m d c t) = index_locked s"
    "items (mslab_free (finish_flush m d c t)) = m # items (mslab_free s)"
proof -
  have di: "disk_inv [d] {} s" and mi: "mem_inv [] s" and g: "geom E s"
    using held by (simp_all add: kv_held_def data_inv_def)
  note ex = held_exclusive [OF di]
  have dm: "d \<noteq> m" "d \<noteq> gc_buffer s" using m(2) gc_buffer_mem [OF g] ex(3) by (auto simp: is_dslab_def)
  have sp: "same_place s t" and sl: "same_lists s t" and inv: "data_inv E t" and k: "keeps E s t" and un: "live t m = {}"
    using mo by (simp_all add: moved_out_def)
  have mt: "m \<notin># mem_lists t" "m < gc_buffer t"
    using sl sp m by (simp_all add: same_lists_def mem_lists_def partials_def same_place_def gc_buffer_def)
  have dit: "disk_inv [d] {} t" by (rule moved_out_disk [OF mo di ex(1,2) _ m(3)]) simp
  have mit: "mem_inv [] t"
    by (rule moved_out_mem [OF mo mi]) (use mem_lists_dslab [OF mi] ex(3) in blast)
  note u = return_mslab_ok [OF inv dit mit un mt]
  let ?t2 = "(upd_slab m slab_reset t)\<lparr>mslab_free := slist_add m (mslab_free (upd_slab m slab_reset t))\<rparr>"
  let ?t3 = "?t2\<lparr>dslab_full := chan_add c d (dslab_full ?t2), nr_full_dslab := nr_full_dslab ?t2 + 1\<rparr>"
  have ch: "slab_channel ?t2 d = c" "cid (slabs ?t2 ! d) \<noteq> -1"
    using sp c dm mo m(3) by (simp_all add: same_place_def slab_channel_def moved_out_def fun_eq_iff)
  have di3: "disk_inv [] {} ?t3"
    using give_full [OF data_invD(1) [OF u(1)] u(3), of "nr_full_dslab ?t2 + 1"] ch by simp
  have lm: "list_move ?t2 ?t3" by simp
  have fin: "finish_flush m d c t = ?t3" by (simp add: finish_flush_def Let_def)
  have sp3: "same_place s ?t3"
    using same_place_trans [OF sp u(6)] by (auto simp: same_place_def ptrs_ok_def)
  have gb: "gc_buffer ?t3 = gc_buffer s" using sp3 by (simp add: same_place_def gc_buffer_def)
  have "live ?t3 (gc_buffer s) = live s (gc_buffer s)"
    using list_move_live [OF lm] u(5) mo m(2) dm(2) by (simp add: moved_out_def)
  then have lv: "live ?t3 (gc_buffer ?t3) = {}" using held gb by (simp add: kv_held_def)
  show "kv_inv E (finish_flush m d c t)"
    unfolding fin kv_inv_def
    using di3 lv list_move_mem [OF lm] u(4) list_move_data(1) [OF lm] u(1) sp3 held sl
    by (simp add: kv_held_def same_place_def ops_in_range_def same_lists_def)
  show "keeps E s (finish_flush m d c t)" "same_place s (finish_flush m d c t)"
    unfolding fin by (rule keeps_trans [OF k keeps_trans [OF u(2) list_move_data(2) [OF lm]]], rule sp3)
  show "slab_class_table (finish_flush m d c t) = slab_class_table s" "index_locked (finish_flush m d c t) = index_locked s"
    "items (mslab_free (finish_flush m d c t)) = m # items (mslab_free s)"
    unfolding fin using sl mo by (simp_all add: same_lists_def moved_out_def)
qed

lemma flush_result_refl: "kv_inv E s \<Longrightarrow> flush_result E s s"
  by (simp add: flush_result_def)

lemma flushed_cids:
  assumes "flushed E m d s s1" and "data_inv E s" and "m < nr_mslab s" and "is_dslab s d"
  shows "cid (slabs s1 ! d) = cid (slabs s1 ! m)" "cid (slabs s1 ! m) = cid (slabs s ! m)"
proof -
  have d: "nr_mslab s \<le> d" "d < length (slabs s)" using assms(4) by (simp_all add: is_dslab_def)
  note fm = flushed_mirror [OF assms(1-3) d]
  show "cid (slabs s1 ! m) = cid (slabs s ! m)" using fm(7) assms(3) d by simp
  then show "cid (slabs s1 ! d) = cid (slabs s1 ! m)" using fm(2) by simp
qed

lemma flush_to_safe:
  assumes held: "kv_held E [d] s" and m: "m \<notin># mem_lists s" "m < gc_buffer s" "cid (slabs s ! m) \<noteq> -1"
    and c: "c = slab_channel s d" and z: "nr_alloc (slabs s ! d) = 0"
  shows "safe (gc_exit E s) (\<lambda>go s'. go \<and> flush_result E s s' \<and> keeps E s s' \<and>
    items (mslab_free s') = m # items (mslab_free s)) (flush_to E m d c s)"
proof -
  have inv: "data_inv E s" and di: "disk_inv [d] {} s" using held by (simp_all add: kv_held_def)
  note g = data_invD(1) [OF inv] and isd = held_exclusive(3) [OF di]
  have mm: "m < nr_mslab s" using m(2) gc_buffer_mem [OF g] by simp
  have ch: "int c < nr_channels (ssd s)"
    using slab_channel_less [OF g isd] c by (simp add: nch_def)
  have fin: "flush_result E s (finish_flush m d c t) \<and> keeps E s (finish_flush m d c t) \<and>
      items (mslab_free (finish_flush m d c t)) = m # items (mslab_free s)" if "moved_out E m d s t" for t
    using finish_flush_ok [OF held m that c] by (simp add: flush_result_def keeps_refines)
  have ex: "\<And>s'. data_inv E s' \<and> keeps E s s' \<Longrightarrow> gc_exit E s s'" by (simp add: gc_exit_def keeps_refines)
  have rest: "safe (gc_exit E s)
      (\<lambda>_ s2. safe (gc_exit E s) (\<lambda>_ s3. flush_result E s (finish_flush m d c (unlock_index s3)) \<and>
         keeps E s (finish_flush m d c (unlock_index s3)) \<and>
         items (mslab_free (finish_flush m d c (unlock_index s3))) = m # items (mslab_free s)) (modify_index_to E m d s2))
      (lock_index s1)" if q: "data_inv E s1 \<and> keeps E s s1 \<and> flushed E m d s s1" for s1
    by (rule safe_mono [OF relocate_safe [OF inv mm isd z q]]) (use ex in blast, rule safe_mono, assumption, use ex in blast, use fin in blast)
  have "safe (gc_exit E s) (\<lambda>_ s1. data_inv E s1 \<and> keeps E s s1 \<and> flushed E m d s s1) (flush_mslab_to_dslab E m d s)"
    by (rule safe_mono [OF flush_mslab_to_dslab_safe [OF inv mm]]) (use isd z in \<open>auto simp: is_dslab_def gc_exit_def keeps_refines\<close>)
  then show ?thesis
    unfolding flush_to_def using ch
    by (simp, elim safe_weaken)
      (use flushed_cids [OF _ inv mm isd] m(3) rest in auto)
qed

lemma do_slab_flush_safe:
  assumes inv: "kv_inv E s" and hp: "heap_pick_ok E"
  shows "safe (gc_exit E s) (\<lambda>_ s'. flush_result E s s') (do_slab_flush E fuel s)"
proof (cases "shutdown s \<or> items (mslab_full s) = []")
  case True
  then show ?thesis
    using flush_result_refl [OF inv] gc_exit_refl [OF inv] by (auto simp: do_slab_flush_def)
next
  case False
  then obtain m ms where m: "items (mslab_full s) = m # ms" by (cases "items (mslab_full s)") auto
  let ?s = "s\<lparr>mslab_full := slist_del m (mslab_full s)\<rparr>"
  have mem: "m \<in> set (items (mslab_full s))" and mi: "mem_inv [] s" using m inv by (simp_all add: kv_inv_def)
  note un = kv_inv_unlist_full [OF inv mem] and mt = mem_inv_take_full [OF mi mem]
  have k: "refines E s ?s" by (rule keeps_refines [OF un(2)])
  have exit: "gc_exit E ?s s' \<Longrightarrow> gc_exit E s s'" for s' using refines_trans [OF k] by (simp add: gc_exit_def)
  have res: "safe (gc_exit E s) (\<lambda>_ s'. flush_result E s s')
      (case r of None \<Rightarrow> Ret False s2 | Some (d, c) \<Rightarrow> flush_to E m d c s2)" if f: "found E r ?s s2" for r s2
  proof -
    have rf: "refines E s s2" "same_place s s2" using f refines_trans [OF k] same_place_trans [OF un(3)] by (simp_all add: found_def)
    have same: "slab_class_table s2 = slab_class_table s" "index_locked s2 = index_locked s" using f by (simp_all add: found_def)
    show ?thesis
    proof (cases r)
      case None
      then show ?thesis using f rf same by (simp add: found_def flush_result_def)
    next
      case (Some dc)
      obtain d c where dc: "dc = (d, c)" by (cases dc)
      have h: "kv_held E [d] s2" "c = slab_channel s2 d" "nr_alloc (slabs s2 ! d) = 0" using f Some dc by (simp_all add: found_def)
      have "mem_lists s2 = mem_lists ?s" "gc_buffer s2 = gc_buffer s"
        using f rf(2) by (simp_all add: found_def mem_lists_def partials_def same_place_def gc_buffer_def)
      then have ms2: "m \<notin># mem_lists s2" "m < gc_buffer s2" using mt(2,3) by simp_all
      have "kept E m ?s s2"
        using mem_gc_reach [OF un(1), of m] mt(3) un(4) f by (intro apartD [of E "gc_reach ?s"]) (simp_all add: found_def)
      then have c2: "cid (slabs s2 ! m) \<noteq> -1" using mt(4) by (simp add: kept_def)
      have "safe (gc_exit E s) (\<lambda>go s'. go \<and> flush_result E s s') (flush_to E m d c s2)"
        by (rule safe_mono [OF flush_to_safe [OF h(1) ms2 c2 h(2,3)]])
          (use rf same refines_trans [of E s s2] same_place_trans [of s s2] in \<open>auto simp: gc_exit_def flush_result_def\<close>)
      then show ?thesis unfolding Some dc by (auto elim: safe_weaken)
    qed
  qed
  have "safe (gc_exit E s) (\<lambda>r s2. found E r ?s s2) (find_dslab E fuel ?s)"
    by (rule safe_mono [OF find_dslab_safe [OF un(1) hp]]) (use exit in auto)
  then have "safe (gc_exit E s) (\<lambda>r s2. safe (gc_exit E s) (\<lambda>_ s'. flush_result E s s')
      (case r of None \<Rightarrow> Ret False s2 | Some (d, c) \<Rightarrow> flush_to E m d c s2)) (find_dslab E fuel ?s)"
    by (rule safe_weaken) (rule res)
  then show ?thesis using False m mt(4) by (simp add: do_slab_flush_def)
qed

lemma started_flush:
  assumes "kv_inv E s"
  shows "flush_result E s (s\<lparr>slab_flush_thread_started := b\<rparr>)"
proof -
  let ?s = "s\<lparr>slab_flush_thread_started := b\<rparr>"
  have lm: "list_move s ?s" by (simp add: list_move_def same_data_def same_place_def ptrs_ok_def)
  have "disk_inv [] {} ?s"
    using assms by (simp add: kv_inv_def disk_inv_def placed_def on_lists_def is_dslab_def)
  then have "kv_inv E ?s"
    by (intro kv_inv_move [OF assms lm]) (use assms in \<open>simp_all add: kv_inv_def ops_in_range_def\<close>)
  then show ?thesis
    using lm keeps_refines [OF list_move_data(2) [OF lm]] by (simp add: flush_result_def list_move_def)
qed

lemma slab_flush_safe:
  assumes inv: "kv_inv E s" and hp: "heap_pick_ok E"
  shows "safe (gc_exit E s) (\<lambda>_ s'. flush_result E s s') (slab_flush E fuel s)"
  using do_slab_flush_safe [OF inv hp] started_flush [OF inv] by (simp add: slab_flush_def)

subsection \<open>Slot allocation is safe\<close>

lemma partials_upd:
  assumes "c < length (slab_class_table s)"
  shows "\<exists>A. mset (partials s) = A + mset (slab_partial (slab_class_table s ! c)) \<and>
    mset (partials (upd_class c (\<lambda>sc. sc\<lparr>slab_partial := f sc\<rparr>) s)) = A + mset (f (slab_class_table s ! c))"
  using mset_concat_update [of c "map slab_partial (slab_class_table s)" "f (slab_class_table s ! c)"] assms
  by (simp add: partials_def upd_class_def map_update)

lemma upd_class_simps [simp]:
  "slabs (upd_class c f s) = slabs s" "ssd (upd_class c f s) = ssd s" "index (upd_class c f s) = index s"
  "slab_size (upd_class c f s) = slab_size s" "nr_mslab (upd_class c f s) = nr_mslab s"
  "nr_dslab (upd_class c f s) = nr_dslab s" "mslab_base (upd_class c f s) = mslab_base s"
  "mslab_free (upd_class c f s) = mslab_free s" "mslab_full (upd_class c f s) = mslab_full s"
  "index_locked (upd_class c f s) = index_locked s" "gc_buffer (upd_class c f s) = gc_buffer s"
  "length (slab_class_table (upd_class c f s)) = length (slab_class_table s)"
  "enable_background_flush (upd_class c f s) = enable_background_flush s"
  by (simp_all add: upd_class_def gc_buffer_def)

lemma upd_class_nth:
  "c < length (slab_class_table s) \<Longrightarrow>
   slab_class_table (upd_class c f s) ! i = (if i = c then f (slab_class_table s ! c) else slab_class_table s ! i)"
  by (simp add: upd_class_def nth_list_update)

lemma same_data_upd_class: "same_data s (upd_class c (\<lambda>sc. sc\<lparr>slab_partial := f sc\<rparr>) s)"
  by (cases "c < length (slab_class_table s)")
    (auto simp: same_data_def upd_class_def map_update list_update_beyond intro!: list_update_same_conv [THEN iffD2])

lemma same_place_upd_class [simp]: "same_place s (upd_class c f s)"
  by (simp add: same_place_def upd_class_def nch_def ptrs_ok_def)

lemma disk_inv_upd_class [simp]: "disk_inv H X (upd_class c f s) = disk_inv H X s"
  by (simp add: disk_inv_def upd_class_def placed_def on_lists_def is_dslab_def)

text \<open>A free memory slab becomes a partial one.\<close>

definition class_header :: "nat \<Rightarrow> 'db kv \<Rightarrow> slab \<Rightarrow> slab" where
  "class_header c s sl =
     sl\<lparr>cid := sc_cid (slab_class_table s ! c), slot_size := sc_slot_size (slab_class_table s ! c),
        nr_slots := (slab_size s - slab_header_size) div sc_slot_size (slab_class_table s ! c)\<rparr>"

lemma take_free_mslab_eq:
  "take_free_mslab c m s = upd_class c (\<lambda>sc. sc\<lparr>slab_partial := m # slab_partial sc\<rparr>)
     (upd_slab m (class_header c s) (s\<lparr>mslab_free := slist_del m (mslab_free s)\<rparr>))"
  by (simp add: take_free_mslab_def Let_def class_header_def [abs_def])

lemma take_free_mslab_fields:
  assumes "c < length (slab_class_table s)" and "m < length (slabs s)"
  defines "s' \<equiv> take_free_mslab c m s"
  shows "slab_class_table s' ! i = (if i = c then (slab_class_table s ! c)\<lparr>slab_partial := m # slab_partial (slab_class_table s ! c)\<rparr>
      else slab_class_table s ! i)"
    and "length (slab_class_table s') = length (slab_class_table s)"
    and "slabs s' ! j = (if j = m then class_header c s (slabs s ! m) else slabs s ! j)"
    and "mslab_free s' = slist_del m (mslab_free s)" "mslab_full s' = mslab_full s" "nr_mslab s' = nr_mslab s"
    and "same_place s s'" "ops_pool_size s' = ops_pool_size s" "max_ops_pool_size s' = max_ops_pool_size s"
    and "mset (partials s') = add_mset m (mset (partials s))"
proof -
  let ?s1 = "s\<lparr>mslab_free := slist_del m (mslab_free s)\<rparr>"
  let ?s2 = "upd_slab m (class_header c s) ?s1"
  have s': "s' = upd_class c (\<lambda>sc. sc\<lparr>slab_partial := m # slab_partial sc\<rparr>) ?s2"
    by (simp add: s'_def take_free_mslab_eq)
  show "slab_class_table s' ! i = (if i = c then (slab_class_table s ! c)\<lparr>slab_partial := m # slab_partial (slab_class_table s ! c)\<rparr>
      else slab_class_table s ! i)"
    using assms(1) by (simp add: s' upd_class_nth)
  show "slabs s' ! j = (if j = m then class_header c s (slabs s ! m) else slabs s ! j)"
    using assms(2) by (simp add: s' slabs_upd)
  have "same_place s ?s1" by (simp add: same_place_def ptrs_ok_def)
  moreover have "same_place ?s1 ?s2" by (rule same_place_upd_slab) (simp add: class_header_def)
  ultimately show "same_place s s'" unfolding s' using same_place_trans same_place_upd_class by blast
  show "mset (partials s') = add_mset m (mset (partials s))"
    using partials_upd [of c ?s2 "\<lambda>sc. m # slab_partial sc"] assms(1) by (auto simp: s' partials_def)
qed (simp_all add: s'_def take_free_mslab_eq, simp_all add: upd_class_def upd_slab_def)

lemma take_free_mslab_mem:
  assumes g: "geom E s" and mi: "mem_inv [] s" and m: "items (mslab_free s) = m # ms" and c: "c < length (slab_class_table s)"
  defines "s' \<equiv> take_free_mslab c m s"
  shows "mem_inv [] s'"
proof -
  have cl: "sc_cid (slab_class_table s ! c) = int c" "0 < sc_slot_size (slab_class_table s ! c)"
    "sc_slot_size (slab_class_table s ! c) \<le> slab_size s - 44"
    using geom_class [OF g, of "int c"] c by simp_all
  have mm: "m < length (slabs s)" "nr_alloc (slabs s ! m) = 0"
    using mi m g by (auto simp: mem_inv_def mem_lists_def geom_def)
  note f = take_free_mslab_fields [OF c mm(1), folded s'_def]
  have lists: "mem_lists s' = mem_lists s" using m by (simp add: mem_lists_def f)
  have "count (mem_lists s) m \<le> 1" using mi unfolding mem_inv_def by simp
  then have out: "m \<notin> set (items (mslab_full s))" "m \<notin> set (partials s)"
    using m by (auto simp: mem_lists_def count_eq_zero_iff [symmetric])
  have "cid (slabs s' ! x) = int i \<and> nr_alloc (slabs s' ! x) < nr_slots (slabs s' ! x)"
    if i: "i < length (slab_class_table s)" and x: "x \<in> set (slab_partial (slab_class_table s' ! i))" for i x
  proof (cases "x = m")
    case True
    have "m \<notin> set (slab_partial (slab_class_table s ! j))" if "j < length (slab_class_table s)" for j
      using out(2) that by (auto simp: partials_def)
    then have "i = c" using True x i by (simp add: f(1) split: if_splits)
    then show ?thesis using True cl mm(2) by (simp add: f(3) class_header_def div_greater_zero_iff)
  next
    case False
    then have "x \<in> set (slab_partial (slab_class_table s ! i))" using x by (simp add: f(1) split: if_splits)
    then show ?thesis using mi i False by (simp add: mem_inv_def f(3))
  qed
  moreover have "nr_alloc (slabs s' ! x) = 0" if "x \<in> set (items (mslab_free s'))" for x
    using that mi m mm(2) by (auto simp: mem_inv_def f class_header_def)
  moreover have "cid (slabs s' ! x) \<noteq> -1" if "x \<in> set (items (mslab_full s'))" for x
    using that mi out(1) by (auto simp: mem_inv_def f)
  ultimately show ?thesis
    using mi m unfolding mem_inv_def lists by (auto simp: f slist_ok_del)
qed

lemma take_free_mslab_ok:
  assumes inv: "kv_inv E s" and m: "items (mslab_free s) = m # ms" and c: "c < length (slab_class_table s)"
  defines "s' \<equiv> take_free_mslab c m s"
  shows "kv_inv E s'" and "keeps E s s'" and "same_place s s'" and "index_locked s' = index_locked s"
    and "slab_partial (slab_class_table s' ! c) = m # slab_partial (slab_class_table s ! c)"
    and "map sc_slot_size (slab_class_table s') = map sc_slot_size (slab_class_table s)"
proof -
  have data: "data_inv E s" and mi: "mem_inv [] s" and di: "disk_inv [] {} s" using inv by (simp_all add: kv_inv_def)
  note g = data_invD(1) [OF data]
  have mm: "m < nr_mslab s" "m < length (slabs s)" "nr_alloc (slabs s ! m) = 0"
    using mi m g by (auto simp: mem_inv_def mem_lists_def geom_def)
  note f = take_free_mslab_fields [OF c mm(2), folded s'_def]
  let ?s1 = "s\<lparr>mslab_free := slist_del m (mslab_free s)\<rparr>"
  let ?s2 = "upd_slab m (class_header c s) ?s1"
  have s': "s' = upd_class c (\<lambda>sc. sc\<lparr>slab_partial := m # slab_partial sc\<rparr>) ?s2"
    by (simp add: s'_def take_free_mslab_eq)
  have sd1: "same_data s ?s1" by simp
  have data1: "data_inv E ?s1" using same_data_inv [OF sd1] data by simp
  have un: "live ?s1 m = {}" using live_empty_alloc [OF data1, of m] mm(3) by simp
  have hd: "hdr_ok ?s1 (class_header c s (slabs ?s1 ! m))"
    using data_inv_slab(1) [OF data mm(2)] mm(3) geom_class(4) [OF g, of "int c"] c
    by (simp add: hdr_ok_def class_header_def)
  have d2: "data_inv E ?s2" "keeps E ?s1 ?s2"
    using upd_unused_slab [of E ?s1 m "class_header c s", OF data1 _ _ un _ hd] mm
    by (simp_all add: keeps_place_def class_header_def)
  have sd3: "same_data ?s2 s'" unfolding s' by (rule same_data_upd_class)
  show "keeps E s s'"
    using keeps_trans [OF same_data_keeps [OF sd1] keeps_trans [OF d2(2) same_data_keeps [OF sd3]]] .
  show sp: "same_place s s'" by (rule f(7))
  show "index_locked s' = index_locked s" by (simp add: s')
  show "slab_partial (slab_class_table s' ! c) = m # slab_partial (slab_class_table s ! c)" by (simp add: f(1))
  show "map sc_slot_size (slab_class_table s') = map sc_slot_size (slab_class_table s)"
    by (intro nth_equalityI) (simp_all add: f(1,2))
  have di1: "disk_inv [] {} ?s1" using di by (simp add: disk_inv_def placed_def on_lists_def is_dslab_def)
  have di': "disk_inv [] {} s'"
    unfolding s' disk_inv_upd_class
    by (rule disk_inv_upd [OF di1]) (use disk_inv_mem [OF di1, of m] mm in \<open>auto simp: class_header_def\<close>)
  have lv: "live s' (gc_buffer s') = {}"
    using inv same_data_view(5) [OF sd3] same_data_view(5) [OF sd1] by (simp add: kv_inv_def s' gc_buffer_def)
  have "ptrs_ok s'" "ops_in_range s'" using inv sp f(8,9) by (simp_all add: kv_inv_def same_place_def ops_in_range_def)
  then show "kv_inv E s'"
    using di' lv same_data_inv [OF sd3] d2(1) take_free_mslab_mem [OF g mi m c] by (simp add: kv_inv_def s'_def)
qed

text \<open>The state from which the slot is finally taken.\<close>

definition alloc_pre :: "'db env \<Rightarrow> 'db kv \<Rightarrow> 'db kv \<Rightarrow> bool" where
  "alloc_pre E s s1 \<longleftrightarrow> kv_inv E s1 \<and> refines E s s1 \<and> same_place s s1 \<and> index_locked s1 = index_locked s \<and>
     map sc_slot_size (slab_class_table s1) = map sc_slot_size (slab_class_table s)"

definition alloc_result :: "'db env \<Rightarrow> nat \<Rightarrow> 'db kv \<Rightarrow> Status + nat \<Rightarrow> 'db kv \<Rightarrow> bool" where
  "alloc_result E sz s r s' \<longleftrightarrow> (case r of
     Inl st \<Rightarrow> alloc_pre E s s' \<and>
       (st = ObjectTooLarge ''Object is too large'' \<and> get_slab_class (slab_class_table s) sz = Inl st \<or>
        st = Shutdown ''KVCache is shutting down'' \<and> shutdown s)
   | Inr slot \<Rightarrow> (\<exists>s1 c m ms. alloc_pre E s s1 \<and> get_slab_class (slab_class_table s1) sz = Inr c \<and>
       slab_partial (slab_class_table s1 ! c) = m # ms \<and> alloc_partial c m s1 = Ret slot s'))"

lemma get_slab_class_cong:
  assumes "map sc_slot_size t' = map sc_slot_size t"
  shows "get_slab_class t' sz = get_slab_class t sz"
proof -
  have len: "length t' = length t" using assms by (rule map_eq_imp_length_eq)
  have eq: "sc_slot_size (t' ! i) = sc_slot_size (t ! i)" if "i < length t" for i
    using arg_cong [OF assms, of "\<lambda>xs. xs ! i"] that len by simp
  have "lower_bound (\<lambda>i. sc_slot_size (t' ! i) < sz) first n = lower_bound (\<lambda>i. sc_slot_size (t ! i) < sz) first n"
    if "first + n \<le> length t" for first n
    using that
  proof (induction "\<lambda>i. sc_slot_size (t ! i) < sz" first n rule: lower_bound.induct)
    case (1 first n)
    then show ?case
      by (subst (1 2) lower_bound.simps) (auto simp: Let_def eq intro!: 1)
  qed
  from this [of 0 "length t"] show ?thesis
    using eq by (auto simp: get_slab_class_def Let_def len)
qed

lemma alloc_pre_refl: "kv_inv E s \<Longrightarrow> alloc_pre E s s"
  by (simp add: alloc_pre_def)

lemma alloc_pre_trans: "alloc_pre E s t \<Longrightarrow> alloc_pre E t u \<Longrightarrow> alloc_pre E s u"
  using refines_trans [of E s t u] same_place_trans [of s t u] by (simp add: alloc_pre_def)

lemma flush_alloc_pre: "flush_result E s t \<Longrightarrow> alloc_pre E s t"
  by (simp add: alloc_pre_def flush_result_def)

lemma alloc_result_trans:
  assumes "alloc_pre E s t" and "alloc_result E sz t r s'"
  shows "alloc_result E sz s r s'"
proof -
  have "get_slab_class (slab_class_table t) sz = get_slab_class (slab_class_table s) sz" "shutdown t = shutdown s"
    using assms(1) by (auto simp: alloc_pre_def same_place_def intro!: get_slab_class_cong)
  then show ?thesis
    using assms(2) alloc_pre_trans [OF assms(1)] unfolding alloc_result_def by (cases r) auto
qed

definition alloc_one :: "slab \<Rightarrow> slab" where
  "alloc_one sl = sl\<lparr>nr_alloc := nr_alloc sl + 1, nr_used := nr_used sl + 1\<rparr>"

lemma alloc_partial_eq:
  assumes inv: "kv_inv E s" and c: "c < length (slab_class_table s)" and m: "slab_partial (slab_class_table s ! c) = m # ms"
  shows "m < gc_buffer s" "m < nr_mslab s" "cid (slabs s ! m) = int c" "nr_alloc (slabs s ! m) < nr_slots (slabs s ! m)"
    "alloc_partial c m s = Ret
      (slab_addr (mslab_base s) (slab_size s) (nr_mslab s) m + 44 + slab_slot (slabs s ! m) (nr_alloc (slabs s ! m)))
      (if nr_alloc (slabs s ! m) + 1 = nr_slots (slabs s ! m)
       then upd_class c (\<lambda>sc. sc\<lparr>slab_partial := remove1 m (slab_partial sc)\<rparr>) (upd_slab m alloc_one s)
       else upd_slab m alloc_one s)"
proof -
  have mi: "mem_inv [] s" and g: "geom E s" using inv by (simp_all add: kv_inv_def data_inv_def)
  have pm: "m \<in># mem_lists s" using nth_mem [OF c] m by (force simp: mem_lists_def partials_def)
  then show gb: "m < gc_buffer s" using mi by (simp add: mem_inv_def gc_buffer_def)
  then show "m < nr_mslab s" using gc_buffer_mem [OF g] by simp
  show ci: "cid (slabs s ! m) = int c" and al: "nr_alloc (slabs s ! m) < nr_slots (slabs s ! m)"
    using mi c m unfolding mem_inv_def by auto
  have eq: "upd_slab m (\<lambda>_. alloc_one (slabs s ! m)) s = upd_slab m alloc_one s" by (simp add: upd_slab_def)
  have "slab_slot_alloc (slabs s ! m) = Ret (slab_slot (slabs s ! m) (nr_alloc (slabs s ! m))) (alloc_one (slabs s ! m))"
    using al by (simp add: slab_slot_alloc_def is_full_def alloc_one_def)
  moreover have "is_full (alloc_one (slabs s ! m)) \<longleftrightarrow> nr_alloc (slabs s ! m) + 1 = nr_slots (slabs s ! m)"
    by (simp add: is_full_def alloc_one_def)
  ultimately show "alloc_partial c m s = Ret
      (slab_addr (mslab_base s) (slab_size s) (nr_mslab s) m + 44 + slab_slot (slabs s ! m) (nr_alloc (slabs s ! m)))
      (if nr_alloc (slabs s ! m) + 1 = nr_slots (slabs s ! m)
       then upd_class c (\<lambda>sc. sc\<lparr>slab_partial := remove1 m (slab_partial sc)\<rparr>) (upd_slab m alloc_one s)
       else upd_slab m alloc_one s)"
    using ci eq by (simp add: alloc_partial_def Let_def)
qed

lemma gc_exit_alloc: "alloc_pre E s t \<Longrightarrow> gc_exit E t s' \<Longrightarrow> gc_exit E s s'"
  using refines_trans [of E s t s'] by (simp add: alloc_pre_def gc_exit_def)

text \<open>Waiting for the flush thread, and trying again.\<close>

lemma alloc_wait_safe:
  assumes inv: "kv_inv E s" and hp: "heap_pick_ok E"
    and again: "\<And>t. alloc_pre E s t \<Longrightarrow> safe (gc_exit E s) (\<lambda>r s'. alloc_result E sz s r s') (k t)"
  shows "safe (gc_exit E s) (\<lambda>r s'. alloc_result E sz s r s')
    (seq (slab_flush E fuel s) (\<lambda>_ s. seq (wait_slab_flush_until_shutdown s) (\<lambda>go s.
       if \<not> go then Ret (Inl (Shutdown ''KVCache is shutting down'')) s else k s)))"
proof -
  have "safe (gc_exit E s) (\<lambda>go u. safe (gc_exit E s) (\<lambda>r s'. alloc_result E sz s r s')
      (if \<not> go then Ret (Inl (Shutdown ''KVCache is shutting down'')) u else k u))
      (wait_slab_flush_until_shutdown t)" if f: "flush_result E s t" for t
  proof -
    note p = flush_alloc_pre [OF f]
    have "gc_exit E s t" using f by (simp add: flush_result_def gc_exit_def kv_inv_def)
    moreover have "alloc_result E sz s (Inl (Shutdown ''KVCache is shutting down'')) t" if "shutdown t"
      using that p by (simp add: alloc_result_def alloc_pre_def same_place_def)
    ultimately show ?thesis using again [OF p] by (simp add: wait_slab_flush_until_shutdown_def)
  qed
  then have "safe (gc_exit E s) (\<lambda>_ t. safe (gc_exit E s) (\<lambda>go u. safe (gc_exit E s) (\<lambda>r s'. alloc_result E sz s r s')
      (if \<not> go then Ret (Inl (Shutdown ''KVCache is shutting down'')) u else k u))
      (wait_slab_flush_until_shutdown t)) (slab_flush E fuel s)"
    by (rule safe_weaken [OF slab_flush_safe [OF inv hp]])
  then show ?thesis by simp
qed

lemma slot_alloc_safe:
  assumes inv: "kv_inv E s" and hp: "heap_pick_ok E"
  shows "safe (gc_exit E s) (\<lambda>r s'. alloc_result E sz s r s') (slot_alloc E fuel n sz s)"
  using inv
proof (induction n arbitrary: s)
  case 0
  then show ?case by simp
next
  case (Suc n)
  note pre = alloc_pre_refl [OF Suc.prems]
  have again: "safe (gc_exit E s) (\<lambda>r s'. alloc_result E sz s r s') (slot_alloc E fuel n sz t)" if p: "alloc_pre E s t" for t
  proof -
    have "kv_inv E t" using p by (simp add: alloc_pre_def)
    from Suc.IH [OF this] show ?thesis
      by (rule safe_mono) (use gc_exit_alloc [OF p] alloc_result_trans [OF p] in blast)+
  qed
  show ?case
  proof (cases "get_slab_class (slab_class_table s) sz")
    case (Inl st)
    then have "st = ObjectTooLarge ''Object is too large''"
      by (simp add: get_slab_class_def Let_def split: if_splits)
    then show ?thesis using Inl pre by (simp add: alloc_result_def)
  next
    case (Inr c)
    have cl: "c < length (slab_class_table s)" using get_slab_class_Inr [OF Inr] by simp
    show ?thesis
    proof (cases "slab_partial (slab_class_table s ! c)")
      case (Cons m ms)
      obtain slot s' where run: "alloc_partial c m s = Ret slot s'"
        using alloc_partial_eq(5) [OF Suc.prems cl Cons] by blast
      then have "alloc_result E sz s (Inr slot) s'" using pre Inr Cons unfolding alloc_result_def by auto
      then show ?thesis using run Inr Cons by simp
    next
      case Nil
      show ?thesis
      proof (cases "items (mslab_free s)")
        case (Cons m ms)
        have "sc_cid (slab_class_table s ! c) = int c"
          using geom_class(4) [of E s "int c"] Suc.prems cl by (simp add: kv_inv_def data_inv_def)
        moreover have "alloc_pre E s (take_free_mslab c m s)"
          using take_free_mslab_ok [OF Suc.prems Cons cl] by (simp add: alloc_pre_def keeps_refines)
        ultimately show ?thesis using again Inr Nil Cons by simp
      next
        case empty: Nil
        then show ?thesis using alloc_wait_safe [OF Suc.prems hp again, where fuel = fuel] Inr Nil by simp
      qed
    qed
  qed
qed

end
