(* ===== verification/KV_Cache.thy ===== *)
theory KV_Cache
  imports KV_Flush
begin

text \<open>The public operations of the cache: \<^verbatim>\<open>Get\<close>, \<^verbatim>\<open>Put\<close> and \<^verbatim>\<open>Delete\<close>.\<close>

subsection \<open>Get\<close>

definition get_slice :: "'db env \<Rightarrow> bytes \<Rightarrow> 'db kv \<Rightarrow> (Status + bytes, 'db kv) outcome" where
  "get_slice E key s =
     (if index_locked s then Wait ''index_mutex_'' s
      else
        seq (index_lookup E key s) (\<lambda>r s.
        case r of
          None \<Rightarrow> Ret (Inl (NotFound ''Key not found'')) s
        | Some e \<Rightarrow>
            let slot = ie_slot_id (ientries (index s) ! e)
            in seq (slab_by_sid (ie_slab_id (ientries (index s) ! e)) s) (\<lambda>sl s.
               seq (if im_memory sl
                    then seq (check (slot < nr_alloc sl) ''index_entry->slot_id < slab->nr_alloc'' s)
                           (\<lambda>_ s. Ret (slot_kv (data sl) (slab_slot sl slot)) s)
                    else seq (read_dslab E sl s) (\<lambda>dslab s.
                           Ret (slot_kv (data dslab) (slab_slot dslab slot)) s))
                 (\<lambda>(k, v) s.
                    if key \<noteq> k then Ret (Inl (NotFound ''Key not found'')) s
                    else Ret (Inr v) s))))"

text \<open>\<^verbatim>\<open>Get\<close> into a string: the status and what \<^verbatim>\<open>*value\<close> is set to, if it is.\<close>

definition Get :: "'db env \<Rightarrow> bytes \<Rightarrow> 'db kv \<Rightarrow> (Status \<times> bytes option, 'db kv) outcome" where
  "Get E key s =
     seq (get_slice E key s) (\<lambda>r s.
     case r of Inl st \<Rightarrow> Ret (st, None) s | Inr v \<Rightarrow> Ret (OK, Some v) s)"

text \<open>\<^verbatim>\<open>Get\<close> into a caller's buffer, for the C interface: what is copied to the buffer.\<close>

definition Get_buffer :: "'db env \<Rightarrow> bytes \<Rightarrow> nat \<Rightarrow> 'db kv \<Rightarrow> (Status \<times> bytes option, 'db kv) outcome" where
  "Get_buffer E key buffer_len s =
     seq (get_slice E key s) (\<lambda>r s.
     case r of
       Inl st \<Rightarrow> Ret (st, None) s
     | Inr v \<Rightarrow>
         if length v > buffer_len then Ret (BufferTooSmall ''Buffer is too small'', None) s
         else Ret (OK, Some v) s)"

subsection \<open>Put\<close>

text \<open>
  The loop that waits for a free index entry. It runs with \<^verbatim>\<open>index_mutex_\<close> held; waiting on
  \<^verbatim>\<open>gc_finished_signal_\<close> releases it.
\<close>

fun alloc_index_entry :: "'db env \<Rightarrow> nat \<Rightarrow> nat \<Rightarrow> 'db kv \<Rightarrow> (nat, 'db kv) outcome" where
  "alloc_index_entry E fuel 0 s = Hang"
| "alloc_index_entry E fuel (Suc n) s =
     (case index_entry_alloc (index s) of
        (Some e, ix) \<Rightarrow> Ret e (s\<lparr>index := ix\<rparr>)
      | (None, _) \<Rightarrow>
          seq (slab_flush E fuel s) (\<lambda>_ s.
          seq (slab_gc E s) (\<lambda>_ s.
          if nr_free_index_entry (index s) > 0 then alloc_index_entry E fuel n s
          else Wait ''gc_finished_signal_'' (unlock_index s))))"

definition put_new_entry :: "'db env \<Rightarrow> nat \<Rightarrow> bytes \<Rightarrow> loc \<Rightarrow> 'db kv \<Rightarrow> (unit, 'db kv) outcome" where
  "put_new_entry E fuel key l s =
     seq (alloc_index_entry E fuel fuel s) (\<lambda>e s.
     case make_digest (hash E) key of
       Inl msg \<Rightarrow> Exc msg s
     | Inr digest \<Rightarrow>
         let ix = set_entry_loc e l (set_entry_digest e digest (index s))
         in Ret () (s\<lparr>index := put_index_entry (hash E) key e ix\<rparr>))"

definition redirect_entry :: "nat \<Rightarrow> loc \<Rightarrow> 'db kv \<Rightarrow> (unit, 'db kv) outcome" where
  "redirect_entry e l s =
     (let old_slab_id = ie_slab_id (ientries (index s) ! e)
      in seq (slab_by_sid old_slab_id s) (\<lambda>old s.
         let s = upd_slab old_slab_id (\<lambda>sl. sl\<lparr>nr_used := nr_used sl - 1\<rparr>) s
         in seq (check (0 < nr_used old) ''old_nr_used > 0'' s) (\<lambda>_ s.
            Ret () (s\<lparr>index := set_entry_loc e l (index s)\<rparr>))))"

text \<open>The second half of \<^verbatim>\<open>Put\<close>: the object is in its slot, the index is brought up to date.\<close>

definition put_index :: "'db env \<Rightarrow> nat \<Rightarrow> bytes \<Rightarrow> loc \<Rightarrow> 'db kv \<Rightarrow> (unit, 'db kv) outcome" where
  "put_index E fuel key l s =
     seq (lock_index s) (\<lambda>_ s.
     seq (index_lookup E key s) (\<lambda>r s.
     seq (case r of Some e \<Rightarrow> redirect_entry e l s | None \<Rightarrow> put_new_entry E fuel key l s) (\<lambda>_ s.
     Ret () (unlock_index s))))"

definition retire_full :: "'db env \<Rightarrow> nat \<Rightarrow> nat \<Rightarrow> 'db kv \<Rightarrow> (unit, 'db kv) outcome" where
  "retire_full E fuel m s =
     (if is_full (slabs s ! m) then
        let s = s\<lparr>mslab_full := slist_add m (mslab_full s)\<rparr>
        in if enable_background_flush s then slab_flush E fuel s else Ret () s
      else Ret () s)"

text \<open>The memory slab at an address.\<close>

definition mslab_at :: "'db kv \<Rightarrow> nat \<Rightarrow> nat" where
  "mslab_at s addr = (addr - mslab_base s) div slab_size s"

definition Put :: "'db env \<Rightarrow> nat \<Rightarrow> bytes \<Rightarrow> bytes \<Rightarrow> 'db kv \<Rightarrow> (Status, 'db kv) outcome" where
  "Put E fuel key value s =
     seq (slot_alloc E fuel fuel (slot_size_of key value) s) (\<lambda>r s.
     case r of
       Inl st \<Rightarrow> Ret st s
     | Inr slot \<Rightarrow>
         let addr = slot_to_slab (mslab_base s) (slab_size s) slot;
             m = mslab_at s addr
         in seq (check (mslab_base s \<le> addr \<and> addr < mslab_base s + nr_mslab s * slab_size s)
                   ''slab >= mslab_base_ && slab < mslab_end_'' s) (\<lambda>_ s.
            let s = upd_slab m (\<lambda>sl. sl\<lparr>data :=
                      slot_Write (data sl) (slot - (addr + slab_header_size)) key value\<rparr>) s;
                l = (sid (slabs s ! m),
                     slot_id_of (mslab_base s) (slab_size s) (slot_size (slabs s ! m)) slot)
            in seq (put_index E fuel key l s) (\<lambda>_ s.
               seq (retire_full E fuel m s) (\<lambda>_ s.
               Ret OK s))))"

text \<open>
  The part of \<^verbatim>\<open>Put\<close> before the index is locked: allocating the slot and writing the object. The
  result is the slab and the location of the object. After it other threads may come in.
\<close>

definition put_begin :: "'db env \<Rightarrow> nat \<Rightarrow> bytes \<Rightarrow> bytes \<Rightarrow> 'db kv \<Rightarrow> (Status + nat \<times> loc, 'db kv) outcome" where
  "put_begin E fuel key value s =
     seq (slot_alloc E fuel fuel (slot_size_of key value) s) (\<lambda>r s.
     case r of
       Inl st \<Rightarrow> Ret (Inl st) s
     | Inr slot \<Rightarrow>
         let addr = slot_to_slab (mslab_base s) (slab_size s) slot;
             m = mslab_at s addr
         in seq (check (mslab_base s \<le> addr \<and> addr < mslab_base s + nr_mslab s * slab_size s)
                   ''slab >= mslab_base_ && slab < mslab_end_'' s) (\<lambda>_ s.
            let s = upd_slab m (\<lambda>sl. sl\<lparr>data :=
                      slot_Write (data sl) (slot - (addr + slab_header_size)) key value\<rparr>) s;
                l = (sid (slabs s ! m),
                     slot_id_of (mslab_base s) (slab_size s) (slot_size (slabs s ! m)) slot)
            in Ret (Inr (m, l)) s))"

subsection \<open>Delete\<close>

text \<open>
  The decrement of \<^verbatim>\<open>nr_used\<close> is the argument of an \<^verbatim>\<open>assert\<close>: with \<^verbatim>\<open>NDEBUG\<close> it is not executed.
\<close>

definition Delete :: "'db env \<Rightarrow> bytes \<Rightarrow> 'db kv \<Rightarrow> (unit, 'db kv) outcome" where
  "Delete E key s =
     seq (lock_index s) (\<lambda>_ s.
     seq (index_lookup E key s) (\<lambda>r s.
     case r of
       None \<Rightarrow> Ret () (unlock_index s)
     | Some e \<Rightarrow>
         let s = s\<lparr>index := index_entry_free e
                     (chain_del (index_bucket (hash E) (index s) key) e (index s))\<rparr>;
             i = ie_slab_id (ientries (index s) ! e)
         in seq (slab_by_sid i s) (\<lambda>sl s.
            if ndebug E then Ret () (unlock_index s)
            else
              let s = upd_slab i (\<lambda>sl. sl\<lparr>nr_used := nr_used sl - 1\<rparr>) s
              in seq (check (0 < nr_used sl) ''slab->nr_used.fetch_sub(1) > 0'' s) (\<lambda>_ s.
                 Ret () (unlock_index s)))))"

subsection \<open>Get returns the contents\<close>

text \<open>
  A lookup that returns gives exactly the contents, and it changes nothing; with a working digest
  and \<^verbatim>\<open>index_mutex_\<close> free it does return: no read of a block fails.
\<close>

lemma get_slice_total:
  assumes inv: "data_inv E s" and ev: "evp_ok (hash E)" and free: "\<not> index_locked s"
  shows "total (\<lambda>r s'. s' = s \<and> r = (case cache E s key of
      None \<Rightarrow> Inl (NotFound ''Key not found'') | Some v \<Rightarrow> Inr v)) (get_slice E key s)"
proof -
  note g = data_invD(1) [OF inv] and ok = data_invD(3) [OF inv]
  obtain r where r: "get_index_entry (hash E) key (index s) = Inr r" using ev by (simp add: get_index_entry_ok)
  show ?thesis
  proof (cases r)
    case None
    then have "view s (hk E s key) = None" using get_index_entry_None [OF ok, of "hash E" key] r by (simp add: hk_def)
    then show ?thesis using free r None by (simp add: get_slice_def index_lookup_def cache_def)
  next
    case (Some e)
    let ?i = "ie_slab_id (ientries (index s) ! e)" and ?j = "ie_slot_id (ientries (index s) ! e)"
    have v: "view s (hk E s key) = Some (?i, ?j)"
      using get_index_entry_Some(1) [OF ok, of "hash E" key e] r Some by (simp add: hk_def entry_loc_def)
    note p = data_inv_point [OF inv v]
    have len: "?i < nr_mslab s + nr_dslab s" using p(1) g by (simp add: geom_def)
    have c: "cache E s key = (if fst (content E s (?i, ?j)) = key then Some (snd (content E s (?i, ?j))) else None)"
      using v by (simp add: cache_def)
    have fin: "(case content E s (?i, ?j) of (k, v) \<Rightarrow> \<lambda>s.
        if key \<noteq> k then Ret (Inl (NotFound ''Key not found'')) s else Ret (Inr v) s) s =
      Ret (case cache E s key of None \<Rightarrow> Inl (NotFound ''Key not found'') | Some v \<Rightarrow> Inr v) s"
      using c by (cases "content E s (?i, ?j)") auto
    show ?thesis
    proof (cases "im_memory (slabs s ! ?i)")
      case True
      then have "slot_kv (data (slabs s ! ?i)) (slab_slot (slabs s ! ?i) ?j) = content E s (?i, ?j)"
        by (simp add: content_def slab_data_def)
      then show ?thesis
        using free r Some len p(2) True fin
        by (simp add: get_slice_def index_lookup_def slab_by_sid_def Let_def)
    next
      case False
      have "backed E s ?i" by (rule data_inv_slab(2) [OF inv p(1)])
      then obtain b where b: "read_block (rdb E) (ssd s) (block_id (slabs s ! ?i)) = Inr b"
        using False p(2) by (auto simp: backed_def)
      then have "slot_kv (data (slab_assign (slab_of_bytes b) (slabs s ! ?i)))
          (slab_slot (slab_assign (slab_of_bytes b) (slabs s ! ?i)) ?j) = content E s (?i, ?j)"
        using False by (simp add: content_def slab_data_def slab_assign_def slab_of_bytes_def slab_slot_def)
      then show ?thesis
        using free r Some len False b fin
        by (simp add: get_slice_def index_lookup_def slab_by_sid_def read_dslab_def Let_def)
    qed
  qed
qed

lemma get_slice_safe:
  assumes inv: "data_inv E s"
  shows "safe (\<lambda>s'. s' = s) (\<lambda>r s'. s' = s \<and> r = (case cache E s key of
      None \<Rightarrow> Inl (NotFound ''Key not found'') | Some v \<Rightarrow> Inr v)) (get_slice E key s)"
proof (cases "index_locked s")
  case True
  then show ?thesis by (simp add: get_slice_def)
next
  case False
  show ?thesis
  proof (cases "get_index_entry (hash E) key (index s)")
    case (Inl e)
    then show ?thesis using False by (simp add: get_slice_def index_lookup_def)
  next
    case (Inr r)
    let ?E = "E\<lparr>hash := (hash E)\<lparr>evp_ctx_new := True, evp_digest_init := True,
      evp_digest_update := \<lambda>_. True, evp_digest_final := \<lambda>_. True\<rparr>\<rparr>"
    have sd: "slab_data ?E s = slab_data E s" by (simp add: slab_data_def fun_eq_iff)
    then have ct: "content ?E s = content E s" by (simp add: content_def fun_eq_iff)
    have hk: "hk ?E s = hk E s" by (simp add: hk_def hkey_def fun_eq_iff)
    have "data_inv ?E s = data_inv E s"
      by (simp add: data_inv_def geom_def slabs_ok_def points_ok_def backed_def slots_fit_def sd ct hk)
    moreover have "cache ?E s = cache E s" by (rule ext, unfold cache_def ct hk, rule refl)
    ultimately have same: "data_inv ?E s = data_inv E s" "cache ?E s = cache E s" by auto
    have "evp_ok (hash ?E)" by (simp add: evp_ok_def)
    with same inv False have t: "total (\<lambda>r s'. s' = s \<and> r = (case cache E s key of
      None \<Rightarrow> Inl (NotFound ''Key not found'') | Some v \<Rightarrow> Inr v)) (get_slice ?E key s)"
      using get_slice_total [of ?E s key] by simp
    have "get_index_entry (hash ?E) key (index s) = Inr r"
      using Inr by (auto simp: get_index_entry_def make_digest_def index_bucket_def split: if_splits)
    then have "index_lookup ?E key s = index_lookup E key s" using Inr by (simp add: index_lookup_def)
    moreover have "read_dslab ?E = read_dslab E" by (intro ext) (simp add: read_dslab_def)
    ultimately have "get_slice ?E key s = get_slice E key s" unfolding get_slice_def by (simp only:)
    with t show ?thesis by (auto simp: total_iff)
  qed
qed

subsection \<open>Put: writing the object\<close>

text \<open>The state after the slot was taken and the object written into it.\<close>

definition put_write :: "nat \<Rightarrow> nat \<Rightarrow> bytes \<Rightarrow> bytes \<Rightarrow> 'db kv \<Rightarrow> 'db kv" where
  "put_write c m key v s =
     (let s' = upd_slab m (add_object key v) s
      in if is_full (slabs s' ! m) then upd_class c (\<lambda>sc. sc\<lparr>slab_partial := remove1 m (slab_partial sc)\<rparr>) s' else s')"

lemma upd_slab_upd_slab:
  "i < length (slabs s) \<Longrightarrow> upd_slab i f (upd_slab i g s) = upd_slab i (\<lambda>x. f (g x)) s"
  by (simp add: upd_slab_def)

lemma upd_slab_upd_class: "upd_slab i f (upd_class c g s) = upd_class c g (upd_slab i f s)"
  by (simp add: upd_slab_def upd_class_def)

lemma slots_in_slab:
  assumes g: "geom E s" and h: "hdr_ok s sl"
  shows "44 + slot_size sl * nr_slots sl \<le> slab_size s"
proof -
  have "44 < slab_size s" using g by (simp add: geom_def)
  then show ?thesis using hdr_ok_slots(1) [OF g h] by linarith
qed

text \<open>\<^verbatim>\<open>slot_to_slab\<close> and \<^verbatim>\<open>slot_id\<close> find the slab and the number of the new slot.\<close>

lemma put_slot:
  assumes inv: "kv_inv E s" and c: "c < length (slab_class_table s)" and m: "slab_partial (slab_class_table s ! c) = m # ms"
    and run: "alloc_partial c m s = Ret slot s'"
  defines "addr \<equiv> slot_to_slab (mslab_base s') (slab_size s') slot"
  shows "mslab_at s' addr = m" and "mslab_base s' \<le> addr" and "addr < mslab_base s' + nr_mslab s' * slab_size s'"
    and "upd_slab m (\<lambda>sl. sl\<lparr>data := slot_Write (data sl) (slot - (addr + slab_header_size)) key v\<rparr>) s' = put_write c m key v s"
    and "slot_id_of (mslab_base s') (slab_size s') (slot_size (slabs s ! m)) slot = nr_alloc (slabs s ! m)"
proof -
  note p = alloc_partial_eq [OF inv c m]
  have data: "data_inv E s" using inv by (simp add: kv_inv_def)
  note g = data_invD(1) [OF data]
  have len: "m < length (slabs s)" using p(2) g by (simp add: geom_def)
  note h = data_inv_slab(1) [OF data len]
  let ?a = "slab_addr (mslab_base s) (slab_size s) (nr_mslab s) m"
  let ?off = "slab_slot (slabs s ! m) (nr_alloc (slabs s ! m))"
  have slot: "slot = ?a + 44 + ?off" using run p(5) by (simp split: if_splits)
  have same: "mslab_base s' = mslab_base s" "slab_size s' = slab_size s" "nr_mslab s' = nr_mslab s"
    using run p(5) by (auto split: if_splits)
  have b: "mslab_base s mod slab_size s = 0" "0 < slab_size s" using g by (simp_all add: geom_def)
  have sz: "0 < slot_size (slabs s ! m)" by (rule hdr_ok_slots(7) [OF g h]) (use p(4) in simp)
  note st = slot_to_slab_slot [OF b(1) slots_in_slab [OF g h] p(4) sz p(2)]
  have addr: "addr = ?a" using st(1) by (simp add: addr_def same slot slab_slot_def)
  have a: "?a = mslab_base s + m * slab_size s" using p(2) by (simp add: slab_addr_def)
  show "mslab_at s' addr = m" using b(2) by (simp add: mslab_at_def addr same a)
  show "mslab_base s' \<le> addr" by (simp add: addr same a)
  show "addr < mslab_base s' + nr_mslab s' * slab_size s'" using b(2) p(2) by (simp add: addr same a)
  show "slot_id_of (mslab_base s') (slab_size s') (slot_size (slabs s ! m)) slot = nr_alloc (slabs s ! m)"
    using st(2) by (simp add: same slot slab_slot_def)
  have off: "slot - (addr + slab_header_size) = ?off" by (simp add: slot addr)
  let ?w = "\<lambda>sl. sl\<lparr>data := slot_Write (data sl) ?off key v\<rparr>"
  have "upd_slab m ?w (upd_slab m alloc_one s) = upd_slab m (add_object key v) s"
    using len by (simp add: upd_slab_def alloc_one_def add_object_def)
  moreover have "is_full (slabs (upd_slab m (add_object key v) s) ! m) \<longleftrightarrow> nr_alloc (slabs s ! m) + 1 = nr_slots (slabs s ! m)"
    using len by (simp add: is_full_def add_object_def)
  ultimately show "upd_slab m (\<lambda>sl. sl\<lparr>data := slot_Write (data sl) (slot - (addr + slab_header_size)) key v\<rparr>) s' = put_write c m key v s"
    using run p(5) unfolding off put_write_def Let_def by (auto simp: upd_slab_upd_class split: if_splits)
qed

lemma partial_exclusive:
  assumes mi: "mem_inv [] s" and c: "c < length (slab_class_table s)" and m: "slab_partial (slab_class_table s ! c) = m # ms"
  shows "m \<notin> set (items (mslab_free s))" "m \<notin> set (items (mslab_full s))" "m \<notin> set ms"
    "i < length (slab_class_table s) \<Longrightarrow> m \<in> set (slab_partial (slab_class_table s ! i)) \<Longrightarrow> i = c"
proof -
  obtain A where A: "mset (partials s) = A + mset (m # ms)"
    using partials_upd [OF c, of "\<lambda>_. []"] m by auto
  have "count (mem_lists s) m \<le> 1" using mi unfolding mem_inv_def by simp
  then have "m \<notin># mset (items (mslab_free s)) + mset (items (mslab_full s)) + A + mset ms"
    by (simp add: mem_lists_def A count_eq_zero_iff [symmetric] del: count_greater_zero_iff)
  then show "m \<notin> set (items (mslab_free s))" "m \<notin> set (items (mslab_full s))" "m \<notin> set ms" by auto
  assume i: "i < length (slab_class_table s)" "m \<in> set (slab_partial (slab_class_table s ! i))"
  show "i = c"
  proof (rule ccontr)
    assume "i \<noteq> c"
    have "distinct (partials s)"
      unfolding distinct_count_atmost_1
    proof
      fix x
      have "count (mem_lists s) x \<le> 1" using mi unfolding mem_inv_def by simp
      then show "count (mset (partials s)) x = (if x \<in> set (partials s) then 1 else 0)"
        using count_greater_zero_iff [of "mset (partials s)" x]
        by (auto simp: mem_lists_def not_in_iff [symmetric] simp del: count_greater_zero_iff)
    qed
    then have "set (slab_partial (slab_class_table s ! i)) \<inter> set (slab_partial (slab_class_table s ! c)) = {}"
      using distinct_concat_nth_disjoint [of "map slab_partial (slab_class_table s)" i c] i c \<open>i \<noteq> c\<close>
      by (simp add: partials_def)
    then show False using i m by auto
  qed
qed

lemma put_write_fields:
  fixes key v :: bytes
  assumes "m < length (slabs s)" and c: "c < length (slab_class_table s)" and m: "slab_partial (slab_class_table s ! c) = m # ms"
  defines "s' \<equiv> put_write c m key v s"
  defines "full \<equiv> nr_alloc (slabs s ! m) + 1 = nr_slots (slabs s ! m)"
  shows "slabs s' ! j = (if j = m then add_object key v (slabs s ! m) else slabs s ! j)"
    and "slab_class_table s' ! i = (if full \<and> i = c then (slab_class_table s ! c)\<lparr>slab_partial := ms\<rparr> else slab_class_table s ! i)"
    and "length (slab_class_table s') = length (slab_class_table s)"
    and "mslab_free s' = mslab_free s" "mslab_full s' = mslab_full s" "nr_mslab s' = nr_mslab s" "index s' = index s"
    and "index_locked s' = index_locked s" "gc_buffer s' = gc_buffer s" "nr_dslab s' = nr_dslab s"
    and "mem_lists s = (if full then add_mset m (mem_lists s') else mem_lists s')"
    and "same_data (upd_slab m (add_object key v) s) s'" and "same_place s s'"
    and "disk_inv H X s' = disk_inv H X (upd_slab m (add_object key v) s)" "ops_in_range s' = ops_in_range s"
    and "enable_background_flush s' = enable_background_flush s" "live s' = live s"
proof -
  have f: "is_full (slabs (upd_slab m (add_object key v) s) ! m) = full"
    using assms(1) by (simp add: is_full_def add_object_def full_def)
  let ?t = "upd_slab m (add_object key v) s"
  have s': "s' = (if full then upd_class c (\<lambda>sc. sc\<lparr>slab_partial := remove1 m (slab_partial sc)\<rparr>) ?t else ?t)"
    by (simp add: s'_def put_write_def Let_def f)
  show "slabs s' ! j = (if j = m then add_object key v (slabs s ! m) else slabs s ! j)"
    using assms(1) by (simp add: s' slabs_upd)
  show "slab_class_table s' ! i = (if full \<and> i = c then (slab_class_table s ! c)\<lparr>slab_partial := ms\<rparr> else slab_class_table s ! i)"
    using c m by (simp add: s' upd_class_nth)
  show "same_data ?t s'" using same_data_upd_class [of ?t] by (simp add: s')
  have "same_place s ?t" by (rule same_place_upd_slab) (simp add: add_object_def)
  then show "same_place s s'" using same_place_trans [of s ?t s'] by (simp add: s')
  show "mem_lists s = (if full then add_mset m (mem_lists s') else mem_lists s')"
    using partials_upd [of c ?t "\<lambda>sc. remove1 m (slab_partial sc)"] c m
    by (auto simp: s' mem_lists_def partials_def)
qed (simp_all add: s'_def put_write_def Let_def ops_in_range_def gc_buffer_def live_def fun_eq_iff
      upd_class_def upd_slab_def split: if_splits, simp_all add: disk_inv_def placed_def on_lists_def is_dslab_def)

lemma put_write_mem:
  fixes key v :: bytes
  assumes mi: "mem_inv [] s" and len: "m < length (slabs s)" and c: "c < length (slab_class_table s)"
    and m: "slab_partial (slab_class_table s ! c) = m # ms"
  defines "s' \<equiv> put_write c m key v s"
  shows "mem_inv [] s'" and "is_full (slabs s' ! m) \<Longrightarrow> m \<notin># mem_lists s'"
proof -
  note f = put_write_fields [OF len c m, where key = key and v = v, folded s'_def]
  note ex = partial_exclusive [OF mi c m]
  have old: "cid (slabs s ! x) = int i" "nr_alloc (slabs s ! x) < nr_slots (slabs s ! x)"
    if "i < length (slab_class_table s)" "x \<in> set (slab_partial (slab_class_table s ! i))" for i x
    using mi that unfolding mem_inv_def by blast+
  have one: "\<forall>x. count (mem_lists s) x \<le> 1" and range: "\<forall>x \<in># mem_lists s. x < nr_mslab s - 1"
    using mi unfolding mem_inv_def by simp_all
  have cnt: "count (mem_lists s') x \<le> 1" for x
    using one [rule_format, of x] f(11) by (simp split: if_splits)
  have rng: "x < nr_mslab s - 1" if "x \<in># mem_lists s'" for x
    using range that f(11) by (simp split: if_splits)
  show "m \<notin># mem_lists s'" if "is_full (slabs s' ! m)"
  proof -
    have "mem_lists s = add_mset m (mem_lists s')" using f(1) [of m] f(11) that by (simp add: is_full_def add_object_def)
    with one [rule_format, of m] show ?thesis by (simp add: not_in_iff)
  qed
  have part: "cid (slabs s' ! x) = int i \<and> nr_alloc (slabs s' ! x) < nr_slots (slabs s' ! x)"
    if i: "i < length (slab_class_table s)" and x: "x \<in> set (slab_partial (slab_class_table s' ! i))" for i x
  proof -
    have xs: "x \<in> set (slab_partial (slab_class_table s ! i))" using x m unfolding f(2) by (auto split: if_splits)
    show ?thesis
    proof (cases "x = m")
      case True
      then have "i = c" using ex(4) i xs by simp
      moreover have "\<not> nr_alloc (slabs s ! m) + 1 = nr_slots (slabs s ! m)"
        using x True ex(3) \<open>i = c\<close> unfolding f(2) by (auto split: if_splits)
      ultimately show ?thesis using old [OF i xs] True by (simp add: f(1) add_object_def)
    next
      case False
      then show ?thesis using old [OF i xs] by (simp add: f(1))
    qed
  qed
  show "mem_inv [] s'"
    using mi cnt rng part ex(1,2) unfolding mem_inv_def f(3-6) by (auto simp: f(1))
qed

lemma put_write_ok:
  fixes key v :: bytes
  assumes inv: "kv_inv E s" and c: "c < length (slab_class_table s)" and m: "slab_partial (slab_class_table s ! c) = m # ms"
    and sz: "slot_size_of key v \<le> sc_slot_size (slab_class_table s ! c)"
  defines "s' \<equiv> put_write c m key v s"
  shows "kv_inv E s'" and "keeps E s s'" and "content E s' (m, nr_alloc (slabs s ! m)) = (key, v)"
    and "int (card (live s' m)) + 1 \<le> nr_used (slabs s' ! m)" and "nr_alloc (slabs s ! m) < nr_alloc (slabs s' ! m)"
    and "m < length (slabs s')" and "sid (slabs s' ! m) = m" and "cid (slabs s' ! m) = int c"
    and "slot_size (slabs s' ! m) = slot_size (slabs s ! m)"
proof -
  note p = alloc_partial_eq(1-4) [OF inv c m]
  have data: "data_inv E s" and mi: "mem_inv [] s" and di: "disk_inv [] {} s" using inv by (simp_all add: kv_inv_def)
  note g = data_invD(1) [OF data]
  have len: "m < length (slabs s)" using p(2) g by (simp add: geom_def)
  note f = put_write_fields [OF len c m, where key = key and v = v, folded s'_def]
  have "slot_size (slabs s ! m) = sc_slot_size (slab_class_table s ! c)"
    using data_inv_slab(1) [OF data len] p(3,4) by (auto simp: hdr_ok_def)
  then have sz': "slot_size_of key v \<le> slot_size (slabs s ! m)" using sz by simp
  note ao = add_object_step [OF data p(2,4) sz']
  note sd = f(12)
  show "keeps E s s'" by (rule keeps_trans [OF ao(2) same_data_keeps [OF sd]])
  show "content E s' (m, nr_alloc (slabs s ! m)) = (key, v)" using ao(3) same_data_view(2) [OF sd] by simp
  show "nr_alloc (slabs s ! m) < nr_alloc (slabs s' ! m)" "cid (slabs s' ! m) = int c" "sid (slabs s' ! m) = m"
    "slot_size (slabs s' ! m) = slot_size (slabs s ! m)"
    using p(3) data_inv_slab(4) [OF data len] by (simp_all add: f(1) add_object_def)
  show "m < length (slabs s')" using f(13) len by (simp add: same_place_def)
  show "int (card (live s' m)) + 1 \<le> nr_used (slabs s' ! m)"
    using data_inv_slab(5) [OF data len] by (simp add: f(1,17) add_object_def)
  have "disk_inv [] {} s'"
    unfolding f(14) by (rule disk_inv_upd [OF di]) (use disk_inv_mem [OF di p(2)] in \<open>auto simp: add_object_def\<close>)
  then show "kv_inv E s'"
    using inv same_data_inv [OF sd] ao(1) put_write_mem(1) [OF mi len c m, where key = key and v = v] f(9,13,15,17)
    by (simp add: kv_inv_def same_place_def s'_def)
qed

subsection \<open>Put: updating the index\<close>

text \<open>The contents after an object was stored: colliding keys lose theirs, all others keep it.\<close>

definition put_map :: "'db env \<Rightarrow> 'db kv \<Rightarrow> bytes \<Rightarrow> bytes \<Rightarrow> bytes \<Rightarrow> bytes option" where
  "put_map E s key v k =
     (if k = key then Some v else if hk E s k = hk E s key then None else cache E s k)"

definition put_post :: "'db env \<Rightarrow> bytes \<Rightarrow> bytes \<Rightarrow> nat \<Rightarrow> 'db kv \<Rightarrow> 'db kv \<Rightarrow> bool" where
  "put_post E key v m s s' \<longleftrightarrow> data_inv E s' \<and> cache E s' = put_map E s key v \<and> calm s s' \<and>
     ssd s' = ssd s \<and> (\<forall>i. i \<noteq> m \<longrightarrow> kept E i s s')"

lemma point_cache:
  assumes v: "index_view ix = (view s)(hk E s key \<mapsto> l)" and len: "length (itable ix) = length (itable (index s))"
    and c: "content E s l = (key, v)"
  shows "cache E (s\<lparr>index := ix\<rparr>) = put_map E s key v"
proof
  fix k
  have hk: "hk E (s\<lparr>index := ix\<rparr>) = hk E s" using len by (simp add: hk_def fun_eq_iff)
  show "cache E (s\<lparr>index := ix\<rparr>) k = put_map E s key v k"
    using v c by (auto simp: cache_def hk put_map_def split: option.split)
qed

text \<open>The new object in slot \<open>(m, n)\<close>, counted as used but not in the index yet.\<close>

definition pending :: "'db env \<Rightarrow> bytes \<Rightarrow> bytes \<Rightarrow> nat \<Rightarrow> nat \<Rightarrow> 'db kv \<Rightarrow> bool" where
  "pending E key v m n s \<longleftrightarrow> data_inv E s \<and> m < length (slabs s) \<and> n < nr_alloc (slabs s ! m) \<and>
     content E s (m, n) = (key, v) \<and> int (card (live s m)) + 1 \<le> nr_used (slabs s ! m)"

lemma pending_point:
  assumes p: "pending E key v m n s" and ix: "index_ok ix" "length (itable ix) = length (itable (index s))"
    and v: "index_view ix = (view s)(hk E s key \<mapsto> (m, n))"
  shows "put_post E key v m s (s\<lparr>index := ix\<rparr>)"
proof -
  have inv: "data_inv E s" and at: "m < length (slabs s)" "n < nr_alloc (slabs s ! m)"
    and ct: "content E s (m, n) = (key, v)" and room: "int (card (live s m)) + 1 \<le> nr_used (slabs s ! m)"
    using p by (simp_all add: pending_def)
  have "hk E s (fst (content E s (m, n))) = hk E s key" using ct by simp
  then have "data_inv E (s\<lparr>index := ix\<rparr>)" by (rule point_inv [OF inv ix v at _ room])
  moreover have "cache E (s\<lparr>index := ix\<rparr>) = put_map E s key v" by (rule point_cache [OF v ix(2) ct])
  moreover have "kept E i s (s\<lparr>index := ix\<rparr>)" if "i \<noteq> m" for i
    using that by (intro index_kept [OF inv]) (auto simp: live_point [OF inv v])
  ultimately show ?thesis by (simp add: put_post_def calm_index)
qed

text \<open>
  The slab that held the old object loses it: its live slots fit its use count less one, even when the new
  object is in the same slab.
\<close>

lemma redirect_used:
  assumes inv: "data_inv E s" and old: "view s (hk E s key) = Some (i, j)"
    and vw: "index_view ix = (view s)(hk E s key \<mapsto> (m, n))"
    and room: "int (card (live s m)) + 1 \<le> nr_used (slabs s ! m)"
  shows "0 < nr_used (slabs s ! i)" and "int (card (live (s\<lparr>index := ix\<rparr>) i)) \<le> nr_used (slabs s ! i) - 1"
    and "i \<noteq> m \<Longrightarrow> Suc (card (live (s\<lparr>index := ix\<rparr>) i)) \<le> card (live s i)"
proof -
  note pt = data_inv_point [OF inv old]
  have fin: "finite (live s i)" by (rule finite_live [OF inv])
  have one: "card (live s i) = Suc (card (live s i - {j}))" using card_Suc_Diff1 [OF fin pt(4)] by simp
  then show "0 < nr_used (slabs s ! i)" using data_inv_slab(5) [OF inv pt(1)] by linarith
  have same: "live (s\<lparr>index := ix\<rparr>) i = insert n (live s i - {j})" if "i = m"
    unfolding live_point [OF inv vw] using old that by auto
  have other: "live (s\<lparr>index := ix\<rparr>) i = live s i - {j}" if "i \<noteq> m"
    unfolding live_point [OF inv vw] using old that by auto
  then show "i \<noteq> m \<Longrightarrow> Suc (card (live (s\<lparr>index := ix\<rparr>) i)) \<le> card (live s i)" using one by simp
  show "int (card (live (s\<lparr>index := ix\<rparr>) i)) \<le> nr_used (slabs s ! i) - 1"
  proof (cases "i = m")
    case True
    have "card (insert n (live s i - {j})) \<le> card (live s i)" using one fin by (simp add: card_insert_if)
    then show ?thesis using room True same by simp
  next
    case False
    then show ?thesis using one other data_inv_slab(5) [OF inv pt(1)] by simp
  qed
qed

lemma pending_redirect:
  assumes p: "pending E key v m n s" and old: "view s (hk E s key) = Some (i, j)"
    and ix: "index_ok ix" "length (itable ix) = length (itable (index s))"
    and vw: "index_view ix = (view s)(hk E s key \<mapsto> (m, n))"
  shows "0 < nr_used (slabs s ! i)"
    and "put_post E key v m s ((upd_slab i (\<lambda>sl. sl\<lparr>nr_used := nr_used sl - 1\<rparr>) s)\<lparr>index := ix\<rparr>)"
proof -
  have inv: "data_inv E s" and room: "int (card (live s m)) + 1 \<le> nr_used (slabs s ! m)"
    using p by (simp_all add: pending_def)
  note pt = data_inv_point [OF inv old]
  note ru = redirect_used [OF inv old vw room]
  show "0 < nr_used (slabs s ! i)" by (rule ru(1))
  let ?s = "s\<lparr>index := ix\<rparr>"
  note pp = pending_point [OF p ix vw]
  have inv': "data_inv E ?s" using pp by (simp add: put_post_def)
  have "nr_used (slabs s ! i) - 1 \<le> int (nr_alloc (slabs s ! i))"
    using data_inv_slab(1) [OF inv pt(1)] by (simp add: hdr_ok_def)
  with ru(2) have u: "data_inv E (upd_slab i (\<lambda>sl. sl\<lparr>nr_used := nr_used (slabs s ! i) - 1\<rparr>) ?s)"
    "keeps E ?s (upd_slab i (\<lambda>sl. sl\<lparr>nr_used := nr_used (slabs s ! i) - 1\<rparr>) ?s)"
    using upd_nr_used [OF inv', of i "nr_used (slabs s ! i) - 1"] pt(1) by simp_all
  have eq: "(upd_slab i (\<lambda>sl. sl\<lparr>nr_used := nr_used sl - 1\<rparr>) s)\<lparr>index := ix\<rparr> =
      upd_slab i (\<lambda>sl. sl\<lparr>nr_used := nr_used (slabs s ! i) - 1\<rparr>) ?s"
    by (simp add: upd_slab_def)
  show "put_post E key v m s ((upd_slab i (\<lambda>sl. sl\<lparr>nr_used := nr_used sl - 1\<rparr>) s)\<lparr>index := ix\<rparr>)"
    unfolding put_post_def
  proof (intro conjI allI impI)
    fix a assume a: "a \<noteq> m"
    have k: "kept E a s ?s" using pp a by (simp add: put_post_def)
    show "kept E a s ((upd_slab i (\<lambda>sl. sl\<lparr>nr_used := nr_used sl - 1\<rparr>) s)\<lparr>index := ix\<rparr>)"
    proof (cases "i = m")
      case True
      let ?u = "upd_slab i (\<lambda>sl. sl\<lparr>nr_used := nr_used (slabs s ! i) - 1\<rparr>) ?s"
      have "kept E a ?s ?u" using a True by (intro kept_upd_other) simp
      with k show ?thesis unfolding eq by (rule kept_trans)
    next
      case False
      with k ru(3) show ?thesis unfolding eq by (intro unuse_kept) simp_all
    qed
  qed (use u pp keeps_cache [OF u(2)] calm_trans [OF calm_index calm_nr_used] in \<open>auto simp: put_post_def eq\<close>)
qed

subsection \<open>Put: waiting for an index entry\<close>

text \<open>
  While \<^verbatim>\<open>index_mutex_\<close> is held, neither a flush nor a collection for index entries can complete in
  the same thread: both need the mutex.
\<close>

lemma evict_dslabs_locked:
  "index_locked s \<Longrightarrow> ds \<noteq> [] \<Longrightarrow> evict_dslabs E ds s \<noteq> Ret u s'"
  by (cases ds) (auto simp: seq_Ret_iff read_dslab_def check_def lock_index_def split: sum.splits)

lemma do_quick_gc_locked:
  assumes inv: "kv_inv E s" and locked: "index_locked s" and k: "0 < nf + no"
  shows "do_quick_gc E nf no s \<noteq> Ret u s'"
proof
  assume run: "do_quick_gc E nf no s = Ret u s'"
  then obtain ds t where sel: "select_drop (nf + no) [] s = Some (ds, t)"
    by (auto simp: do_quick_gc_def seq_Ret_iff split: option.splits)
  with run have ev: "\<exists>a s1. evict_dslabs E ds t = Ret a s1" by (auto simp: do_quick_gc_def seq_Ret_iff)
  have "0 < nch s" using inv nch_pos [of E s] by (simp add: kv_inv_def data_inv_def)
  then have "index_locked t" "int (length ds) = nf + no"
    using select_drop_result [OF sel, of "[]" "{}"] inv k locked
    by (auto simp: drop_result_def kv_inv_def list_move_def)
  moreover from this k have "ds \<noteq> []" by auto
  ultimately show False using evict_dslabs_locked ev by blast
qed

lemma slab_gc_locked:
  assumes inv: "kv_inv E s" and locked: "index_locked s" and none: "nr_free_index_entry (index s) = 0"
    and run: "slab_gc E s = Ret u s'"
  shows "\<exists>b. s' = s\<lparr>slab_gc_thread_started := b\<rparr>"
proof (cases "enable_background_gc s")
  case True
  then show ?thesis using run by (auto simp: slab_gc_def)
next
  case False
  have "s' = s"
    using run False none do_quick_gc_locked [OF inv locked, of 1 0]
    by (auto simp: slab_gc_def do_slab_gc_def seq_Ret_iff Let_def split: if_splits)
  then show ?thesis by (intro exI [of _ "slab_gc_thread_started s"]) simp
qed

lemma find_dslab_None: "find_dslab E n s = Ret None s' \<Longrightarrow> shutdown s'"
proof (induction n arbitrary: s)
  case 0
  then show ?case by simp
next
  case (Suc n)
  then show ?case
    by (auto simp: seq_Ret_iff wait_slab_gc_until_shutdown_def split: option.splits if_splits)
qed

lemma flush_to_locked: "index_locked s \<Longrightarrow> flush_to E m d c s \<noteq> Ret u s'"
  by (auto simp: flush_to_def seq_Ret_iff flush_mslab_to_dslab_def check_def lock_index_def Let_def
      split: prod.splits if_splits)

lemma slab_flush_locked:
  assumes inv: "kv_inv E s" and hp: "heap_pick_ok E" and locked: "index_locked s" and run: "slab_flush E fuel s = Ret u s'"
  shows "\<exists>b. s' = s\<lparr>slab_flush_thread_started := b\<rparr>"
proof (cases "enable_background_flush s \<or> shutdown s")
  case True
  then show ?thesis
    using run by (cases "enable_background_flush s")
      (auto simp: slab_flush_def do_slab_flush_def intro: exI [of _ "slab_flush_thread_started s"])
next
  case False
  then obtain m ms r t where m: "items (mslab_full s) = m # ms"
    and f: "find_dslab E fuel (s\<lparr>mslab_full := slist_del m (mslab_full s)\<rparr>) = Ret r t"
    and rest: "\<exists>go. (case r of None \<Rightarrow> Ret False t | Some (d, c) \<Rightarrow> flush_to E m d c t) = Ret go s'"
    using run by (auto simp: slab_flush_def do_slab_flush_def seq_Ret_iff split: list.splits)
  have "kv_inv E (s\<lparr>mslab_full := slist_del m (mslab_full s)\<rparr>)" using kv_inv_unlist_full(1) [OF inv] m by simp
  from find_dslab_safe [OF this hp, of fuel] f
  have "found E r (s\<lparr>mslab_full := slist_del m (mslab_full s)\<rparr>) t" by simp
  then have t: "index_locked t" "\<not> shutdown t" using locked False by (auto simp: found_def same_place_def)
  have "r \<noteq> None" using find_dslab_None f t(2) by (cases r) auto
  then show ?thesis using rest flush_to_locked [OF t(1)] by auto
qed

lemma started_inv:
  assumes "kv_inv E s"
  shows "kv_inv E (s\<lparr>slab_flush_thread_started := b\<rparr>)" "kv_inv E (s\<lparr>slab_gc_thread_started := b\<rparr>)"
    "refines E s (s\<lparr>slab_flush_thread_started := b\<rparr>)" "refines E s (s\<lparr>slab_gc_thread_started := b\<rparr>)"
proof -
  show "kv_inv E (s\<lparr>slab_flush_thread_started := b\<rparr>)" using started_flush [OF assms] by (simp add: flush_result_def)
  have lm: "list_move s (s\<lparr>slab_gc_thread_started := b\<rparr>)"
    by (simp add: list_move_def same_data_def same_place_def ptrs_ok_def)
  show "kv_inv E (s\<lparr>slab_gc_thread_started := b\<rparr>)"
    by (rule kv_inv_move [OF assms lm])
      (use assms in \<open>simp_all add: kv_inv_def disk_inv_def placed_def on_lists_def is_dslab_def ops_in_range_def\<close>)
  show "refines E s (s\<lparr>slab_flush_thread_started := b\<rparr>)" "refines E s (s\<lparr>slab_gc_thread_started := b\<rparr>)"
    by (rule keeps_refines [OF same_data_keeps], simp)+
qed

text \<open>With the lock held and no free entry, a collection frees nothing, so the caller ends up waiting.\<close>

lemma collect_locked:
  assumes inv: "kv_inv E s" and hp: "heap_pick_ok E" and locked: "index_locked s"
    and none: "nr_free_index_entry (index s) = 0" and t: "t = s\<lparr>slab_flush_thread_started := b\<rparr>"
  shows "safe (gc_exit E s) (\<lambda>_ u. False) (seq (slab_gc E t) (\<lambda>_ s.
    if nr_free_index_entry (index s) > 0 then f s else Wait ''gc_finished_signal_'' (unlock_index s)))"
proof -
  have it: "kv_inv E t" "refines E s t" using started_inv [OF inv] t by simp_all
  have "index_locked t" "nr_free_index_entry (index t) = 0" using locked none t by simp_all
  note lk = slab_gc_locked [OF it(1) this]
  show ?thesis
  proof (cases "\<exists>u v. slab_gc E t = Ret u v")
    case True
    then obtain u v where r: "slab_gc E t = Ret u v" by blast
    with lk obtain b' where v: "v = t\<lparr>slab_gc_thread_started := b'\<rparr>" by blast
    have "kv_inv E v" "refines E t v" using started_inv [OF it(1)] v by simp_all
    then have "gc_exit E s (unlock_index v)"
      using refines_trans [OF it(2)] keeps_refines [OF locked_data(2) [of E v False]] refines_trans [of E s v]
      by (auto simp: gc_exit_def kv_inv_def unlock_index_def)
    then show ?thesis using r v t none by simp
  next
    case False
    have "safe (gc_exit E t) (\<lambda>_ s'. gc_result E t s') (slab_gc E t)" by (rule slab_gc_safe [OF it(1) hp])
    then show ?thesis
      using False refines_trans [OF it(2)] by (cases "slab_gc E t") (auto simp: gc_exit_def)
  qed
qed

text \<open>So the loop either finds a free entry at once or blocks; it never comes round again by itself.\<close>

lemma alloc_index_entry_safe:
  assumes inv: "kv_inv E s" and hp: "heap_pick_ok E" and locked: "index_locked s"
  shows "safe (gc_exit E s) (\<lambda>e s'. \<exists>ix. index_entry_alloc (index s) = (Some e, ix) \<and> s' = s\<lparr>index := ix\<rparr>)
    (alloc_index_entry E fuel n s)"
proof (cases n)
  case 0
  then show ?thesis by simp
next
  case (Suc k)
  show ?thesis
  proof (cases "ifree (index s)")
    case (Cons e es)
    then show ?thesis using Suc by (simp add: index_entry_alloc_def)
  next
    case Nil
    have "index_ok (index s)" using inv by (simp add: kv_inv_def data_inv_def)
    then have none: "nr_free_index_entry (index s) = 0" using Nil by (simp add: index_ok_def)
    note gc = collect_locked [OF inv hp locked none]
    show ?thesis
    proof (cases "\<exists>u t. slab_flush E fuel s = Ret u t")
      case True
      then obtain u t b where "slab_flush E fuel s = Ret u t" "t = s\<lparr>slab_flush_thread_started := b\<rparr>"
        using slab_flush_locked [OF inv hp locked] by blast
      with gc [of t b "alloc_index_entry E fuel k"] show ?thesis using Suc Nil by (auto simp: index_entry_alloc_def elim: safe_weaken)
    next
      case False
      with slab_flush_safe [OF inv hp, of fuel] show ?thesis
        using Suc Nil by (cases "slab_flush E fuel s") (auto simp: index_entry_alloc_def)
    qed
  qed
qed

subsection \<open>Put refines the insertion into a map\<close>

lemma locked_view [simp]:
  "content E (s\<lparr>index_locked := b\<rparr>) = content E s" "hk E (s\<lparr>index_locked := b\<rparr>) = hk E s"
  "cache E (s\<lparr>index_locked := b\<rparr>) = cache E s" "put_map E (s\<lparr>index_locked := b\<rparr>) = put_map E s"
proof -
  note v = same_data_view [OF locked_same_data [of s b]]
  show "content E (s\<lparr>index_locked := b\<rparr>) = content E s" by (rule v)
  show hk: "hk E (s\<lparr>index_locked := b\<rparr>) = hk E s" by (rule v)
  show ch: "cache E (s\<lparr>index_locked := b\<rparr>) = cache E s" by (rule v)
  show "put_map E (s\<lparr>index_locked := b\<rparr>) = put_map E s" by (simp add: put_map_def hk ch fun_eq_iff)
qed

lemma pending_locked [simp]: "pending E key v m n (s\<lparr>index_locked := b\<rparr>) = pending E key v m n s"
  by (simp add: pending_def)

lemma put_post_unlock:
  assumes "put_post E key v m (s\<lparr>index_locked := True\<rparr>) t" and "\<not> index_locked s"
  shows "put_post E key v m s (unlock_index t)"
  using assms by (simp add: put_post_def unlock_index_def calm_def)

lemma kv_inv_locked [simp]: "kv_inv E (s\<lparr>index_locked := b\<rparr>) = kv_inv E s"
proof -
  have "mem_inv [] (s\<lparr>index_locked := b\<rparr>) = mem_inv [] s"
    by (simp add: mem_inv_def mem_lists_def partials_def)
  then show ?thesis by (simp add: kv_inv_def ops_in_range_def ptrs_ok_def)
qed

lemma redirect_entry_safe:
  assumes p: "pending E key v m n s" and f: "get_index_entry (hash E) key (index s) = Inr (Some e)"
  shows "total (\<lambda>_ s'. put_post E key v m s s') (redirect_entry e (m, n) s)"
proof -
  have inv: "data_inv E s" using p by (simp add: pending_def)
  note ok = data_invD(3) [OF inv]
  let ?i = "ie_slab_id (ientries (index s) ! e)" and ?j = "ie_slot_id (ientries (index s) ! e)"
  have old: "view s (hk E s key) = Some (?i, ?j)"
    using get_index_entry_Some(1) [OF ok f] by (simp add: hk_def entry_loc_def)
  have vw: "index_view (set_entry_loc e (m, n) (index s)) = (view s)(hk E s key \<mapsto> (m, n))"
    using get_index_entry_Some(2) [OF ok f] by (simp add: hk_def)
  note r = pending_redirect [OF p old set_entry_loc_ok [OF ok] _ vw]
  have "?i < nr_mslab s + nr_dslab s"
    using data_inv_point(1) [OF inv old] data_invD(1) [OF inv] by (simp add: geom_def)
  then show ?thesis using r by (simp add: redirect_entry_def slab_by_sid_def Let_def)
qed

lemma put_new_entry_safe:
  assumes inv: "kv_inv E s" and hp: "heap_pick_ok E" and locked: "index_locked s" and p: "pending E key v m n s"
    and f: "get_index_entry (hash E) key (index s) = Inr None"
  shows "safe (gc_exit E s) (\<lambda>_ s'. put_post E key v m s s') (put_new_entry E fuel key (m, n) s)"
proof -
  have ok: "index_ok (index s)" using inv by (simp add: kv_inv_def data_inv_def)
  obtain dg where dg: "make_digest (hash E) key = Inr dg" "dg = sha1 (hash E) key"
    using f by (auto simp: get_index_entry_def make_digest_def split: if_splits)
  let ?b = "index_bucket (hash E) (index s) key"
  have none: "index_view (index s) (?b, dg) = None"
    using get_index_entry_None [OF ok f] dg by simp
  have step: "put_post E key v m s (s\<lparr>index := put_index_entry (hash E) key e (set_entry_loc e (m, n) (set_entry_digest e dg ix))\<rparr>)"
    if a: "index_entry_alloc (index s) = (Some e, ix)" for e ix
  proof -
    note iv = index_insert_view [OF ok a index_bucket_less [OF ok] none, of "(m, n)"]
    have len: "itable ix = itable (index s)" using a by (auto simp: index_entry_alloc_def split: list.splits)
    have "index_bucket (hash E) (set_entry_loc e (m, n) (set_entry_digest e dg ix)) key = ?b"
      by (simp add: index_bucket_def len)
    moreover have "(?b, dg) = hk E s key" using dg by (simp add: hk_def)
    ultimately show ?thesis
      using iv len by (intro pending_point [OF p]) (simp_all add: put_index_entry_def)
  qed
  show ?thesis
    unfolding put_new_entry_def safe_seq
    by (rule safe_weaken [OF alloc_index_entry_safe [OF inv hp locked]]) (use step dg in \<open>auto simp: Let_def\<close>)
qed

lemma put_index_safe:
  assumes inv: "kv_inv E s" and hp: "heap_pick_ok E" and p: "pending E key v m n s"
  shows "safe (gc_exit E s) (\<lambda>_ s'. put_post E key v m s s') (put_index E fuel key (m, n) s)"
proof (cases "index_locked s")
  case True
  then show ?thesis using gc_exit_refl [OF inv] by (simp add: put_index_def lock_index_def)
next
  case False
  let ?s = "s\<lparr>index_locked := True\<rparr>"
  have ex: "gc_exit E ?s t \<Longrightarrow> gc_exit E s t" for t
    using refines_trans [OF keeps_refines [OF locked_data(2)]] by (auto simp: gc_exit_def)
  have e0: "gc_exit E s ?s" using inv keeps_refines [OF locked_data(2)] by (auto simp: gc_exit_def kv_inv_def)
  have inv': "kv_inv E ?s" and p': "pending E key v m n ?s" using inv p by simp_all
  have post: "safe (gc_exit E s) (\<lambda>_ t. put_post E key v m s (unlock_index t)) r"
    if "safe (gc_exit E ?s) (\<lambda>_ t. put_post E key v m ?s t) r" for r :: "(unit, 'a kv) outcome"
    by (rule safe_mono [OF that]) (use ex put_post_unlock False in blast)+
  show ?thesis
  proof (cases "get_index_entry (hash E) key (index s)")
    case (Inl e)
    then show ?thesis using False e0 by (simp add: put_index_def lock_index_def index_lookup_def)
  next
    case (Inr r)
    show ?thesis
    proof (cases r)
      case None
      then have "get_index_entry (hash E) key (index ?s) = Inr None" using Inr by simp
      from post [OF put_new_entry_safe [OF inv' hp _ p' this]] show ?thesis
        using False Inr None by (simp add: put_index_def lock_index_def index_lookup_def)
    next
      case (Some e)
      then have "get_index_entry (hash E) key (index ?s) = Inr (Some e)" using Inr by simp
      from redirect_entry_safe [OF p' this] have "safe (gc_exit E ?s) (\<lambda>_ t. put_post E key v m ?s t) (redirect_entry e (m, n) ?s)"
        by (auto simp: total_iff)
      from post [OF this] show ?thesis
        using False Inr Some by (simp add: put_index_def lock_index_def index_lookup_def)
    qed
  qed
qed

lemma put_post_inv:
  assumes inv: "kv_inv E s" and pp: "put_post E key v m s s'" and m: "m < gc_buffer s"
  shows "kv_inv E s'" and "mem_lists s' = mem_lists s" and "is_full (slabs s' ! m) = is_full (slabs s ! m)"
    and "gc_buffer s' = gc_buffer s" and "cid (slabs s' ! m) = cid (slabs s ! m)" and "same_place s s'"
proof -
  have calm: "calm s s'" and data: "data_inv E s'" and lv: "\<And>i. i \<noteq> m \<Longrightarrow> live s' i \<subseteq> live s i"
    using pp by (simp_all add: put_post_def kept_def)
  show gb: "gc_buffer s' = gc_buffer s" using calm by (simp add: calm_def same_place_def gc_buffer_def)
  show "mem_lists s' = mem_lists s" "is_full (slabs s' ! m) = is_full (slabs s ! m)" "cid (slabs s' ! m) = cid (slabs s ! m)"
    "same_place s s'"
    using calm by (simp_all add: calm_def same_lists_def mem_lists_def partials_def is_full_def)
  have "live s' (gc_buffer s') = {}" using lv [of "gc_buffer s"] m inv gb by (auto simp: kv_inv_def)
  then show "kv_inv E s'"
    using inv data calm_disk [OF _ calm] calm_mem [OF _ calm] calm_ops [OF _ calm] calm
    by (simp add: kv_inv_def calm_def same_place_def)
qed

lemma retire_full_ok:
  assumes inv: "kv_inv E s" and m: "m < gc_buffer s" "cid (slabs s ! m) \<noteq> -1" "is_full (slabs s ! m) \<Longrightarrow> m \<notin># mem_lists s"
  shows "total (\<lambda>_ s'. kv_inv E s' \<and> keeps E s s' \<and> index_locked s' = index_locked s) (retire_full E fuel m s)"
proof (cases "is_full (slabs s ! m)")
  case True
  let ?s = "s\<lparr>mslab_full := slist_add m (mslab_full s)\<rparr>"
  have mi: "mem_inv [] s" and data: "data_inv E s" using inv by (simp_all add: kv_inv_def)
  have A: "mem_lists ?s = add_mset m (mem_lists s)" by (simp add: mem_lists_def partials_def)
  have "count (mem_lists ?s) x \<le> 1" for x
    using mi m(3) [OF True] unfolding A mem_inv_def by (auto simp: not_in_iff)
  then have "mem_inv [] ?s" using mi m(1,2) A unfolding mem_inv_def by (auto simp: gc_buffer_def)
  moreover have "same_data s ?s" by simp
  ultimately have i1: "kv_inv E ?s"
    using inv same_data_inv [of s ?s E] same_data_view(5) [of s ?s]
    by (simp add: kv_inv_def disk_inv_def placed_def on_lists_def is_dslab_def ops_in_range_def ptrs_ok_def gc_buffer_def)
  have "keeps E s ?s" by (rule same_data_keeps) simp
  moreover have "kv_inv E (?s\<lparr>slab_flush_thread_started := True\<rparr>)" by (rule started_inv(1) [OF i1])
  moreover have "keeps E s (?s\<lparr>slab_flush_thread_started := True\<rparr>)"
    by (rule same_data_keeps) (simp add: same_data_def)
  ultimately show ?thesis using True i1 by (simp add: retire_full_def slab_flush_def Let_def)
next
  case False
  then show ?thesis using inv by (simp add: retire_full_def)
qed

definition stored :: "'db env \<Rightarrow> bytes \<Rightarrow> bytes \<Rightarrow> 'db kv \<Rightarrow> 'db kv \<Rightarrow> bool" where
  "stored E key v s s' \<longleftrightarrow> kv_inv E s' \<and> (\<exists>t. refines E s t \<and> cache E s' = put_map E t key v)"

definition put_rest :: "'db env \<Rightarrow> nat \<Rightarrow> bytes \<Rightarrow> nat \<Rightarrow> nat \<Rightarrow> 'db kv \<Rightarrow> (Status, 'db kv) outcome" where
  "put_rest E fuel key m n s =
     seq (put_index E fuel key (m, n) s) (\<lambda>_ s. seq (retire_full E fuel m s) (\<lambda>_ s. Ret OK s))"

lemma put_rest_safe:
  assumes inv: "kv_inv E s" and hp: "heap_pick_ok E" and p: "pending E key v m n s"
    and m: "m < gc_buffer s" "cid (slabs s ! m) \<noteq> -1" "is_full (slabs s ! m) \<Longrightarrow> m \<notin># mem_lists s"
  shows "safe (gc_exit E s) (\<lambda>st s'. st = OK \<and> kv_inv E s' \<and> cache E s' = put_map E s key v) (put_rest E fuel key m n s)"
proof -
  have rest: "safe (gc_exit E s) (\<lambda>_ s'. kv_inv E s' \<and> cache E s' = put_map E s key v) (retire_full E fuel m t)"
    if pp: "put_post E key v m s t" for t
  proof -
    note i = put_post_inv [OF inv pp m(1)]
    have "total (\<lambda>_ s'. kv_inv E s' \<and> keeps E t s' \<and> index_locked s' = index_locked t) (retire_full E fuel m t)"
      using i m by (intro retire_full_ok) simp_all
    then obtain a u where "retire_full E fuel m t = Ret a u" and u: "kv_inv E u" "keeps E t u" unfolding total_iff by blast
    moreover have "cache E u = put_map E s key v" using keeps_cache [OF u(2)] pp by (simp add: put_post_def)
    ultimately show ?thesis by simp
  qed
  show ?thesis
    unfolding put_rest_def safe_seq
  proof (rule safe_weaken [OF put_index_safe [OF inv hp p]])
    fix a t assume "put_post E key v m s t"
    from rest [OF this] show "safe (gc_exit E s) (\<lambda>_ s'. safe (gc_exit E s) (\<lambda>st s'. st = OK \<and> kv_inv E s' \<and> cache E s' = put_map E s key v) (Ret OK s'))
      (retire_full E fuel m t)"
      by (rule safe_weaken) simp
  qed
qed

text \<open>The steps in a row are \<^verbatim>\<open>Put\<close>.\<close>

lemma Put_steps:
  "Put E fuel key v s =
     seq (put_begin E fuel key v s) (\<lambda>r s.
     case r of
       Inl st \<Rightarrow> Ret st s
     | Inr (m, l) \<Rightarrow> seq (put_index E fuel key l s) (\<lambda>_ s. seq (retire_full E fuel m s) (\<lambda>_ s. Ret OK s)))"
  by (cases "slot_alloc E fuel fuel (slot_size_of key v) s")
    (simp_all add: Put_def put_begin_def Let_def seq_assoc check_def split: sum.split)

lemma put_begin_Inr:
  assumes inv: "kv_inv E s1" and cl: "get_slab_class (slab_class_table s1) (slot_size_of key v) = Inr c"
    and m: "slab_partial (slab_class_table s1 ! c) = m # ms" and run: "alloc_partial c m s1 = Ret slot s'"
    and al: "slot_alloc E fuel fuel (slot_size_of key v) s = Ret (Inr slot) s'"
  shows "put_begin E fuel key v s = Ret (Inr (m, (m, nr_alloc (slabs s1 ! m)))) (put_write c m key v s1)"
proof -
  have c: "c < length (slab_class_table s1)" "slot_size_of key v \<le> sc_slot_size (slab_class_table s1 ! c)"
    using get_slab_class_Inr [OF cl] by simp_all
  note ps = put_slot(1-3,5) [OF inv c(1) m run] and w = put_slot(4) [OF inv c(1) m run, where key = key and v = v]
  note ok = put_write_ok [OF inv c(1) m c(2)]
  have same: "mslab_base (put_write c m key v s1) = mslab_base s'" "slab_size (put_write c m key v s1) = slab_size s'"
    unfolding w [symmetric] by simp_all
  let ?addr = "slot_to_slab (mslab_base s') (slab_size s') slot"
  have chk: "check (mslab_base s' \<le> ?addr \<and> ?addr < mslab_base s' + nr_mslab s' * slab_size s') n s' = Ret () s'" for n
    unfolding check_def if_P [OF conjI [OF ps(2,3)]] ..
  show ?thesis
    unfolding put_begin_def al seq.simps sum.case Let_def ps(1) chk w ok(7,9) same ps(4) ..
qed

lemma Put_Inr:
  assumes "kv_inv E s1" and "get_slab_class (slab_class_table s1) (slot_size_of key v) = Inr c"
    and "slab_partial (slab_class_table s1 ! c) = m # ms" and "alloc_partial c m s1 = Ret slot s'"
    and "slot_alloc E fuel fuel (slot_size_of key v) s = Ret (Inr slot) s'"
  shows "Put E fuel key v s = put_rest E fuel key m (nr_alloc (slabs s1 ! m)) (put_write c m key v s1)"
  using put_begin_Inr [OF assms] by (simp add: Put_steps put_rest_def)

lemma put_write_pending:
  assumes inv: "kv_inv E s" and cl: "get_slab_class (slab_class_table s) (slot_size_of key v) = Inr c"
    and m: "slab_partial (slab_class_table s ! c) = m # ms"
  defines "s' \<equiv> put_write c m key v s"
  shows "kv_inv E s'" and "keeps E s s'" and "pending E key v m (nr_alloc (slabs s ! m)) s'" and "m < gc_buffer s'"
    and "cid (slabs s' ! m) \<noteq> -1" and "is_full (slabs s' ! m) \<Longrightarrow> m \<notin># mem_lists s'"
    and "index s' = index s" and "index_locked s' = index_locked s"
proof -
  have c: "c < length (slab_class_table s)" "slot_size_of key v \<le> sc_slot_size (slab_class_table s ! c)"
    using get_slab_class_Inr [OF cl] by simp_all
  note ok = put_write_ok [OF inv c(1) m c(2), folded s'_def] and p = alloc_partial_eq [OF inv c(1) m]
  have len: "m < length (slabs s)" and mi: "mem_inv [] s"
    using inv p(2) by (simp_all add: kv_inv_def data_inv_def geom_def)
  show "kv_inv E s'" "keeps E s s'" "pending E key v m (nr_alloc (slabs s ! m)) s'"
    using ok by (simp_all add: pending_def kv_inv_def)
  show "m < gc_buffer s'" "cid (slabs s' ! m) \<noteq> -1" "is_full (slabs s' ! m) \<Longrightarrow> m \<notin># mem_lists s'"
    using put_write_fields(9) [OF len c(1) m] p(1) ok(8) put_write_mem(2) [OF mi len c(1) m] by (simp_all add: s'_def)
  show "index s' = index s" "index_locked s' = index_locked s"
    by (simp_all add: s'_def put_write_def upd_class_def Let_def)
qed

lemma Put_safe:
  assumes inv: "kv_inv E s" and hp: "heap_pick_ok E"
  shows "safe (gc_exit E s) (\<lambda>st s'. if st = OK then stored E key v s s' else
     kv_inv E s' \<and> refines E s s' \<and>
     (st = ObjectTooLarge ''Object is too large'' \<and> get_slab_class (slab_class_table s) (slot_size_of key v) = Inl st \<or>
      st = Shutdown ''KVCache is shutting down'' \<and> shutdown s)) (Put E fuel key v s)"
proof -
  let ?sz = "slot_size_of key v"
  note sa = slot_alloc_safe [OF inv hp, of ?sz fuel fuel]
  show ?thesis
  proof (cases "\<exists>r s'. slot_alloc E fuel fuel ?sz s = Ret r s'")
    case False
    then show ?thesis using sa by (cases "slot_alloc E fuel fuel ?sz s") (auto simp: Put_def)
  next
    case True
    then obtain r s' where al: "slot_alloc E fuel fuel ?sz s = Ret r s'" by blast
    then have ar: "alloc_result E ?sz s r s'" using sa by simp
    show ?thesis
    proof (cases r)
      case (Inl st)
      then show ?thesis using al ar by (auto simp: Put_def alloc_result_def alloc_pre_def)
    next
      case (Inr slot)
      then obtain s1 c m ms where pre: "alloc_pre E s s1" and cl: "get_slab_class (slab_class_table s1) ?sz = Inr c"
        and m: "slab_partial (slab_class_table s1 ! c) = m # ms" and run: "alloc_partial c m s1 = Ret slot s'"
        using ar by (auto simp: alloc_result_def)
      have inv1: "kv_inv E s1" and rf: "refines E s s1" using pre by (simp_all add: alloc_pre_def)
      let ?s2 = "put_write c m key v s1"
      note w = put_write_pending [OF inv1 cl m]
      have r2: "refines E s ?s2" by (rule refines_trans [OF rf keeps_refines [OF w(2)]])
      from put_rest_safe [OF w(1) hp w(3-6)]
      have "safe (gc_exit E ?s2) (\<lambda>st s'. st = OK \<and> kv_inv E s' \<and> cache E s' = put_map E ?s2 key v)
        (put_rest E fuel key m (nr_alloc (slabs s1 ! m)) ?s2)" .
      then show ?thesis
        unfolding Put_Inr [OF inv1 cl m run al [unfolded Inr]]
      proof (rule safe_mono)
        show "gc_exit E s u" if "gc_exit E ?s2 u" for u using that refines_trans [OF r2] by (simp add: gc_exit_def)
        show "if st = OK then stored E key v s u else kv_inv E u \<and> refines E s u \<and>
            (st = ObjectTooLarge ''Object is too large'' \<and> get_slab_class (slab_class_table s) ?sz = Inl st \<or>
             st = Shutdown ''KVCache is shutting down'' \<and> shutdown s)"
          if "st = OK \<and> kv_inv E u \<and> cache E u = put_map E ?s2 key v" for st u
          using that r2 by (auto simp: stored_def)
      qed
    qed
  qed
qed

end
