(* ===== verification/KV_Ops.thy ===== *)
theory KV_Ops
  imports KV_Cache
begin

text \<open>
  What the public operations do to the contents, seen together: \<^verbatim>\<open>Delete\<close>, the two forms of
  \<^verbatim>\<open>Get\<close>, round trips between \<^verbatim>\<open>Put\<close> and \<^verbatim>\<open>Get\<close>, and the cases in which \<^verbatim>\<open>Put\<close> is certain to
  return or certain to block.
\<close>

subsection \<open>Delete\<close>

text \<open>The index goes by hash key: deleting a key also deletes a key that collides with it.\<close>

definition del_map :: "'db env \<Rightarrow> 'db kv \<Rightarrow> bytes \<Rightarrow> bytes \<Rightarrow> bytes option" where
  "del_map E s key k = (if hk E s k = hk E s key then None else cache E s k)"

definition deleted :: "'db env \<Rightarrow> bytes \<Rightarrow> 'db kv \<Rightarrow> 'db kv \<Rightarrow> bool" where
  "deleted E key s s' \<longleftrightarrow> kv_inv E s' \<and> cache E s' = del_map E s key \<and> calm s s' \<and> refines E s s' \<and> (\<forall>i. kept E i s s')"

lemma del_map_absent:
  assumes "view s (hk E s key) = None"
  shows "del_map E s key = cache E s"
proof
  fix k
  show "del_map E s key k = cache E s k" using assms by (simp add: del_map_def cache_def)
qed

lemma unpoint_cache:
  assumes v: "index_view ix = (view s)(hk E s key := None)" and len: "length (itable ix) = length (itable (index s))"
  shows "cache E (s\<lparr>index := ix\<rparr>) = del_map E s key"
proof
  fix k
  have hk: "hk E (s\<lparr>index := ix\<rparr>) = hk E s" using len by (simp add: hk_def fun_eq_iff)
  show "cache E (s\<lparr>index := ix\<rparr>) k = del_map E s key k"
    using v by (simp add: cache_def hk del_map_def content_def slab_data_def split: option.split)
qed

lemma kv_inv_calm:
  assumes inv: "kv_inv E s" and data: "data_inv E s'" and calm: "calm s s'" and lv: "live s' (gc_buffer s) \<subseteq> live s (gc_buffer s)"
  shows "kv_inv E s'"
proof -
  have "gc_buffer s' = gc_buffer s" using calm by (simp add: calm_def same_place_def gc_buffer_def)
  then have "live s' (gc_buffer s') = {}" using lv inv by (simp add: kv_inv_def)
  then show ?thesis
    using inv data calm_disk [OF _ calm] calm_mem [OF _ calm] calm_ops [OF _ calm] calm
    by (simp add: kv_inv_def calm_def same_place_def)
qed

lemma erase_entry:
  assumes inv: "kv_inv E s" and f: "get_index_entry (hash E) key (index s) = Inr (Some e)"
  defines "ix \<equiv> index_entry_free e (chain_del (index_bucket (hash E) (index s) key) e (index s))"
    and "i \<equiv> ie_slab_id (ientries (index s) ! e)"
  shows "deleted E key s (s\<lparr>index := ix\<rparr>)" and "i < length (slabs s)"
    and "int (card (live (s\<lparr>index := ix\<rparr>) i)) + 1 \<le> nr_used (slabs s ! i)"
    and "Suc (card (live (s\<lparr>index := ix\<rparr>) i)) \<le> card (live s i)"
proof -
  have data: "data_inv E s" using inv by (simp add: kv_inv_def)
  note ok = data_invD(3) [OF data]
  note gs = get_index_entry_Some(3,4) [OF ok f, folded ix_def]
  let ?s = "s\<lparr>index := ix\<rparr>" and ?j = "ie_slot_id (ientries (index s) ! e)"
  have len: "length (itable ix) = length (itable (index s))" by (simp add: ix_def index_entry_free_def chain_del_def)
  have vw: "index_view ix = (view s)(hk E s key := None)" using gs(1) by (simp add: hk_def)
  have "index_view ix \<subseteq>\<^sub>m view s" unfolding vw by (simp add: map_le_def)
  then have dr: "dropped s ?s" using gs(2) len unfolding dropped_def by blast
  have "kv_inv E ?s"
    by (rule kv_inv_calm [OF inv dropped_inv(1) [OF data dr] calm_index dropped_live [OF dr]])
  then show "deleted E key s ?s"
    using unpoint_cache [OF vw len] index_kept [OF data dropped_live [OF dr]] dropped_inv(2) [OF data dr]
    by (simp add: deleted_def calm_index)
  have old: "view s (hk E s key) = Some (i, ?j)"
    using get_index_entry_Some(1) [OF ok f] by (simp add: hk_def entry_loc_def i_def)
  note pt = data_inv_point [OF data old] and fin = finite_live [OF data, of i]
  show "i < length (slabs s)" by (rule pt(1))
  have "?j \<notin> live ?s i"
    using view_inj [OF data old] vw by (auto simp: live_def split: if_splits)
  then have "card (live ?s i) < card (live s i)"
    using pt(4) dropped_live [OF dr, of i] by (intro psubset_card_mono [OF fin]) blast
  then show "int (card (live ?s i)) + 1 \<le> nr_used (slabs s ! i)" "Suc (card (live ?s i)) \<le> card (live s i)"
    using data_inv_slab(5) [OF data pt(1)] by simp_all
qed

lemma deleted_used:
  assumes d: "deleted E key s t" and i: "i < length (slabs t)" and n: "int (card (live t i)) + 1 \<le> nr_used (slabs t ! i)"
    and t: "t = s\<lparr>index := ix\<rparr>" and c: "Suc (card (live t i)) \<le> card (live s i)"
  shows "deleted E key s (upd_slab i (\<lambda>sl. sl\<lparr>nr_used := nr_used sl - 1\<rparr>) t)"
proof -
  have inv: "kv_inv E t" and data: "data_inv E t" using d by (simp_all add: deleted_def kv_inv_def)
  let ?n = "nr_used (slabs t ! i) - 1"
  have "?n \<le> int (nr_alloc (slabs t ! i))" using data_inv_slab(1) [OF data i] by (simp add: hdr_ok_def)
  note u = upd_nr_used [OF data i _ this]
  let ?u = "upd_slab i (\<lambda>sl. sl\<lparr>nr_used := ?n\<rparr>) t"
  have u1: "data_inv E ?u" and u2: "keeps E t ?u" using u n by simp_all
  have eq: "upd_slab i (\<lambda>sl. sl\<lparr>nr_used := nr_used sl - 1\<rparr>) t = ?u" by (simp add: upd_slab_def)
  have "kv_inv E ?u" by (rule kv_inv_calm [OF inv u1 calm_nr_used]) simp
  moreover have "calm s ?u" using d calm_trans calm_nr_used by (simp add: deleted_def) blast
  moreover have "kept E a s ?u" for a
    using unuse_kept [of E a s ix i] d c by (simp add: deleted_def t)
  moreover have "refines E s ?u" using refines_trans [OF _ keeps_refines [OF u2]] d by (simp add: deleted_def)
  ultimately show ?thesis unfolding eq using d keeps_cache [OF u2] by (simp add: deleted_def)
qed

lemma deleted_locked:
  assumes "deleted E key (s\<lparr>index_locked := True\<rparr>) t" and "\<not> index_locked s"
  shows "deleted E key s (unlock_index t)"
proof -
  have "del_map E (s\<lparr>index_locked := True\<rparr>) key = del_map E s key" by (simp add: del_map_def fun_eq_iff)
  moreover have "refines E s (unlock_index t)" if "refines E (s\<lparr>index_locked := True\<rparr>) t"
    unfolding unlock_index_def
    using refines_trans [OF refines_trans [OF keeps_refines [OF locked_data(2)] that] keeps_refines [OF locked_data(2)]] .
  ultimately show ?thesis using assms by (simp add: deleted_def unlock_index_def calm_def)
qed

text \<open>
  \<^verbatim>\<open>Delete\<close> with the mutex free: it removes the key, passes its assertion, and keeps the
  invariant in both build modes. It can only fail on a broken digest, leaving the contents.
\<close>

lemma Delete_run:
  assumes inv: "kv_inv E s" and free: "\<not> index_locked s" and lookup: "get_index_entry (hash E) key (index s) = Inr r"
  shows "total (\<lambda>_ s'. deleted E key s s') (Delete E key s)"
proof -
  let ?s = "s\<lparr>index_locked := True\<rparr>"
  have inv': "kv_inv E ?s" using inv by simp
  have r: "get_index_entry (hash E) key (index ?s) = Inr r" using lookup by simp
  show ?thesis
  proof (cases r)
    case None
    have "view ?s (hk E ?s key) = None"
      using get_index_entry_None [OF _ r [unfolded None]] inv' by (simp add: hk_def kv_inv_def data_inv_def)
    then have "deleted E key ?s ?s" using inv' by (simp add: deleted_def del_map_absent)
    from deleted_locked [OF this free] show ?thesis
      using r None free by (simp add: Delete_def lock_index_def index_lookup_def)
  next
    case (Some e)
    let ?ix = "index_entry_free e (chain_del (index_bucket (hash E) (index s) key) e (index s))"
    let ?i = "ie_slab_id (ientries (index s) ! e)"
    have e: "deleted E key ?s (?s\<lparr>index := ?ix\<rparr>)" "?i < length (slabs s)"
      "int (card (live (?s\<lparr>index := ?ix\<rparr>) ?i)) + 1 \<le> nr_used (slabs s ! ?i)"
      "Suc (card (live (?s\<lparr>index := ?ix\<rparr>) ?i)) \<le> card (live ?s ?i)"
      using erase_entry [OF inv' r [unfolded Some]] by simp_all
    have d: "deleted E key ?s (upd_slab ?i (\<lambda>sl. sl\<lparr>nr_used := nr_used sl - 1\<rparr>) (?s\<lparr>index := ?ix\<rparr>))"
      by (rule deleted_used [OF e(1) _ _ refl e(4)]) (use e in simp_all)
    have pos: "0 < nr_used (slabs s ! ?i)" using e(3) by simp
    have len: "?i < nr_mslab s + nr_dslab s" using e(2) inv by (simp add: kv_inv_def data_inv_def geom_def)
    have same: "ientries ?ix = ientries (index s)" by (simp add: index_entry_free_def chain_del_def)
    show ?thesis
      using r Some free deleted_locked [OF e(1) free] deleted_locked [OF d free] pos len
      by (simp add: Delete_def lock_index_def index_lookup_def slab_by_sid_def Let_def same)
  qed
qed

lemma Delete_total:
  assumes "kv_inv E s" and "\<not> index_locked s" and ev: "evp_ok (hash E)"
  shows "total (\<lambda>_ s'. deleted E key s s') (Delete E key s)"
  using Delete_run [OF assms(1,2)] get_index_entry_ok [OF ev] by blast

lemma Delete_safe:
  assumes inv: "kv_inv E s"
  shows "safe (\<lambda>s'. keeps E s s') (\<lambda>_ s'. deleted E key s s') (Delete E key s)"
proof (cases "index_locked s")
  case True
  then show ?thesis by (simp add: Delete_def lock_index_def)
next
  case False
  show ?thesis
  proof (cases "get_index_entry (hash E) key (index s)")
    case (Inl e)
    then show ?thesis using False by (simp add: Delete_def lock_index_def index_lookup_def)
  next
    case (Inr r)
    from Delete_run [OF inv False this] show ?thesis by (auto simp: total_iff)
  qed
qed

text \<open>
  In a debug build the count of used slots follows the deletion; with \<^verbatim>\<open>NDEBUG\<close> it stays, so from
  then on it exceeds the number of entries that point into the slab.
\<close>

lemma Delete_used:
  assumes inv: "kv_inv E s" and free: "\<not> index_locked s" and ev: "evp_ok (hash E)"
    and at: "view s (hk E s key) = Some (i, j)"
  shows "total (\<lambda>_ s'. nr_used (slabs s' ! i) = nr_used (slabs s ! i) - (if ndebug E then 0 else 1)) (Delete E key s)"
proof -
  have data: "data_inv E s" using inv by (simp add: kv_inv_def)
  note ok = data_invD(3) [OF data]
  obtain r where r: "get_index_entry (hash E) key (index s) = Inr r" using ev by (simp add: get_index_entry_ok)
  then obtain e where e: "get_index_entry (hash E) key (index s) = Inr (Some e)"
    using get_index_entry_None [OF ok, of "hash E" key] at by (cases r) (auto simp: hk_def)
  then have i: "ie_slab_id (ientries (index s) ! e) = i"
    using get_index_entry_Some(1) [OF ok e] at by (simp add: hk_def entry_loc_def)
  note er = erase_entry [OF inv e, unfolded i]
  have len: "i < nr_mslab s + nr_dslab s" using er(2) data by (simp add: data_inv_def geom_def)
  have pos: "0 < nr_used (slabs s ! i)" using er(3) by simp
  have same: "ientries (index_entry_free e (chain_del b e ix)) = ientries ix" for b ix
    by (simp add: index_entry_free_def chain_del_def)
  show ?thesis
    using e i len pos er(2) free
    by (simp add: Delete_def lock_index_def index_lookup_def slab_by_sid_def unlock_index_def Let_def same)
qed

subsection \<open>Get\<close>

lemma Get_total:
  assumes "kv_inv E s" and "\<not> index_locked s" and "evp_ok (hash E)"
  shows "Get E key s = (case cache E s key of
    None \<Rightarrow> Ret (NotFound ''Key not found'', None) s | Some v \<Rightarrow> Ret (OK, Some v) s)"
  using get_slice_total [of E s key] assms
  by (auto simp: Get_def kv_inv_def total_iff split: option.splits)

lemma Get_buffer_total:
  assumes "kv_inv E s" and "\<not> index_locked s" and "evp_ok (hash E)"
  shows "Get_buffer E key n s = (case cache E s key of
    None \<Rightarrow> Ret (NotFound ''Key not found'', None) s
  | Some v \<Rightarrow> if length v > n then Ret (BufferTooSmall ''Buffer is too small'', None) s else Ret (OK, Some v) s)"
  using get_slice_total [of E s key] assms
  by (auto simp: Get_buffer_def kv_inv_def total_iff split: option.splits)

subsection \<open>Put\<close>

lemma stored_cache:
  assumes "stored E key v s s'"
  shows "cache E s' key = Some v" and "cache E s' \<subseteq>\<^sub>m (cache E s)(key \<mapsto> v)"
proof -
  obtain t where r: "refines E s t" and c: "cache E s' = put_map E t key v" using assms by (auto simp: stored_def)
  show "cache E s' key = Some v" by (simp add: c put_map_def)
  show "cache E s' \<subseteq>\<^sub>m (cache E s)(key \<mapsto> v)"
    using refines_cache [OF r] unfolding c by (auto simp: map_le_def put_map_def dom_def split: if_splits)
qed

text \<open>With room in memory (a partial slab of the class, or a free one) and in the index, \<^verbatim>\<open>Put\<close> returns.\<close>

lemma safe_Ret: "safe I Q m \<Longrightarrow> m = Ret a s \<Longrightarrow> total Q m"
  by simp

definition mem_room :: "'db kv \<Rightarrow> nat \<Rightarrow> bool" where
  "mem_room s sz \<longleftrightarrow> (case get_slab_class (slab_class_table s) sz of Inl st \<Rightarrow> False
     | Inr c \<Rightarrow> slab_partial (slab_class_table s ! c) \<noteq> [] \<or> items (mslab_free s) \<noteq> [])"

text \<open>What storing an object leaves alone.\<close>

definition put_frame :: "'db kv \<Rightarrow> 'db kv \<Rightarrow> bool" where
  "put_frame s t \<longleftrightarrow> ssd t = ssd s \<and> slab_size t = slab_size s \<and> nr_free_dslab t = nr_free_dslab s \<and> shutdown t = shutdown s \<and>
     mslab_full t = mslab_full s \<and> map sc_slot_size (slab_class_table t) = map sc_slot_size (slab_class_table s)"

lemma put_frame_refl [simp]: "put_frame s s"
  by (simp add: put_frame_def)

lemma put_frame_trans: "put_frame s t \<Longrightarrow> put_frame t u \<Longrightarrow> put_frame s u"
  by (simp add: put_frame_def)

lemma put_frame_class:
  assumes "\<And>x. sc_slot_size (f x) = sc_slot_size x"
  shows "put_frame s (upd_class c f s)"
proof -
  have "map sc_slot_size ((slab_class_table s)[c := f (slab_class_table s ! c)]) = map sc_slot_size (slab_class_table s)"
    using assms by (cases "c < length (slab_class_table s)") (auto simp: map_update list_update_same_conv list_update_beyond)
  then show ?thesis by (simp add: put_frame_def upd_class_def)
qed

lemma put_frame_steps: "put_frame s (take_free_mslab c m s)" "put_frame s (put_write c m key v s)"
proof -
  have u: "put_frame s (upd_slab i f s)" for i f by (simp add: put_frame_def)
  have "put_frame s (s\<lparr>mslab_free := x\<rparr>)" for x by (simp add: put_frame_def)
  then have "put_frame s (upd_slab i f (s\<lparr>mslab_free := x\<rparr>))" for i f x by (simp add: put_frame_def)
  then show "put_frame s (take_free_mslab c m s)"
    unfolding take_free_mslab_def Let_def by (rule put_frame_trans) (rule put_frame_class, simp)
  show "put_frame s (put_write c m key v s)"
    using u put_frame_trans [OF u put_frame_class [of "\<lambda>sc. sc\<lparr>slab_partial := remove1 m (slab_partial sc)\<rparr>"]]
    by (simp add: put_write_def Let_def)
qed

lemma slot_alloc_room:
  assumes inv: "kv_inv E s" and room: "mem_room s sz"
  obtains s1 c m ms slot s' where "kv_inv E s1" "keeps E s s1" "index s1 = index s" "index_locked s1 = index_locked s" "put_frame s s1"
    "get_slab_class (slab_class_table s1) sz = Inr c" "slab_partial (slab_class_table s1 ! c) = m # ms"
    "alloc_partial c m s1 = Ret slot s'" "slot_alloc E fuel (Suc (Suc n)) sz s = Ret (Inr slot) s'"
proof -
  obtain c where cl: "get_slab_class (slab_class_table s) sz = Inr c"
    and rm: "slab_partial (slab_class_table s ! c) \<noteq> [] \<or> items (mslab_free s) \<noteq> []"
    using room by (auto simp: mem_room_def split: sum.splits)
  have c: "c < length (slab_class_table s)" using get_slab_class_Inr [OF cl] by simp
  show ?thesis
  proof (cases "slab_partial (slab_class_table s ! c)")
    case (Cons m ms)
    obtain slot s' where "alloc_partial c m s = Ret slot s'" using alloc_partial_eq(5) [OF inv c Cons] by blast
    then show ?thesis using that [of s c m ms slot s'] inv cl Cons by simp
  next
    case Nil
    then obtain m ms where fr: "items (mslab_free s) = m # ms" using rm by (cases "items (mslab_free s)") auto
    let ?t = "take_free_mslab c m s"
    note t = take_free_mslab_ok [OF inv fr c]
    have cl': "get_slab_class (slab_class_table ?t) sz = Inr c" using get_slab_class_cong [OF t(6)] cl by simp
    have c': "c < length (slab_class_table ?t)" using get_slab_class_Inr [OF cl'] by simp
    have p: "slab_partial (slab_class_table ?t ! c) = [m]" using t(5) Nil by simp
    obtain slot s' where run: "alloc_partial c m ?t = Ret slot s'" using alloc_partial_eq(5) [OF t(1) c' p] by blast
    have "sc_cid (slab_class_table s ! c) = int c"
      using geom_class(4) [of E s "int c"] inv c by (simp add: kv_inv_def data_inv_def)
    then have "slot_alloc E fuel (Suc (Suc n)) sz s = Ret (Inr slot) s'" using cl cl' Nil fr p run by simp
    moreover have "index ?t = index s" by (simp add: take_free_mslab_def upd_class_def Let_def)
    ultimately show ?thesis
      by (intro that [of ?t c m "[]" slot s']) (use t cl' p run put_frame_steps(1) [of s c m] in auto)
  qed
qed

lemma put_index_returns:
  assumes inv: "kv_inv E s" and hp: "heap_pick_ok E" and p: "pending E key v m n s"
    and free: "\<not> index_locked s" and ev: "evp_ok (hash E)"
    and ie: "view s (hk E s key) \<noteq> None \<or> 0 < nr_free_index_entry (index s)"
  shows "total (\<lambda>_ s'. put_post E key v m s s') (put_index E (Suc fuel) key (m, n) s)"
proof -
  have ok: "index_ok (index s)" using inv by (simp add: kv_inv_def data_inv_def)
  let ?s = "s\<lparr>index_locked := True\<rparr>"
  obtain r where r: "get_index_entry (hash E) key (index s) = Inr r" using ev by (simp add: get_index_entry_ok)
  have "\<exists>a t. put_index E (Suc fuel) key (m, n) s = Ret a t"
  proof (cases r)
    case None
    then have "view s (hk E s key) = None" using get_index_entry_None [OF ok] r by (simp add: hk_def)
    then have "ifree (index s) \<noteq> []" using ie ok by (auto simp: index_ok_def)
    then obtain e ix where "index_entry_alloc (index s) = (Some e, ix)"
      by (cases "ifree (index s)") (auto simp: index_entry_alloc_def)
    then show ?thesis
      using r None free ev
      by (simp add: put_index_def lock_index_def index_lookup_def put_new_entry_def Let_def)
  next
    case (Some e)
    have "pending E key v m n ?s" using p by simp
    moreover have "get_index_entry (hash E) key (index ?s) = Inr (Some e)" using r Some by simp
    ultimately obtain a t where "redirect_entry e (m, n) ?s = Ret a t"
      using redirect_entry_safe [of E key v m n ?s e] unfolding total_iff by blast
    then show ?thesis using r Some free by (simp add: put_index_def lock_index_def index_lookup_def)
  qed
  then show ?thesis using safe_Ret [OF put_index_safe [OF inv hp p]] by blast
qed

lemma put_rest_returns:
  assumes inv: "kv_inv E s" and hp: "heap_pick_ok E" and p: "pending E key v m n s"
    and m: "m < gc_buffer s" "cid (slabs s ! m) \<noteq> -1" "is_full (slabs s ! m) \<Longrightarrow> m \<notin># mem_lists s"
    and free: "\<not> index_locked s" and ev: "evp_ok (hash E)"
    and ie: "view s (hk E s key) \<noteq> None \<or> 0 < nr_free_index_entry (index s)"
  shows "total (\<lambda>st s'. st = OK \<and> kv_inv E s' \<and> cache E s' = put_map E s key v \<and> \<not> index_locked s' \<and>
    put_frame s (s'\<lparr>mslab_full := mslab_full s\<rparr>) \<and>
    mslab_full s' = (if is_full (slabs s ! m) then slist_add m (mslab_full s) else mslab_full s)) (put_rest E (Suc fuel) key m n s)"
proof -
  obtain a t where t: "put_index E (Suc fuel) key (m, n) s = Ret a t" and pp: "put_post E key v m s t"
    using put_index_returns [OF inv hp p free ev ie] unfolding total_iff by blast
  note i = put_post_inv [OF inv pp m(1)]
  have pf: "put_frame s t" using pp by (simp add: put_post_def calm_def same_place_def same_lists_def put_frame_def)
  let ?full = "is_full (slabs s ! m)"
  define u where "u = (if ?full then let t = t\<lparr>mslab_full := slist_add m (mslab_full t)\<rparr>
    in if enable_background_flush t then t\<lparr>slab_flush_thread_started := True\<rparr> else t else t)"
  have u: "retire_full E (Suc fuel) m t = Ret () u" using i(3) by (simp add: retire_full_def slab_flush_def u_def Let_def)
  have lk: "index_locked u = index_locked t" "put_frame s (u\<lparr>mslab_full := mslab_full s\<rparr>)"
    "mslab_full u = (if ?full then slist_add m (mslab_full s) else mslab_full s)"
    using pf by (simp_all add: u_def Let_def put_frame_def)
  have "\<not> index_locked u" using lk pp free by (simp add: put_post_def calm_def)
  moreover have "put_rest E (Suc fuel) key m n s = Ret OK u" using t u by (simp add: put_rest_def)
  ultimately show ?thesis using put_rest_safe [OF inv hp p m, of "Suc fuel"] lk by simp
qed

lemma keeps_put_map:
  assumes "keeps E s t"
  shows "put_map E t key v = put_map E s key v"
  using keeps_cache [OF assms] refines_hk [OF keeps_refines [OF assms]] by (simp add: put_map_def fun_eq_iff)

text \<open>A \<^verbatim>\<open>Put\<close> with room in memory, as the write followed by the rest.\<close>

lemma Put_room:
  assumes inv: "kv_inv E s" and room: "mem_room s (slot_size_of key v)"
  obtains m n t where "kv_inv E t" "keeps E s t" "pending E key v m n t" "m < gc_buffer t" "cid (slabs t ! m) \<noteq> -1"
    "is_full (slabs t ! m) \<longrightarrow> m \<notin># mem_lists t" "index t = index s" "index_locked t = index_locked s" "put_frame s t"
    "Put E (Suc (Suc fuel)) key v s = put_rest E (Suc (Suc fuel)) key m n t"
proof -
  obtain s1 c m ms slot s' where s1: "kv_inv E s1" "keeps E s s1" "index s1 = index s" "index_locked s1 = index_locked s" "put_frame s s1"
    and cl: "get_slab_class (slab_class_table s1) (slot_size_of key v) = Inr c"
    and m: "slab_partial (slab_class_table s1 ! c) = m # ms" and run: "alloc_partial c m s1 = Ret slot s'"
    and al: "slot_alloc E (Suc (Suc fuel)) (Suc (Suc fuel)) (slot_size_of key v) s = Ret (Inr slot) s'"
    by (rule slot_alloc_room [OF inv room])
  note w = put_write_pending [OF s1(1) cl m]
  show ?thesis
    by (rule that [OF w(1) keeps_trans [OF s1(2) w(2)] w(3-5) _ _ _ put_frame_trans [OF s1(5) put_frame_steps(2)] Put_Inr [OF s1(1) cl m run al]])
      (simp_all add: w(6-8) s1(3,4))
qed

lemma Put_returns_frame:
  assumes inv: "kv_inv E s" and hp: "heap_pick_ok E" and room: "mem_room s (slot_size_of key v)"
    and free: "\<not> index_locked s" and ev: "evp_ok (hash E)"
    and ie: "view s (hk E s key) \<noteq> None \<or> 0 < nr_free_index_entry (index s)"
  shows "total (\<lambda>st s'. st = OK \<and> kv_inv E s' \<and> cache E s' = put_map E s key v \<and> \<not> index_locked s' \<and>
    put_frame s (s'\<lparr>mslab_full := mslab_full s\<rparr>) \<and>
    (\<exists>m t. put_frame s t \<and> kv_inv E t \<and> m < gc_buffer t \<and> cid (slabs t ! m) \<noteq> -1 \<and> 0 < nr_alloc (slabs t ! m) \<and>
       mslab_full s' = (if is_full (slabs t ! m) then slist_add m (mslab_full s) else mslab_full s)))
    (Put E (Suc (Suc fuel)) key v s)"
proof -
  obtain m n t where t: "kv_inv E t" "keeps E s t" "pending E key v m n t" "m < gc_buffer t" "cid (slabs t ! m) \<noteq> -1"
    "is_full (slabs t ! m) \<longrightarrow> m \<notin># mem_lists t" "index t = index s" "index_locked t = index_locked s" "put_frame s t"
    and put: "Put E (Suc (Suc fuel)) key v s = put_rest E (Suc (Suc fuel)) key m n t"
    by (rule Put_room [OF inv room, where fuel = fuel])
  have "view t (hk E t key) \<noteq> None \<or> 0 < nr_free_index_entry (index t)" using ie by (simp add: t(7) hk_def)
  note r = put_rest_returns [OF t(1) hp t(3-5) mp [OF t(6)] _ ev this, of "Suc fuel"]
  have na: "0 < nr_alloc (slabs t ! m)" using t(3) by (auto simp: pending_def)
  obtain s' where s': "put_rest E (Suc (Suc fuel)) key m n t = Ret OK s'" "kv_inv E s'" "cache E s' = put_map E t key v" "\<not> index_locked s'"
    "put_frame t (s'\<lparr>mslab_full := mslab_full t\<rparr>)" "mslab_full s' = (if is_full (slabs t ! m) then slist_add m (mslab_full t) else mslab_full t)"
    using r free t(8) unfolding total_iff by auto
  have fl: "mslab_full t = mslab_full s" using t(9) by (simp add: put_frame_def)
  have "put_frame s (s'\<lparr>mslab_full := mslab_full s\<rparr>)" using put_frame_trans [OF t(9) s'(5)] by (simp add: fl)
  moreover have "cache E s' = put_map E s key v" using s'(3) keeps_put_map [OF t(2)] by simp
  ultimately show ?thesis using s' na t unfolding put fl by auto
qed

lemma Put_returns:
  assumes "kv_inv E s" and "heap_pick_ok E" and "mem_room s (slot_size_of key v)"
    and "\<not> index_locked s" and "evp_ok (hash E)"
    and "view s (hk E s key) \<noteq> None \<or> 0 < nr_free_index_entry (index s)"
  shows "total (\<lambda>st s'. st = OK \<and> kv_inv E s' \<and> cache E s' = put_map E s key v \<and> \<not> index_locked s') (Put E (Suc (Suc fuel)) key v s)"
  using Put_returns_frame [OF assms, of fuel] unfolding total_iff by blast

text \<open>
  Without a free index entry a \<^verbatim>\<open>Put\<close> of a new key never returns by itself: with background threads it
  waits for them (and releases \<^verbatim>\<open>index_mutex_\<close>), and without them the flush and the collection it runs
  itself need \<^verbatim>\<open>index_mutex_\<close>, which it holds.
\<close>

lemma Put_blocks:
  assumes inv: "kv_inv E s" and hp: "heap_pick_ok E" and room: "mem_room s (slot_size_of key v)"
    and new: "view s (hk E s key) = None" and none: "nr_free_index_entry (index s) = 0"
  shows "Put E (Suc (Suc fuel)) key v s \<noteq> Ret st s'"
proof
  assume ret: "Put E (Suc (Suc fuel)) key v s = Ret st s'"
  let ?f = "Suc (Suc fuel)"
  obtain m n t where t: "kv_inv E t" "index t = index s" and put: "Put E ?f key v s = put_rest E ?f key m n t"
    by (rule Put_room [OF inv room, where fuel = fuel])
  have ok: "index_ok (index s)" using inv by (simp add: kv_inv_def data_inv_def)
  let ?t = "t\<lparr>index_locked := True\<rparr>"
  obtain r where r: "get_index_entry (hash E) key (index s) = Inr r"
    using ret by (cases "get_index_entry (hash E) key (index s)")
      (auto simp: put put_rest_def put_index_def index_lookup_def lock_index_def t(2) split: if_splits)
  then have "r = None" using get_index_entry_Some(1) [OF ok, of "hash E" key] new by (cases r) (auto simp: hk_def)
  then obtain e t' where run: "alloc_index_entry E ?f ?f ?t = Ret e t'"
    using ret r by (auto simp: put put_rest_def put_index_def put_new_entry_def seq_Ret_iff index_lookup_def lock_index_def t(2) split: if_splits)
  have "safe (gc_exit E ?t) (\<lambda>e s'. \<exists>ix. index_entry_alloc (index ?t) = (Some e, ix) \<and> s' = ?t\<lparr>index := ix\<rparr>)
      (alloc_index_entry E ?f ?f ?t)"
    by (rule alloc_index_entry_safe [OF _ hp]) (use t(1) in simp_all)
  then have "\<exists>ix. index_entry_alloc (index s) = (Some e, ix)" using t(2) unfolding run by auto
  then have "ifree (index s) \<noteq> []" by (auto simp: index_entry_alloc_def)
  then show False using ok none by (simp add: index_ok_def)
qed

text \<open>An object that fits no class changes nothing.\<close>

lemma Put_too_large:
  assumes "get_slab_class (slab_class_table s) (slot_size_of key v) = Inl st"
  shows "Put E (Suc fuel) key v s = Ret (ObjectTooLarge ''Object is too large'') s"
  using assms by (auto simp: Put_def get_slab_class_def Let_def split: if_splits)

end
