(* ===== verification/KV_Live.thy ===== *)
theory KV_Live
  imports KV_Ops
begin

text \<open>
  What is certain to return. The general results about flushing say what holds when a run
  returns; here a flush with a free disk slab and a device that accepts the write is shown to
  return, with every object kept and the memory slab free again.
\<close>

subsection \<open>Redirecting the index\<close>

lemma visit_slots_returns:
  "(\<And>i s. \<exists>s'. f i s = Ret True s') \<Longrightarrow> \<exists>s'. visit_slots f is s = Ret () s'"
proof (induction "is" arbitrary: s)
  case Nil
  then show ?case by simp
next
  case (Cons i "is")
  obtain s1 where "f i s = Ret True s1" using Cons.prems by blast
  then show ?case using Cons.IH [OF Cons.prems] by simp
qed

text \<open>A relation that every call of the callback keeps is kept by the loop.\<close>

lemma visit_slots_rel:
  assumes step: "\<And>i s go s'. f i s = Ret go s' \<Longrightarrow> R s s'"
    and refl: "\<And>s. R s s" and trans: "\<And>s t u. R s t \<Longrightarrow> R t u \<Longrightarrow> R s u"
  shows "visit_slots f is s = Ret u s' \<Longrightarrow> R s s'"
proof (induction "is" arbitrary: s)
  case Nil
  then show ?case using refl by simp
next
  case (Cons i "is")
  then obtain go s1 where "f i s = Ret go s1" "(if go then visit_slots f is s1 else Ret () s1) = Ret u s'"
    by (auto simp: seq_Ret_iff)
  then show ?case using Cons.IH [of s1] step [of i s go s1] trans [of s s1 s'] by (cases go) auto
qed

lemma modify_index_to_returns:
  assumes ev: "evp_ok (hash E)"
  shows "\<exists>s'. modify_index_to E m d s = Ret () s'"
proof -
  have "\<exists>t'. modify_slot E src d i t = Ret True t'" for src i t
    using ev by (cases t) (simp add: modify_slot_def get_index_entry_ok split: option.split)
  then obtain t' where "visit_slots (modify_slot E (slabs s ! m) d) [0..<nr_alloc (slabs s ! m)] (s, 0) = Ret () t'"
    using visit_slots_returns by meson
  then show ?thesis by (cases t') (simp add: modify_index_to_def for_each_slot_def)
qed

text \<open>Redirecting leaves the list of full slabs alone, and so does the search for a free one.\<close>

definition same_full :: "'db kv \<Rightarrow> 'db kv \<Rightarrow> bool" where
  "same_full s s' \<longleftrightarrow> dslab_full s' = dslab_full s \<and> nr_full_dslab s' = nr_full_dslab s"

lemma modify_index_to_full:
  assumes "modify_index_to E m d s = Ret u s'"
  shows "same_full s s'"
proof -
  let ?f = "modify_slot E (slabs s ! m) d"
  obtain s1 n where v: "visit_slots ?f [0..<nr_alloc (slabs s ! m)] (s, 0) = Ret () (s1, n)"
    and s': "dslab_full s' = dslab_full s1" "nr_full_dslab s' = nr_full_dslab s1"
    using assms by (cases "visit_slots ?f [0..<nr_alloc (slabs s ! m)] (s, 0)") (auto simp: modify_index_to_def for_each_slot_def)
  have "same_full (fst (s, 0 :: int)) (fst (s1, n))"
    by (rule visit_slots_rel [where R = "\<lambda>a b. same_full (fst a) (fst b)", OF _ _ _ v])
      (auto simp: modify_slot_def same_full_def split: sum.splits option.splits if_splits)
  then show ?thesis using s' by (simp add: same_full_def)
qed

lemma take_free_dslab_full: "take_free_dslab n b s = Ret r s' \<Longrightarrow> same_full s s'"
  by (induction n b s rule: take_free_dslab.induct)
    (auto simp: same_full_def Let_def seq_Ret_iff split: list.splits if_splits)

subsection \<open>Writing\<close>

definition writable :: "'db env \<Rightarrow> 'db kv \<Rightarrow> bool" where
  "writable E s \<longleftrightarrow> (\<forall>b v. 0 \<le> b \<and> b < nr_blocks (ssd s) \<and> int (length v) = block_size (ssd s) \<longrightarrow>
     Status_ok (fst (write_block (rdb E) (ssd s) b v)))"

text \<open>A raw device accepts every write of a block.\<close>

lemma dev_writable:
  assumes "geom E s" and "is_dev (ssd s)"
  shows "writable E s"
proof -
  have ok: "ssd_ok (rdb E) (ssd s)" using assms(1) by (simp add: geom_def)
  have "Status_ok (fst (write_block (rdb E) (ssd s) b v))"
    if "0 \<le> b" "b < nr_blocks (ssd s)" "int (length v) = block_size (ssd s)" for b v
    using block_offset_in_range [OF ok assms(2) that(1,2)] that(3) assms(2)
    by (simp add: write_block_def block_write_def get_block_def pwrite_full)
  then show ?thesis by (simp add: writable_def)
qed

lemma flush_mslab_returns:
  assumes g: "geom E s" and m: "m < nr_mslab s" and d: "is_dslab s d" and w: "writable E s"
  shows "\<exists>s1. flush_mslab_to_dslab E m d s = Ret () s1 \<and> index_locked s1 = index_locked s \<and> same_full s s1"
proof -
  have b: "0 \<le> block_id (slabs s ! d)" "block_id (slabs s ! d) < nr_blocks (ssd s)"
    using geom_block [OF g] d by (simp_all add: is_dslab_def)
  have "int (length (mslab_bytes s m)) = block_size (ssd s)" using length_mslab_bytes [OF g m] g by (simp add: geom_def)
  then have "Status_ok (fst (write_block (rdb E) (ssd s) (block_id (slabs s ! d)) (mslab_bytes s m)))"
    using w b by (simp add: writable_def)
  then show ?thesis by (auto simp: flush_mslab_to_dslab_def Let_def same_full_def split: prod.split)
qed

text \<open>One more full slab.\<close>

definition one_more_full :: "'db kv \<Rightarrow> 'db kv \<Rightarrow> bool" where
  "one_more_full s s' \<longleftrightarrow> length (members (dslab_full s')) = Suc (length (members (dslab_full s))) \<and> nr_full_dslab s' = nr_full_dslab s + 1"

lemma flush_to_returns:
  assumes held: "kv_held E [d] s" and m: "m \<notin># mem_lists s" "m < gc_buffer s" "cid (slabs s ! m) \<noteq> -1"
    and c: "c = slab_channel s d" and z: "nr_alloc (slabs s ! d) = 0"
    and ev: "evp_ok (hash E)" and free: "\<not> index_locked s" and w: "writable E s"
  shows "total (\<lambda>go s'. go \<and> flush_result E s s' \<and> keeps E s s' \<and> items (mslab_free s') = m # items (mslab_free s) \<and>
    one_more_full s s') (flush_to E m d c s)"
proof -
  have inv: "data_inv E s" and di: "disk_inv [d] {} s" using held by (simp_all add: kv_held_def)
  note g = data_invD(1) [OF inv] and isd = held_exclusive(3) [OF di]
  have mm: "m < nr_mslab s" using m(2) gc_buffer_mem [OF g] by simp
  have ch: "int c < nr_channels (ssd s)" using slab_channel_less [OF g isd] c by (simp add: nch_def)
  obtain s1 where s1: "flush_mslab_to_dslab E m d s = Ret () s1" "\<not> index_locked s1" "same_full s s1"
    using flush_mslab_returns [OF g mm isd w] free by auto
  have "flushed E m d s s1"
    using flush_mslab_to_dslab_safe [OF inv mm, of d] isd z s1(1) by (simp add: is_dslab_def)
  note cids = flushed_cids [OF this inv mm isd]
  obtain s3 where s3: "modify_index_to E m d (s1\<lparr>index_locked := True\<rparr>) = Ret () s3" using modify_index_to_returns [OF ev] by blast
  then have run: "flush_to E m d c s = Ret True (finish_flush m d c (unlock_index s3))"
    using s1 ch cids m(3) by (simp add: flush_to_def lock_index_def)
  have "same_full s s3" using modify_index_to_full [OF s3] s1(3) by (simp add: same_full_def)
  moreover have "mset (members (chan_add c d (dslab_full s))) = add_mset d (mset (members (dslab_full s)))"
    unfolding c by (rule chans_add(2) [OF disk_invD(2) [OF di] slab_channel_less [OF g isd]])
  then have "length (members (chan_add c d (dslab_full s))) = Suc (length (members (dslab_full s)))"
    by (metis size_add_mset size_mset)
  ultimately have "one_more_full s (finish_flush m d c (unlock_index s3))"
    by (simp add: one_more_full_def same_full_def finish_flush_def unlock_index_def Let_def)
  then show ?thesis using safe_Ret [OF flush_to_safe [OF held m c z] run] unfolding run by simp
qed

text \<open>One round of the flush thread with a free disk slab at hand.\<close>

lemma do_slab_flush_returns:
  assumes inv: "kv_inv E s" and ev: "evp_ok (hash E)" and free: "\<not> index_locked s" and w: "writable E s"
    and run: "\<not> shutdown s" and m: "items (mslab_full s) = m # ms" and fd: "0 < nr_free_dslab s"
  shows "total (\<lambda>go s'. go \<and> kv_inv E s' \<and> cache E s' = cache E s \<and> items (mslab_free s') = m # items (mslab_free s) \<and>
    one_more_full s s') (do_slab_flush E (Suc fuel) s)"
proof -
  let ?s = "s\<lparr>mslab_full := slist_del m (mslab_full s)\<rparr>"
  have mem: "m \<in> set (items (mslab_full s))" and mi: "mem_inv [] s" using m inv by (simp_all add: kv_inv_def)
  note un = kv_inv_unlist_full [OF inv mem] and mt = mem_inv_take_full [OF mi mem]
  have "0 < nr_free_dslab ?s" using fd by simp
  then obtain d c s2 where t: "take_free_dslab (nat (nr_channels (ssd ?s))) (next_mslab_flush_channel ?s) ?s = Ret (Some (d, c)) s2"
    and tk: "took (Some (d, c)) ?s s2" using take_free_dslab_finds [OF un(1)] by blast
  have find: "find_dslab E (Suc fuel) ?s = Ret (Some (d, c)) s2" using t by simp
  note f = took_found [OF un(1) tk]
  have h: "kv_held E [d] s2" "c = slab_channel s2 d" "nr_alloc (slabs s2 ! d) = 0" using f(1) by (simp_all add: found_def)
  have lm: "list_move ?s s2" using tk by (simp add: took_def)
  have "mem_lists s2 = mem_lists ?s" "gc_buffer s2 = gc_buffer s"
    using f(1) by (simp_all add: found_def mem_lists_def partials_def same_place_def gc_buffer_def)
  then have ms2: "m \<notin># mem_lists s2" "m < gc_buffer s2" using mt(2,3) by simp_all
  have c2: "cid (slabs s2 ! m) \<noteq> -1" using lm mt(4) by (simp add: list_move_data(3))
  have s2: "\<not> index_locked s2" "writable E s2" "mslab_free s2 = mslab_free s"
    using lm free w by (simp_all add: list_move_def same_data_def writable_def)
  obtain s' where r: "flush_to E m d c s2 = Ret True s'" "flush_result E s2 s'" "keeps E s2 s'" "items (mslab_free s') = m # items (mslab_free s)"
    "one_more_full s2 s'" using flush_to_returns [OF h(1) ms2 c2 h(2,3) ev s2(1,2)] s2(3) unfolding total_iff by auto
  have "one_more_full s s'" using take_free_dslab_full [OF t] r(5) by (simp add: one_more_full_def same_full_def)
  moreover have "keeps E s s'" by (rule keeps_trans [OF un(2) keeps_trans [OF f(2) r(3)]])
  ultimately show ?thesis
    using run m find r mt(4) keeps_cache [of E s s'] by (simp add: do_slab_flush_def flush_result_def)
qed

subsection \<open>Shutdown\<close>

text \<open>Once \<^verbatim>\<open>shutdown_\<close> is set, the loops of both background threads end and no wait blocks.\<close>

lemma shutdown_ends:
  assumes "shutdown s"
  shows "do_slab_flush E fuel s = Ret False s" and "do_slab_gc E s = Ret False s"
    and "enable_background_flush s \<Longrightarrow> wait_slab_flush_until_shutdown s = Ret False s"
    and "enable_background_gc s \<Longrightarrow> wait_slab_gc_until_shutdown s = Ret False s"
  using assms by (simp_all add: do_slab_flush_def do_slab_gc_def wait_slab_flush_until_shutdown_def wait_slab_gc_until_shutdown_def)

text \<open>A round of the collector ends the loop of its thread only at shutdown.\<close>

lemma collector_goes_on:
  assumes inv: "kv_inv E s" and hp: "heap_pick_ok E" and run: "do_slab_gc E s = Ret go s'"
  shows "go \<longleftrightarrow> \<not> shutdown s"
proof (cases "shutdown s")
  case True
  then show ?thesis using run shutdown_ends(2) [OF True, of E] by simp
next
  case False
  have "go" if "do_quick_gc E 1 0 s = Ret go s'"
    using do_quick_gc_safe [OF inv, of 0 1] kv_inv_ops [OF inv] that by simp
  moreover have "go" if "quick_gc E s = Ret go s'" using quick_gc_safe [OF inv] that by simp
  moreover have "go" if "normal_gc E s = Ret go s'" using normal_gc_safe [OF inv hp] that by simp
  ultimately show ?thesis
    using run False by (auto simp: do_slab_gc_def Let_def check_def split: if_splits)
qed

end
