(* ===== verification/KV_Device.thy ===== *)
theory KV_Device
  imports KV_SSD "HOL-Library.Sublist" "HOL-Library.List_Lexorder" "HOL-Library.Char_ord"
begin

text \<open>
  Making and opening a device (\<^verbatim>\<open>SSD::create\<close> and the constructors of \<^verbatim>\<open>src/ssd.cpp\<close>) and walking
  over its blocks (\<^verbatim>\<open>SSD::iterate_all_blocks\<close> of \<^verbatim>\<open>include/ssd.h\<close>). The geometry of a device in
  RocksDB is stored as decimal text under four keys, every block under its block key; opening
  reads the text back, and the walk parses the block keys an iterator yields. The state of these
  operations is what RocksDB has stored under the path.
\<close>

subsection \<open>Geometry\<close>

record config =
  cfg_nr_channels :: int
  cfg_block_size :: int
  cfg_blocks_per_channel :: int

definition kNumBlocksKey :: string where "kNumBlocksKey = ''/nr_blocks''"
definition kBlockSizeKey :: string where "kBlockSizeKey = ''/block_size''"
definition kNumChannelsKey :: string where "kNumChannelsKey = ''/nr_channels''"
definition kBlockPerChannelKey :: string where "kBlockPerChannelKey = ''/block_per_channel''"
definition kBlockPrefix :: string where "kBlockPrefix = ''/blocks''"

lemmas key_defs = kNumBlocksKey_def kBlockSizeKey_def kNumChannelsKey_def kBlockPerChannelKey_def kBlockPrefix_def

text \<open>A string of characters as the bytes RocksDB stores, and back.\<close>

definition text_bytes :: "string \<Rightarrow> bytes" where
  "text_bytes = map of_char"

definition bytes_text :: "bytes \<Rightarrow> string" where
  "bytes_text = map (\<lambda>b. char_of (unat b))"

subsection \<open>Opening\<close>

text \<open>Reading one number of the geometry: \<^verbatim>\<open>Get\<close>, then \<^verbatim>\<open>std::stoi\<close>.\<close>

definition get_int :: "'db rocksdb \<Rightarrow> 'db \<Rightarrow> string \<Rightarrow> string \<Rightarrow> string + int" where
  "get_int R d key err = (case db_get R d key of None \<Rightarrow> Inl err | Some v \<Rightarrow> stoi (bytes_text v))"

text \<open>
  \<^verbatim>\<open>SSD(path, options)\<close>: the new object, or the exception; \<open>p\<close> is what is stored under the path.
\<close>

definition SSD_open :: "'db rocksdb \<Rightarrow> string \<Rightarrow> 'db \<Rightarrow> string + 'db ssd" where
  "SSD_open R path p =
     (case db_open R path p of
        None \<Rightarrow> Inl ''open db failed''
      | Some d \<Rightarrow>
     (case get_int R d kNumBlocksKey ''get nr_blocks failed'' of Inl e \<Rightarrow> Inl e | Inr nb \<Rightarrow>
     (case get_int R d kBlockSizeKey ''get block_size failed'' of Inl e \<Rightarrow> Inl e | Inr bsz \<Rightarrow>
     (case get_int R d kNumChannelsKey ''get nr_channels failed'' of Inl e \<Rightarrow> Inl e | Inr nc \<Rightarrow>
     (case get_int R d kBlockPerChannelKey ''get blocks_per_channel failed'' of Inl e \<Rightarrow> Inl e | Inr bpc \<Rightarrow>
        Inr \<lparr>nr_channels = nc, nr_blocks = nb, block_size = bsz, blocks_per_channel = bpc,
             is_dev = False, dstart = 0, dev = [], db = d\<rparr>)))))"

text \<open>
  \<^verbatim>\<open>SSD(path)\<close>: \<open>u\<close> is the memory of the object before construction, \<open>fd\<close> the contents of the device
  file, \<open>None\<close> when \<^verbatim>\<open>open\<close> fails. On a path outside \<^verbatim>\<open>/dev/\<close> the statement
  \<^verbatim>\<open>SSD(path, default_rocksdb_options());\<close> makes and destroys another object; the members of this
  one stay as they are, apart from the default initializers.
\<close>

definition SSD_path :: "'db rocksdb \<Rightarrow> string \<Rightarrow> 'db \<Rightarrow> bytes option \<Rightarrow> 'db ssd \<Rightarrow> string + 'db ssd" where
  "SSD_path R path p fd u =
     (let u = u\<lparr>is_dev := False, dstart := 0\<rparr>
      in if prefix ''/dev/'' path then
           (case fd of None \<Rightarrow> Inl ''open dev failed'' | Some bs \<Rightarrow> Inr (u\<lparr>is_dev := True, dstart := 0, dev := bs\<rparr>))
         else (case SSD_open R path p of Inl e \<Rightarrow> Inl e | Inr _ \<Rightarrow> Inr u))"

subsection \<open>Creating\<close>

text \<open>The pairs (channel, block) of two nested loops over channels and blocks, the block counting up through both.\<close>

definition channel_blocks :: "int \<Rightarrow> int \<Rightarrow> (int \<times> int) list" where
  "channel_blocks nc bpc = [(c, c * bpc + i). c \<leftarrow> [0..nc - 1], i \<leftarrow> [0..bpc - 1]]"

primrec put_blocks :: "'db rocksdb \<Rightarrow> (int \<times> int) list \<Rightarrow> 'db \<Rightarrow> bool \<times> 'db" where
  "put_blocks R [] d = (True, d)"
| "put_blocks R (cb # cbs) d =
     (case db_put R d (block_key (fst cb) (snd cb)) [] of
        (ok, d) \<Rightarrow> if \<not> ok then (False, d) else put_blocks R cbs d)"

text \<open>The four numbers of the geometry, in the order they are written, with the message of a failure.\<close>

definition geometry :: "config \<Rightarrow> (string \<times> int \<times> string) list" where
  "geometry cfg =
     [(kBlockPerChannelKey, cfg_blocks_per_channel cfg, ''put blocks_per_channel failed''),
      (kNumBlocksKey, s32 (cfg_blocks_per_channel cfg * cfg_nr_channels cfg), ''put num_blocks failed''),
      (kBlockSizeKey, cfg_block_size cfg, ''put block_size failed''),
      (kNumChannelsKey, cfg_nr_channels cfg, ''put nr_channels failed'')]"

primrec put_geometry :: "'db rocksdb \<Rightarrow> (string \<times> int \<times> string) list \<Rightarrow> 'db \<Rightarrow> Status \<times> 'db" where
  "put_geometry R [] d = (OK, d)"
| "put_geometry R (g # gs) d =
     (case db_put R d (fst g) (text_bytes (to_string (fst (snd g)))) of
        (ok, d) \<Rightarrow> if \<not> ok then (Corruption (snd (snd g)), d) else put_geometry R gs d)"

text \<open>\<^verbatim>\<open>SSD::create\<close>: the status and the new object, if it is set; the state is what the path holds.\<close>

definition SSD_create :: "'db rocksdb \<Rightarrow> string \<Rightarrow> bytes option \<Rightarrow> 'db ssd \<Rightarrow> config \<Rightarrow> 'db \<Rightarrow> (Status \<times> 'db ssd option, 'db) outcome" where
  "SSD_create R path fd u cfg p =
     (if \<not> prefix ''/dev/'' path then
        (case db_open R path p of
           None \<Rightarrow> Ret (Corruption ''open db failed'', None) p
         | Some d \<Rightarrow>
             (case put_geometry R (geometry cfg) d of (st, d) \<Rightarrow>
              if \<not> Status_ok st then Ret (st, None) d
              else (case put_blocks R (channel_blocks (cfg_nr_channels cfg) (cfg_blocks_per_channel cfg)) d of (ok, d) \<Rightarrow>
                    if \<not> ok then Ret (Corruption ''put block_key failed'', None) d
                    else (case SSD_open R path d of
                            Inl e \<Rightarrow> Exc e d | Inr ssd \<Rightarrow> Ret (OK, Some ssd) (db ssd)))))
      else
        (case SSD_path R path p fd u of
           Inl e \<Rightarrow> Exc e p
         | Inr ssd \<Rightarrow>
             Ret (OK, Some (ssd\<lparr>nr_blocks := s32 (cfg_blocks_per_channel cfg * cfg_nr_channels cfg),
               block_size := cfg_block_size cfg, blocks_per_channel := cfg_blocks_per_channel cfg,
               nr_channels := cfg_nr_channels cfg\<rparr>)) p))"

subsection \<open>Walking over the blocks\<close>

text \<open>
  The body of the loop on one key \<^verbatim>\<open>/blocks/<channel>/<block>\<close>: \<open>None\<close> when there is no second
  separator and the loop goes on, otherwise the block or the exception of \<^verbatim>\<open>std::stoi\<close>.
\<close>

definition parse_block_key :: "string \<Rightarrow> (string + int) option" where
  "parse_block_key key =
     (let rest = drop 8 key; tail = dropWhile (\<lambda>c. c \<noteq> CHR ''/'') rest
      in if tail = [] then None
         else case stoi (takeWhile (\<lambda>c. c \<noteq> CHR ''/'') rest) of
                Inl e \<Rightarrow> Some (Inl e) | Inr _ \<Rightarrow> Some (stoi (tl tail)))"

primrec visit_keys :: "(int \<Rightarrow> 's \<Rightarrow> (unit, 's) outcome) \<Rightarrow> string list \<Rightarrow> 's \<Rightarrow> (unit, 's) outcome" where
  "visit_keys func [] s = Ret () s"
| "visit_keys func (k # ks) s =
     (if \<not> prefix kBlockPrefix k then Ret () s
      else case parse_block_key k of
             None \<Rightarrow> visit_keys func ks s
           | Some (Inl e) \<Rightarrow> Exc e s
           | Some (Inr b) \<Rightarrow> seq (func b s) (\<lambda>_ s. visit_keys func ks s))"

primrec for_each :: "('b \<Rightarrow> 's \<Rightarrow> (unit, 's) outcome) \<Rightarrow> 'b list \<Rightarrow> 's \<Rightarrow> (unit, 's) outcome" where
  "for_each func [] s = Ret () s"
| "for_each func (b # bs) s = seq (func b s) (\<lambda>_ s. for_each func bs s)"

definition iterate_all_blocks :: "'db rocksdb \<Rightarrow> 'db ssd \<Rightarrow> (block \<Rightarrow> 's \<Rightarrow> (unit, 's) outcome) \<Rightarrow> 's \<Rightarrow> (unit, 's) outcome" where
  "iterate_all_blocks R ssd func s =
     (if is_dev ssd then
        for_each (\<lambda>cb. func (get_block ssd (snd cb))) (channel_blocks (nr_channels ssd) (blocks_per_channel ssd)) s
      else visit_keys (\<lambda>b. func (get_block ssd b)) (db_seek R (db ssd) kBlockPrefix) s)"

subsection \<open>What the code relies on\<close>

text \<open>
  Besides \<open>rocksdb_laws\<close>: opening a path gives what is stored there, and an iterator yields, in
  bytewise order and once each, the stored keys from the sought one on.
\<close>

definition rocksdb_store_laws :: "'db rocksdb \<Rightarrow> bool" where
  "rocksdb_store_laws R \<longleftrightarrow> rocksdb_laws R \<and>
     (\<forall>path p d. db_open R path p = Some d \<longrightarrow> db_get R d = db_get R p) \<and>
     (\<forall>d k. sorted (db_seek R d k) \<and> distinct (db_seek R d k) \<and>
        set (db_seek R d k) = {k'. k \<le> k' \<and> db_get R d k' \<noteq> None})"

subsection \<open>Text\<close>

lemma bytes_text_bytes [simp]: "bytes_text (text_bytes s) = s"
proof -
  have "char_of (unat (of_char c :: byte)) = c" for c
  proof -
    have "unat (of_char c :: byte) = of_char c"
      unfolding of_nat_of_char [symmetric, where ?'a = byte] by (simp add: unat_of_nat)
    then show ?thesis by simp
  qed
  then show ?thesis by (simp add: bytes_text_def text_bytes_def comp_def)
qed

lemma parse_block_key_block_key:
  assumes "0 \<le> c" "c < 2 ^ 31" "0 \<le> b" "b < 2 ^ 31"
  shows "parse_block_key (block_key c b) = Some (Inr b)"
proof -
  have d: "drop 8 (block_key c b) = to_string c @ CHR ''/'' # to_string b" by (simp add: block_key_def)
  have n: "x \<noteq> CHR ''/''" if "x \<in> set (to_string c)" for x using that slash_notin_to_string by metis
  have t: "takeWhile (\<lambda>c. c \<noteq> CHR ''/'') (to_string c @ CHR ''/'' # to_string b) = to_string c"
    "dropWhile (\<lambda>c. c \<noteq> CHR ''/'') (to_string c @ CHR ''/'' # to_string b) = CHR ''/'' # to_string b"
    using n by (simp_all add: takeWhile_append2 dropWhile_append2)
  show ?thesis using assms stoi_to_string [of c] stoi_to_string [of b] by (simp add: parse_block_key_def Let_def d t)
qed

subsection \<open>The blocks of a device\<close>

lemma upto_shift: "map (\<lambda>i. n + i) [0..m - 1] = [n..n + m - 1]" for n m :: int
  by (rule nth_equalityI) (simp_all add: nth_upto)

lemma channel_blocks_snd:
  assumes "0 \<le> bpc"
  shows "map snd (channel_blocks (int n) bpc) = [0..int n * bpc - 1]"
proof (induction n)
  case 0
  then show ?case by (simp add: channel_blocks_def)
next
  case (Suc n)
  have u: "[0..int (Suc n) - 1] = [0..int n - 1] @ [int n]" using upto_rec2 [of 0 "int n"] by simp
  have "map snd (channel_blocks (int (Suc n)) bpc) = map snd (channel_blocks (int n) bpc) @ map (\<lambda>i. int n * bpc + i) [0..bpc - 1]"
    unfolding channel_blocks_def u by (simp add: comp_def)
  also have "\<dots> = [0..int n * bpc - 1] @ [int n * bpc..int n * bpc + bpc - 1]" unfolding Suc upto_shift ..
  also have "\<dots> = [0..int (Suc n) * bpc - 1]"
    using upto_split1 [of 0 "int n * bpc" "int n * bpc + bpc - 1"] assms by (cases "bpc = 0") (simp_all add: algebra_simps)
  finally show ?case .
qed

lemma channel_blocks_channel:
  assumes "(c, b) \<in> set (channel_blocks nc bpc)"
  shows "c = b div bpc" and "0 \<le> c" "c < nc" "0 \<le> b" "b < nc * bpc"
proof -
  obtain i where i: "0 \<le> c" "c < nc" "0 \<le> i" "i < bpc" "b = c * bpc + i"
    using assms by (auto simp: channel_blocks_def)
  then show "c = b div bpc" "0 \<le> c" "c < nc" "0 \<le> b" by simp_all
  have "(c + 1) * bpc \<le> nc * bpc" using i by (intro mult_right_mono) auto
  then show "b < nc * bpc" using i by (simp add: distrib_right)
qed

text \<open>\<open>bs\<close> are the numbers of the blocks in the order the walk visits them, each block once.\<close>

definition walk_ok :: "'db rocksdb \<Rightarrow> 'db ssd \<Rightarrow> int list \<Rightarrow> bool" where
  "walk_ok R ssd bs \<longleftrightarrow> distinct bs \<and> set bs = {0..<nr_blocks ssd} \<and>
     (if is_dev ssd then map snd (channel_blocks (nr_channels ssd) (blocks_per_channel ssd)) = bs
      else takeWhile (prefix kBlockPrefix) (db_seek R (db ssd) kBlockPrefix) =
        map (\<lambda>b. block_key (b div blocks_per_channel ssd) b) bs)"

lemma for_each_map: "for_each func (map f bs) s = for_each (\<lambda>b. func (f b)) bs s"
  by (induction bs arbitrary: s) simp_all

lemma visit_keys_blocks:
  assumes "\<And>b. b \<in> set bs \<Longrightarrow> prefix kBlockPrefix (f b) \<and> parse_block_key (f b) = Some (Inr b)"
    and "takeWhile (prefix kBlockPrefix) ks = map f bs"
  shows "visit_keys func ks s = for_each func bs s"
  using assms
proof (induction ks arbitrary: bs s)
  case Nil
  then show ?case by simp
next
  case (Cons k ks)
  show ?case
  proof (cases bs)
    case Nil
    then show ?thesis using Cons.prems by (auto split: if_splits)
  next
    case (Cons b bs')
    then have k: "prefix kBlockPrefix k" "k = f b" "takeWhile (prefix kBlockPrefix) ks = map f bs'"
      using Cons.prems(2) by (auto split: if_splits)
    have "visit_keys func ks = for_each func bs'"
      by (rule ext, rule Cons.IH [OF _ k(3)]) (use Cons.prems(1) Cons in auto)
    then show ?thesis using Cons.prems(1) [of b] Cons k by simp
  qed
qed

lemma iterate_walk:
  assumes ok: "ssd_ok R ssd" and w: "walk_ok R ssd bs" and nb: "nr_blocks ssd < 2 ^ 31"
  shows "iterate_all_blocks R ssd func s = for_each (\<lambda>b. func (get_block ssd b)) bs s"
proof (cases "is_dev ssd")
  case True
  then have "bs = map snd (channel_blocks (nr_channels ssd) (blocks_per_channel ssd))" using w by (simp add: walk_ok_def)
  with True show ?thesis by (simp add: iterate_all_blocks_def for_each_map)
next
  case False
  let ?f = "\<lambda>b. block_key (b div blocks_per_channel ssd) b"
  have pos: "0 < blocks_per_channel ssd" using ok by (simp add: ssd_ok_def)
  have "prefix kBlockPrefix (?f b) \<and> parse_block_key (?f b) = Some (Inr b)" if b: "b \<in> set bs" for b
  proof -
    have b: "0 \<le> b" "b < 2 ^ 31" using w nb b by (auto simp: walk_ok_def)
    then have "0 \<le> b div blocks_per_channel ssd" "b div blocks_per_channel ssd < 2 ^ 31"
      using pos zdiv_mono2 [of b 1 "blocks_per_channel ssd"] by (simp_all add: pos_imp_zdiv_nonneg_iff)
    then show ?thesis using b by (simp add: parse_block_key_block_key) (simp add: block_key_def kBlockPrefix_def)
  qed
  moreover have "takeWhile (prefix kBlockPrefix) (db_seek R (db ssd) kBlockPrefix) = map ?f bs"
    using w False by (simp add: walk_ok_def)
  ultimately show ?thesis using visit_keys_blocks [of bs ?f] False by (simp add: iterate_all_blocks_def)
qed

subsection \<open>Creating and opening a device\<close>

lemma put_blocks_get:
  assumes R: "rocksdb_laws R" and "put_blocks R cbs d = (True, d')"
  shows "db_get R d' k = (if k \<in> (\<lambda>cb. block_key (fst cb) (snd cb)) ` set cbs then Some [] else db_get R d k)"
  using assms(2)
proof (induction cbs arbitrary: d)
  case Nil
  then show ?case by simp
next
  case (Cons cb cbs)
  let ?k = "block_key (fst cb) (snd cb)"
  obtain d1 where d1: "db_put R d ?k [] = (True, d1)" "put_blocks R cbs d1 = (True, d')"
    using Cons.prems by (auto split: prod.splits if_splits)
  have "db_get R d1 ?k = Some []" "k \<noteq> ?k \<Longrightarrow> db_get R d1 k = db_get R d k"
    using R d1(1) unfolding rocksdb_laws_def by blast+
  then show ?case using Cons.IH [OF d1(2)] by auto
qed

lemma put_geometry_get:
  assumes R: "rocksdb_laws R" and "put_geometry R gs d = (st, d')" and "Status_ok st" and "distinct (map fst gs)"
  shows "db_get R d' k = (case map_of (map (\<lambda>g. (fst g, fst (snd g))) gs) k of
     Some n \<Rightarrow> Some (text_bytes (to_string n)) | None \<Rightarrow> db_get R d k)"
  using assms(2-)
proof (induction gs arbitrary: d)
  case Nil
  then show ?case by simp
next
  case (Cons g gs)
  let ?v = "text_bytes (to_string (fst (snd g)))"
  obtain d1 where d1: "db_put R d (fst g) ?v = (True, d1)" "put_geometry R gs d1 = (st, d')"
    using Cons.prems by (auto simp: Status_ok_def Corruption_def split: prod.splits if_splits)
  have g: "db_get R d1 (fst g) = Some ?v" "k \<noteq> fst g \<Longrightarrow> db_get R d1 k = db_get R d k"
    using R d1(1) unfolding rocksdb_laws_def by blast+
  have ih: "db_get R d' k = (case map_of (map (\<lambda>g. (fst g, fst (snd g))) gs) k of
     Some n \<Rightarrow> Some (text_bytes (to_string n)) | None \<Rightarrow> db_get R d1 k)"
    using Cons.IH [OF d1(2)] Cons.prems by simp
  show ?case
  proof (cases "k = fst g")
    case True
    then have "map_of (map (\<lambda>g. (fst g, fst (snd g))) gs) k = None"
      using Cons.prems(3) by (simp add: map_of_eq_None_iff image_image)
    then show ?thesis using ih g True by simp
  next
    case False
    then show ?thesis using ih g by (simp split: option.split)
  qed
qed

text \<open>In bytewise order the keys with a common prefix are neighbours.\<close>

lemma prefix_between: "P \<le> x \<Longrightarrow> x \<le> y \<Longrightarrow> prefix P y \<Longrightarrow> prefix P x" for P x y :: string
proof (induction P arbitrary: x y)
  case Nil
  then show ?case by simp
next
  case (Cons c P)
  obtain x' where x: "x = c # x'" and "P \<le> x'"
    using Cons.prems by (cases x; cases y) auto
  obtain y' where y: "y = c # y'" and "x' \<le> y'" "prefix P y'" using Cons.prems x by (cases y) auto
  from Cons.IH [OF \<open>P \<le> x'\<close> this(2,3)] show ?case by (simp add: x)
qed

lemma prefix_le: "prefix P x \<Longrightarrow> P \<le> x" for P x :: string
proof (induction P arbitrary: x)
  case (Cons c P)
  then show ?case by (cases x) auto
qed simp

lemma takeWhile_sorted:
  assumes "sorted ks" and "\<And>x y. x \<in> set ks \<Longrightarrow> x \<le> y \<Longrightarrow> Q y \<Longrightarrow> Q x"
  shows "takeWhile Q ks = filter Q ks"
  using assms
proof (induction ks)
  case Nil
  then show ?case by simp
next
  case (Cons k ks)
  show ?case
  proof (cases "Q k")
    case True
    then show ?thesis using Cons by simp
  next
    case False
    have "\<not> Q x" if "x \<in> set ks" for x using Cons.prems(1) Cons.prems(2) [of k x] False that by auto
    then show ?thesis using False by simp
  qed
qed

lemma walk_exists:
  assumes R: "rocksdb_store_laws R" and ok: "ssd_ok R ssd" and nd: "\<not> is_dev ssd" and nb: "nr_blocks ssd < 2 ^ 31"
    and keys: "\<And>k. prefix kBlockPrefix k \<Longrightarrow> db_get R (db ssd) k \<noteq> None \<longleftrightarrow>
      k \<in> (\<lambda>b. block_key (b div blocks_per_channel ssd) b) ` {0..<nr_blocks ssd}"
  shows "\<exists>bs. walk_ok R ssd bs"
proof -
  let ?f = "\<lambda>b. block_key (b div blocks_per_channel ssd) b" and ?ks = "db_seek R (db ssd) kBlockPrefix"
  have ks: "sorted ?ks" "distinct ?ks" "set ?ks = {k'. kBlockPrefix \<le> k' \<and> db_get R (db ssd) k' \<noteq> None}"
    using R unfolding rocksdb_store_laws_def by blast+
  have tw: "takeWhile (prefix kBlockPrefix) ?ks = filter (prefix kBlockPrefix) ?ks"
    by (rule takeWhile_sorted [OF ks(1)]) (use ks(3) prefix_between in blast)
  have pf: "prefix kBlockPrefix (?f b)" for b by (simp add: block_key_def kBlockPrefix_def)
  have img: "set (filter (prefix kBlockPrefix) ?ks) = ?f ` {0..<nr_blocks ssd}"
  proof
    show "set (filter (prefix kBlockPrefix) ?ks) \<subseteq> ?f ` {0..<nr_blocks ssd}" using keys ks(3) by auto
    show "?f ` {0..<nr_blocks ssd} \<subseteq> set (filter (prefix kBlockPrefix) ?ks)"
    proof
      fix k assume k: "k \<in> ?f ` {0..<nr_blocks ssd}"
      then have "prefix kBlockPrefix k" using pf by blast
      then show "k \<in> set (filter (prefix kBlockPrefix) ?ks)" using keys [of k] k ks(3) prefix_le by simp
    qed
  qed
  have inj: "inj_on ?f A" for A by (auto simp: inj_on_def block_key_inj)
  define bs where "bs = map (inv_into {0..<nr_blocks ssd} ?f) (filter (prefix kBlockPrefix) ?ks)"
  have "map ?f bs = filter (prefix kBlockPrefix) ?ks"
    unfolding bs_def map_map by (rule map_idI) (simp only: comp_def, rule f_inv_into_f, simp only: img [symmetric])
  moreover have "set bs = {0..<nr_blocks ssd}"
    unfolding bs_def set_map img using inj by (simp add: inv_into_image_cancel)
  moreover have "distinct bs"
    unfolding bs_def distinct_map using ks(2) inj_on_inv_into [of "set (filter (prefix kBlockPrefix) ?ks)" ?f] img by simp
  ultimately show ?thesis using nd tw unfolding walk_ok_def by metis
qed

definition cfg_ok :: "config \<Rightarrow> bool" where
  "cfg_ok cfg \<longleftrightarrow> 0 < cfg_nr_channels cfg \<and> 0 < cfg_block_size cfg \<and> 0 < cfg_blocks_per_channel cfg \<and>
     cfg_nr_channels cfg < 2 ^ 31 \<and> cfg_block_size cfg < 2 ^ 31 \<and> cfg_blocks_per_channel cfg < 2 ^ 31 \<and>
     cfg_blocks_per_channel cfg * cfg_nr_channels cfg < 2 ^ 31"

definition has_geometry :: "config \<Rightarrow> 'db ssd \<Rightarrow> bool" where
  "has_geometry cfg ssd \<longleftrightarrow> nr_channels ssd = cfg_nr_channels cfg \<and> block_size ssd = cfg_block_size cfg \<and>
     blocks_per_channel ssd = cfg_blocks_per_channel cfg \<and>
     nr_blocks ssd = cfg_blocks_per_channel cfg * cfg_nr_channels cfg"

lemma cfg_ok_blocks: "cfg_ok cfg \<Longrightarrow> s32 (cfg_blocks_per_channel cfg * cfg_nr_channels cfg) = cfg_blocks_per_channel cfg * cfg_nr_channels cfg"
  by (intro s32_id) (auto simp: cfg_ok_def intro: order_trans [of _ 0])

text \<open>Opening reads back the geometry that was written.\<close>

lemma SSD_open_geometry:
  assumes R: "rocksdb_store_laws R" and c: "cfg_ok cfg" and open_ok: "db_open R path p = Some d"
    and g: "\<And>k n. map_of (map (\<lambda>g. (fst g, fst (snd g))) (geometry cfg)) k = Some n \<Longrightarrow> db_get R p k = Some (text_bytes (to_string n))"
  shows "\<exists>ssd. SSD_open R path p = Inr ssd \<and> has_geometry cfg ssd \<and> db ssd = d \<and> \<not> is_dev ssd \<and> db_get R d = db_get R p"
proof -
  have eq: "db_get R d = db_get R p" using R open_ok unfolding rocksdb_store_laws_def by blast
  have gi: "get_int R d k e = Inr n"
    if "map_of (map (\<lambda>g. (fst g, fst (snd g))) (geometry cfg)) k = Some n" "- (2 ^ 31) \<le> n" "n < 2 ^ 31" for k e n
    using g [OF that(1)] stoi_to_string [OF that(2,3)] by (simp add: get_int_def eq)
  have "get_int R d kNumBlocksKey e = Inr (cfg_blocks_per_channel cfg * cfg_nr_channels cfg)" for e
    using c cfg_ok_blocks [OF c] by (intro gi) (auto simp: geometry_def key_defs cfg_ok_def intro: order_trans [of _ 0])
  moreover have "get_int R d kBlockSizeKey e = Inr (cfg_block_size cfg)" "get_int R d kNumChannelsKey e = Inr (cfg_nr_channels cfg)"
    "get_int R d kBlockPerChannelKey e = Inr (cfg_blocks_per_channel cfg)" for e
    using c by (intro gi; simp add: geometry_def key_defs cfg_ok_def)+
  ultimately show ?thesis using open_ok eq by (simp add: SSD_open_def has_geometry_def)
qed

lemma geometry_no_block:
  "map_of (map (\<lambda>g. (fst g, fst (snd g))) (geometry cfg)) k = Some n \<Longrightarrow> \<not> prefix kBlockPrefix k"
  by (auto simp: geometry_def key_defs split: if_splits)

lemma kept_geometry:
  assumes laws: "rocksdb_laws R" and d1: "put_geometry R (geometry cfg) d0 = (st, d1)" "Status_ok st"
    and d2: "put_blocks R cbs d1 = (True, d2)"
  shows "map_of (map (\<lambda>g. (fst g, fst (snd g))) (geometry cfg)) k = Some n \<Longrightarrow> db_get R d2 k = Some (text_bytes (to_string n))"
    and "db_get R d1 k = (case map_of (map (\<lambda>g. (fst g, fst (snd g))) (geometry cfg)) k of
     Some n \<Rightarrow> Some (text_bytes (to_string n)) | None \<Rightarrow> db_get R d0 k)"
proof -
  have dist: "distinct (map fst (geometry cfg))" by (simp add: geometry_def key_defs)
  have nb: "prefix kBlockPrefix (block_key x y)" for x y by (simp add: block_key_def kBlockPrefix_def)
  show g1: "db_get R d1 k = (case map_of (map (\<lambda>g. (fst g, fst (snd g))) (geometry cfg)) k of
     Some n \<Rightarrow> Some (text_bytes (to_string n)) | None \<Rightarrow> db_get R d0 k)"
    by (rule put_geometry_get [OF laws d1 dist])
  show "db_get R d2 k = Some (text_bytes (to_string n))" if m: "map_of (map (\<lambda>g. (fst g, fst (snd g))) (geometry cfg)) k = Some n"
    using put_blocks_get [OF laws d2, of k] g1 m geometry_no_block [OF m] nb by auto
qed

text \<open>
  A device made in an empty database has the geometry asked for, and the walk visits each of its
  blocks once.
\<close>

lemma create_db:
  assumes R: "rocksdb_store_laws R" and c: "cfg_ok cfg" and path: "\<not> prefix ''/dev/'' path"
    and fresh: "\<And>k. prefix kBlockPrefix k \<Longrightarrow> db_get R p k = None"
    and run: "SSD_create R path fd u cfg p = Ret (OK, Some ssd) p'"
  shows "ssd_ok R ssd \<and> has_geometry cfg ssd \<and> (\<exists>bs. walk_ok R ssd bs)"
proof -
  let ?bpc = "cfg_blocks_per_channel cfg" and ?nc = "cfg_nr_channels cfg"
  have laws: "rocksdb_laws R" using R by (simp add: rocksdb_store_laws_def)
  obtain d0 st d1 d2 where d0: "db_open R path p = Some d0" and d1: "put_geometry R (geometry cfg) d0 = (st, d1)" "Status_ok st"
    and d2: "put_blocks R (channel_blocks ?nc ?bpc) d1 = (True, d2)" and op: "SSD_open R path d2 = Inr ssd"
    using run path by (auto simp: SSD_create_def split: option.splits prod.splits if_splits sum.splits)
  note kg = kept_geometry [OF laws d1 d2]
  note g1 = kg(2) and g2 = put_blocks_get [OF laws d2]
  note np = geometry_no_block
  obtain d where od: "db_open R path d2 = Some d" using op by (auto simp: SSD_open_def split: option.splits)
  have s: "has_geometry cfg ssd" "\<not> is_dev ssd" "db_get R (db ssd) = db_get R d2"
    using SSD_open_geometry [OF R c od kg(1)] op by auto
  have ok: "ssd_ok R ssd" using s c laws by (simp add: ssd_ok_def has_geometry_def cfg_ok_def)
  have eq0: "db_get R d0 = db_get R p" using R d0 unfolding rocksdb_store_laws_def by blast
  have prs: "(\<lambda>cb. block_key (fst cb) (snd cb)) ` set (channel_blocks ?nc ?bpc) = (\<lambda>b. block_key (b div ?bpc) b) ` {0..<?bpc * ?nc}"
  proof -
    have "(\<lambda>cb. block_key (fst cb) (snd cb)) ` set (channel_blocks ?nc ?bpc) = (\<lambda>b. block_key (b div ?bpc) b) ` snd ` set (channel_blocks ?nc ?bpc)"
      unfolding image_image by (rule image_cong) (use channel_blocks_channel(1) [of _ _ ?nc ?bpc] in auto)
    also have "snd ` set (channel_blocks ?nc ?bpc) = {0..<?bpc * ?nc}"
      using channel_blocks_snd [of ?bpc "nat ?nc"] c unfolding set_map [symmetric] by (auto simp: cfg_ok_def mult.commute)
    finally show ?thesis .
  qed
  have "db_get R (db ssd) k \<noteq> None \<longleftrightarrow> k \<in> (\<lambda>b. block_key (b div blocks_per_channel ssd) b) ` {0..<nr_blocks ssd}"
    if k: "prefix kBlockPrefix k" for k
  proof -
    have "map_of (map (\<lambda>g. (fst g, fst (snd g))) (geometry cfg)) k = None" using np k by (cases "map_of (map (\<lambda>g. (fst g, fst (snd g))) (geometry cfg)) k") blast+
    then have "db_get R d1 k = None" using g1 [of k] eq0 fresh [OF k] by simp
    then show ?thesis using g2 [of k] s by (simp add: prs has_geometry_def)
  qed
  then have "\<exists>bs. walk_ok R ssd bs"
    using c s by (intro walk_exists [OF R ok s(2)]) (simp_all add: has_geometry_def cfg_ok_def)
  then show ?thesis using ok s by simp
qed

lemma create_dev:
  assumes c: "cfg_ok cfg" and path: "prefix ''/dev/'' path" and run: "SSD_create R path (Some bs) u cfg p = Ret (OK, Some ssd) p'"
    and len: "cfg_blocks_per_channel cfg * cfg_nr_channels cfg * cfg_block_size cfg \<le> min (2 ^ 31) (int (length bs))"
  shows "ssd_ok R ssd \<and> has_geometry cfg ssd \<and> walk_ok R ssd [0..nr_blocks ssd - 1]"
proof -
  have s: "has_geometry cfg ssd" "is_dev ssd" "dev ssd = bs" "dstart ssd = 0"
    using run path cfg_ok_blocks [OF c] by (auto simp: SSD_create_def SSD_path_def has_geometry_def)
  have "map snd (channel_blocks (nr_channels ssd) (blocks_per_channel ssd)) = [0..nr_blocks ssd - 1]"
    using channel_blocks_snd [of "blocks_per_channel ssd" "nat (nr_channels ssd)"] s c
    by (simp add: has_geometry_def cfg_ok_def mult.commute)
  then show ?thesis using s c len by (auto simp: ssd_ok_def walk_ok_def has_geometry_def cfg_ok_def)
qed

text \<open>When RocksDB accepts every write, making a device succeeds.\<close>

lemma put_geometry_ok:
  "(\<And>d k v. fst (db_put R d k v)) \<Longrightarrow> \<exists>d'. put_geometry R gs d = (OK, d')"
proof (induction gs arbitrary: d)
  case (Cons g gs)
  then show ?case
    using Cons.prems [of d "fst g" "text_bytes (to_string (fst (snd g)))"]
    by (cases "db_put R d (fst g) (text_bytes (to_string (fst (snd g))))") simp
qed simp

lemma put_blocks_ok:
  "(\<And>d k v. fst (db_put R d k v)) \<Longrightarrow> \<exists>d'. put_blocks R cbs d = (True, d')"
proof (induction cbs arbitrary: d)
  case (Cons cb cbs)
  then show ?case
    using Cons.prems [of d "block_key (fst cb) (snd cb)" "[]"]
    by (cases "db_put R d (block_key (fst cb) (snd cb)) []") simp
qed simp

lemma create_db_returns:
  assumes R: "rocksdb_store_laws R" and c: "cfg_ok cfg" and path: "\<not> prefix ''/dev/'' path"
    and "\<And>q. db_open R path q \<noteq> None" and puts: "\<And>d k v. fst (db_put R d k v)"
  shows "\<exists>ssd p'. SSD_create R path fd u cfg p = Ret (OK, Some ssd) p'"
proof -
  have laws: "rocksdb_laws R" using R by (simp add: rocksdb_store_laws_def)
  obtain d0 where d0: "db_open R path p = Some d0" using assms(4) by blast
  obtain d1 where d1: "put_geometry R (geometry cfg) d0 = (OK, d1)" using put_geometry_ok [OF puts] by blast
  obtain d2 where d2: "put_blocks R (channel_blocks (cfg_nr_channels cfg) (cfg_blocks_per_channel cfg)) d1 = (True, d2)"
    using put_blocks_ok [OF puts] by blast
  obtain d where od: "db_open R path d2 = Some d" using assms(4) by blast
  have st: "Status_ok OK" by (simp add: Status_ok_def OK_def)
  obtain ssd where "SSD_open R path d2 = Inr ssd"
    using SSD_open_geometry [OF R c od kept_geometry(1) [OF laws d1 st d2]] by blast
  then show ?thesis using path d0 d1 d2 st by (simp add: SSD_create_def)
qed

text \<open>
  On a path outside \<^verbatim>\<open>/dev/\<close> the constructor \<^verbatim>\<open>SSD(path)\<close> leaves the geometry of the new object as it
  found it in memory.
\<close>

lemma SSD_path_uninitialized:
  assumes "\<not> prefix ''/dev/'' path" and "SSD_path R path p fd u = Inr ssd"
  shows "ssd = u\<lparr>is_dev := False, dstart := 0\<rparr>"
  using assms by (auto simp: SSD_path_def Let_def split: sum.splits)

end
