(* ===== verification/KV_Init.thy ===== *)
theory KV_Init
  imports KV_Ops KV_Device
begin

text \<open>
  Building a cache (\<^verbatim>\<open>KVCache::KVCache\<close>, \<^verbatim>\<open>slab_init\<close>, \<^verbatim>\<open>slab_class_init\<close>, \<^verbatim>\<open>index_init\<close>,
  \<^verbatim>\<open>DefaultOptions\<close>) and destroying it. What the operating system provides (the environment
  variables and the results of \<^verbatim>\<open>mmap\<close>) is a parameter. Shown here: a constructor that gets its
  memory and sensible options returns, passes every assertion, and establishes the invariant of
  an empty cache. A negative memory budget for slabs, for which the source computes a negative
  number of slabs, is outside the model.
\<close>

subsection \<open>Options\<close>

record options =
  slab_mem_budget :: int
  index_mem_budget :: int
  index_table_size :: int
  ops_rate :: fval
  opt_water_mark_low :: fval
  opt_water_mark_high :: fval
  opt_water_mark_low_min :: fval
  opt_water_mark_high_max :: fval
  opt_background_flush :: bool
  opt_background_gc :: bool
  slab_class_size :: "int list"
  nr_slab_class :: nat

definition kMaxNumSlabClass :: nat where "kMaxNumSlabClass = 50"
definition KB :: int where "KB = 1024"
definition MB :: int where "MB = 1024 * 1024"
definition GB :: int where "GB = 1024 * MB"

definition DefaultOptions :: "'db ssd \<Rightarrow> options" where
  "DefaultOptions d =
     (let sizes = default_slab_class_size (block_size d) 32 kMaxNumSlabClass
      in \<lparr>slab_mem_budget = 1 * GB, index_mem_budget = 100 * MB, index_table_size = 512 * KB,
          ops_rate = f_0_2, opt_water_mark_low = f_0_07, opt_water_mark_high = f_0_8,
          opt_water_mark_low_min = f_0_02, opt_water_mark_high_max = f_0_9,
          opt_background_flush = True, opt_background_gc = True,
          slab_class_size = sizes, nr_slab_class = length sizes\<rparr>)"

definition class_sizes :: "options \<Rightarrow> nat list" where
  "class_sizes opt = map nat (take (nr_slab_class opt) (slab_class_size opt))"

subsection \<open>The host\<close>

text \<open>
  \<^verbatim>\<open>getenv\<close>; the address \<^verbatim>\<open>mmap\<close> returns for the slabs, given the size, or \<open>None\<close> for \<^verbatim>\<open>MAP_FAILED\<close>;
  whether the mapping of the index succeeds. Anonymous mappings are filled with zeros.
\<close>

record host =
  env_var :: "string \<Rightarrow> string option"
  mmap_slabs :: "nat \<Rightarrow> nat option"
  mmap_index :: "nat \<Rightarrow> bool"

text \<open>\<^verbatim>\<open>std::atoi\<close>: 0 without a digit; its result for a number that does not fit is left open by the standard.\<close>

definition atoi :: "string \<Rightarrow> int" where
  "atoi s =
     (let t = dropWhile is_space s;
          neg = (t \<noteq> [] \<and> hd t = CHR ''-'');
          u = (if t \<noteq> [] \<and> (hd t = CHR ''-'' \<or> hd t = CHR ''+'') then tl t else t);
          v = int (digits_value (takeWhile is_digit u))
      in if neg then - v else v)"

definition env_flag :: "string option \<Rightarrow> bool \<Rightarrow> bool" where
  "env_flag var b = (case var of None \<Rightarrow> b | Some v \<Rightarrow> atoi v \<noteq> 0)"

subsection \<open>Slabs\<close>

text \<open>\<^verbatim>\<open>sizeof(Slab)\<close> and \<^verbatim>\<open>sizeof(IndexEntry)\<close>: with the padding the alignment of their pointers asks for.\<close>

definition sizeof_slab :: nat where "sizeof_slab = 48"
definition sizeof_index_entry :: nat where "sizeof_index_entry = 48"

text \<open>Zeroed memory read as a slab with \<open>n\<close> bytes of data.\<close>

definition zero_slab :: "nat \<Rightarrow> slab" where
  "zero_slab n = \<lparr>sid = 0, cid = 0, nr_alloc = 0, slot_size = 0, nr_slots = 0, nr_used = 0, block_id = 0, data = replicate n 0\<rparr>"

text \<open>The comparison \<^verbatim>\<open>i < (nr_mslab_ - 1)\<close> is one of \<^verbatim>\<open>size_t\<close>.\<close>

definition init_slab :: "nat \<Rightarrow> 'db kv \<Rightarrow> (unit, 'db kv) outcome" where
  "init_slab i s =
     seq (slab_by_sid i s) (\<lambda>_ s.
     let s = upd_slab i (\<lambda>sl. (slab_reset sl)\<lparr>block_id := -1, sid := i\<rparr>) s
     in if int i < (int (nr_mslab s) - 1) mod 2 ^ 64 then Ret () (s\<lparr>mslab_free := slist_add i (mslab_free s)\<rparr>)
        else Ret () s)"

text \<open>The callback that gives the next disk slab to a block; the local variable is \<^verbatim>\<open>slab_id\<close>.\<close>

definition place_block :: "int \<Rightarrow> block \<Rightarrow> 'db kv \<times> nat \<Rightarrow> (unit, 'db kv \<times> nat) outcome" where
  "place_block ops_size blk st =
     seq (check (snd st < nr_mslab (fst st) + nr_dslab (fst st)) ''sid < nr_mslab_ + nr_dslab_'' st) (\<lambda>_ (s, slab_id).
     let s = upd_slab slab_id (\<lambda>sl. sl\<lparr>block_id := blk_block_id blk\<rparr>) s;
         c = nat (blk_channel_id blk)
     in seq (check (blk_channel_id blk < nr_channels (ssd s)) ''block.channel_id < ssd_->nr_channels_'' (s, slab_id)) (\<lambda>_ _.
        if lsize (ops_pool s ! c) < ops_size mod 2 ^ 64
        then Ret () (s\<lparr>ops_pool := chan_add c slab_id (ops_pool s), ops_pool_size := ops_pool_size s + 1\<rparr>, slab_id + 1)
        else let s = s\<lparr>dslab_free := chan_add c slab_id (dslab_free s), nr_free_dslab := nr_free_dslab s + 1\<rparr>
             in seq (check (0 \<le> nr_free_dslab s \<and> nr_free_dslab s \<le> nr_blocks (ssd s))
                       ''nr_free_dslab_ >= 0 && nr_free_dslab_ <= ssd_->nr_blocks_'' (s, slab_id)) (\<lambda>_ _.
                Ret () (s, slab_id + 1))))"

definition place_all :: "'db env \<Rightarrow> options \<Rightarrow> 'db kv \<Rightarrow> (unit, 'db kv) outcome" where
  "place_all E opt s =
     (let ops_size = float_times_int (ops_rate opt) (blocks_per_channel (ssd s))
      in seq (with_local (iterate_all_blocks (rdb E) (ssd s) (place_block ops_size) (s, nr_mslab s))) (\<lambda>_ s.
         let s = s\<lparr>max_ops_pool_size := ops_pool_size s\<rparr>
         in check (check_ops_pool s) ''check_ops_pool()'' s))"

text \<open>The fields \<^verbatim>\<open>slab_init\<close> sets before its loops, for the mapping at address \<open>p\<close>.\<close>

definition map_slabs :: "nat \<Rightarrow> 'db kv \<Rightarrow> 'db kv" where
  "map_slabs p s =
     (let n = nat (nr_channels (ssd s))
      in s\<lparr>mslab_base := align_ptr_up p (slab_size s),
           slabs := replicate (nr_mslab s) (zero_slab (slab_size s - slab_header_size)) @ replicate (nr_dslab s) (zero_slab 0),
           dslab_free := replicate n slist_init, dslab_full := replicate n slist_init,
           ops_pool := replicate n slist_init\<rparr>)"

definition slab_init :: "'db env \<Rightarrow> host \<Rightarrow> options \<Rightarrow> 'db kv \<Rightarrow> (unit, 'db kv) outcome" where
  "slab_init E h opt s =
     (let sz = nat (block_size (ssd s));
          s = s\<lparr>slab_size := sz, nr_dslab := nat (nr_blocks (ssd s)), nr_mslab := nat (slab_mem_budget opt) div sz\<rparr>
      in case mmap_slabs h (nr_mslab s * sz + nr_dslab s * sizeof_slab + sz) of
           None \<Rightarrow> Exc ''Failed to mmap memory slab'' s
         | Some p \<Rightarrow>
             seq (for_each init_slab [0..<nr_mslab s + nr_dslab s] (map_slabs p s)) (\<lambda>_ s.
             place_all E opt s))"

subsection \<open>Index\<close>

definition index_init :: "host \<Rightarrow> options \<Rightarrow> 'db kv \<Rightarrow> (unit, 'db kv) outcome" where
  "index_init h opt s =
     (let n = nat (index_mem_budget opt mod 2 ^ 64) div sizeof_index_entry;
          min_n = (\<Sum>sc \<leftarrow> slab_class_table s. sc_slots_per_slab sc)
      in if n < min_n then
           Exc (''index_mem_budget '' @ to_string (index_mem_budget opt) @
                '' is too small, min_index_mem_budget '' @ to_string (int (min_n * sizeof_index_entry)) @ '' bytes'') s
         else if \<not> mmap_index h (n * sizeof_index_entry) then Exc ''Failed to allocate index area'' s
         else if index_table_size opt < 0 then Exc ''std::bad_array_new_length'' s
         else Ret () (s\<lparr>index := \<lparr>
                ientries = replicate n \<lparr>ie_digest = replicate 20 0, ie_slab_id = 0, ie_slot_id = 0\<rparr>,
                itable = replicate (nat (index_table_size opt)) [],
                ifree = fold (\<lambda>i l. i # l) [0..<n] [],
                nr_free_index_entry = int n\<rparr>\<rparr>))"

subsection \<open>The constructor and the destructor\<close>

text \<open>The members before the body of the constructor runs.\<close>

definition kv_blank :: "'db ssd \<Rightarrow> options \<Rightarrow> 'db kv" where
  "kv_blank d opt =
     \<lparr>ssd = d, enable_background_flush = opt_background_flush opt, enable_background_gc = opt_background_gc opt,
      slab_size = 0, nr_mslab = 0, nr_dslab = 0, mslab_base = 0, slabs = [],
      mslab_free = slist_init, mslab_full = slist_init, dslab_free = [], dslab_full = [], ops_pool = [],
      max_ops_pool_size = 0, ops_pool_size = 0, nr_free_dslab = 0, nr_full_dslab = 0, slab_class_table = [],
      index = \<lparr>ientries = [], itable = [], ifree = [], nr_free_index_entry = 0\<rparr>,
      next_mslab_flush_channel = 0, next_ops_pool_remove_channel = 0,
      water_mark_low = 0, water_mark_high = 0, water_mark_low_min = 0, water_mark_high_max = 0,
      shutdown = False, slab_flush_thread_started = False, slab_gc_thread_started = False, index_locked = False\<rparr>"

definition set_water_marks :: "options \<Rightarrow> 'db kv \<Rightarrow> 'db kv" where
  "set_water_marks opt s =
     (let n = nr_blocks (ssd s);
          low_min = max 1 (float_times_int (opt_water_mark_low_min opt) n);
          high_max = max (low_min + 10) (float_times_int (opt_water_mark_high_max opt) n)
      in s\<lparr>water_mark_low_min := low_min, water_mark_high_max := high_max,
           water_mark_low := max low_min (float_times_int (opt_water_mark_low opt) n),
           water_mark_high := min high_max (float_times_int (opt_water_mark_high opt) n)\<rparr>)"

definition KVCache_ctor :: "'db env \<Rightarrow> host \<Rightarrow> 'db ssd \<Rightarrow> options \<Rightarrow> (unit, 'db kv) outcome" where
  "KVCache_ctor E h d opt =
     (let s = kv_blank d opt;
          s = s\<lparr>enable_background_flush := env_flag (env_var h ''KVCACHE_ENABLE_BACKGROUND_FLUSH'') (enable_background_flush s)\<rparr>;
          s = s\<lparr>enable_background_gc := env_flag (env_var h ''KVCACHE_ENABLE_BACKGROUND_GC'') (enable_background_gc s)\<rparr>
      in seq (slab_init E h opt (set_water_marks opt s)) (\<lambda>_ s.
         let s = s\<lparr>slab_class_table := slab_class_init (nat (block_size (ssd s))) (class_sizes opt)\<rparr>
         in seq (index_init h opt s) (\<lambda>_ s.
            if enable_background_gc s then slab_gc E s else Ret () s)))"

text \<open>
  The destructor raises \<^verbatim>\<open>shutdown_\<close>, wakes all waiting threads and joins the two background
  threads; once both are joined neither is running.
\<close>

definition KVCache_dtor :: "'db kv \<Rightarrow> 'db kv" where
  "KVCache_dtor s = s\<lparr>shutdown := True\<rparr>"

subsection \<open>Loops\<close>

lemma total_for_each:
  assumes "P k s" and "\<And>i t. i < length bs \<Longrightarrow> P (k + i) t \<Longrightarrow> total (\<lambda>_ t'. P (Suc (k + i)) t') (f (bs ! i) t)"
  shows "total (\<lambda>_ t. P (k + length bs) t) (for_each f bs s)"
  using assms
proof (induction bs arbitrary: k s)
  case Nil
  then show ?case by simp
next
  case (Cons b bs)
  obtain a t where run: "f b s = Ret a t" and P: "P (Suc k) t"
    using Cons.prems(2) [of 0 s] Cons.prems(1) unfolding total_iff by auto
  have "total (\<lambda>_ t. P (Suc k + length bs) t) (for_each f bs t)"
    by (rule Cons.IH [OF P]) (use Cons.prems(2) [of "Suc _"] in simp)
  then show ?case using run by simp
qed

subsection \<open>The slabs after start-up\<close>

text \<open>All headers are reset, and all memory slabs but the last are on the free list.\<close>

definition fresh_slab :: "nat \<Rightarrow> slab \<Rightarrow> slab" where
  "fresh_slab i sl = (slab_reset sl)\<lparr>block_id := -1, sid := i\<rparr>"

definition fresh_upto :: "nat \<Rightarrow> 'db kv \<Rightarrow> nat \<Rightarrow> 'db kv \<Rightarrow> bool" where
  "fresh_upto nm s k t \<longleftrightarrow>
     t = s\<lparr>slabs := map (\<lambda>i. if i < k then fresh_slab i (slabs s ! i) else slabs s ! i) [0..<length (slabs s)],
           mslab_free := \<lparr>items = rev [0..<min k (nm - 1)], lsize = int (min k (nm - 1))\<rparr>\<rparr>"

lemma init_slab_step:
  assumes f: "fresh_upto (nr_mslab s) s k t" and k: "k < length (slabs s)" "length (slabs s) = nr_mslab s + nr_dslab s"
    and n: "0 < nr_mslab s" "nr_mslab s < 2 ^ 64"
  shows "total (\<lambda>_ t'. fresh_upto (nr_mslab s) s (Suc k) t') (init_slab k t)"
proof -
  have t: "nr_mslab t = nr_mslab s" "nr_dslab t = nr_dslab s" "length (slabs t) = length (slabs s)"
    "slabs t ! k = slabs s ! k" "mslab_free t = \<lparr>items = rev [0..<min k (nr_mslab s - 1)], lsize = int (min k (nr_mslab s - 1))\<rparr>"
    using f k by (simp_all add: fresh_upto_def)
  have sl: "slabs (upd_slab k (fresh_slab k) t) = map (\<lambda>i. if i < Suc k then fresh_slab i (slabs s ! i) else slabs s ! i) [0..<length (slabs s)]"
    using f k t(3) by (intro nth_equalityI) (auto simp: fresh_upto_def upd_slab_def nth_list_update less_Suc_eq)
  have md: "(int (nr_mslab s) - 1) mod 2 ^ 64 = int (nr_mslab s) - 1" using n by (intro mod_pos_pos_trivial) auto
  have eq: "upd_slab k (fresh_slab k) t = t\<lparr>slabs := slabs (upd_slab k (fresh_slab k) t)\<rparr>" by (simp add: upd_slab_def)
  have run: "init_slab k t = (if k < nr_mslab s - 1
      then Ret () ((upd_slab k (fresh_slab k) t)\<lparr>mslab_free := slist_add k (mslab_free t)\<rparr>) else Ret () (upd_slab k (fresh_slab k) t))"
  proof -
    have "int k < int (nr_mslab s) - 1 \<longleftrightarrow> k < nr_mslab s - 1" using n by linarith
    moreover have "(\<lambda>sl. (slab_reset sl)\<lparr>block_id := -1, sid := k\<rparr>) = fresh_slab k" by (simp add: fun_eq_iff fresh_slab_def)
    ultimately show ?thesis using k t(1,2) md by (simp add: init_slab_def slab_by_sid_def Let_def)
  qed
  show ?thesis
  proof (cases "k < nr_mslab s - 1")
    case True
    then have "slist_add k (mslab_free t) = \<lparr>items = rev [0..<min (Suc k) (nr_mslab s - 1)], lsize = int (min (Suc k) (nr_mslab s - 1))\<rparr>"
      by (simp add: t(5) slist_add_def)
    then show ?thesis using True run f by (subst (asm) eq) (simp add: fresh_upto_def sl [unfolded fresh_upto_def])
  next
    case False
    then have "min (Suc k) (nr_mslab s - 1) = min k (nr_mslab s - 1)" by simp
    then show ?thesis using False run f by (subst (asm) eq) (simp add: fresh_upto_def sl)
  qed
qed

lemma init_slabs_total:
  assumes n: "0 < nr_mslab s" "nr_mslab s < 2 ^ 64" and len: "length (slabs s) = nr_mslab s + nr_dslab s" and free: "mslab_free s = slist_init"
  shows "total (\<lambda>_ t. fresh_upto (nr_mslab s) s (nr_mslab s + nr_dslab s) t) (for_each init_slab [0..<nr_mslab s + nr_dslab s] s)"
proof -
  have 0: "fresh_upto (nr_mslab s) s 0 s"
    using free by (simp add: fresh_upto_def slist_init_def map_nth)
  from total_for_each [of "fresh_upto (nr_mslab s) s" 0 s "[0..<nr_mslab s + nr_dslab s]" init_slab, OF 0]
  show ?thesis using init_slab_step [OF _ _ len n] len by simp
qed

subsection \<open>The disk slabs after start-up\<close>

text \<open>After \<open>k\<close> blocks: the first \<open>k\<close> disk slabs have theirs and are on the list of its channel, free or over-provisioned.\<close>

definition block_channel :: "'db kv \<Rightarrow> int list \<Rightarrow> nat \<Rightarrow> nat" where
  "block_channel s bs i = nat (channel_id (ssd s) (bs ! (i - nr_mslab s)))"

definition placed_slabs :: "'db kv \<Rightarrow> int list \<Rightarrow> nat \<Rightarrow> slab list" where
  "placed_slabs s bs k =
     map (\<lambda>i. if nr_mslab s \<le> i \<and> i < nr_mslab s + k then (slabs s ! i)\<lparr>block_id := bs ! (i - nr_mslab s)\<rparr> else slabs s ! i)
       [0..<length (slabs s)]"

definition pools_ok :: "'db kv \<Rightarrow> int list \<Rightarrow> nat \<Rightarrow> slist list \<Rightarrow> slist list \<Rightarrow> bool" where
  "pools_ok s bs k fr op \<longleftrightarrow> chans (block_channel s bs) (nch s) fr \<and> chans (block_channel s bs) (nch s) op \<and>
     mset (members fr) + mset (members op) = mset [nr_mslab s..<nr_mslab s + k] \<and> (0 < k \<longrightarrow> 0 < total_size op)"

definition with_pools :: "'db kv \<Rightarrow> slab list \<Rightarrow> slist list \<Rightarrow> slist list \<Rightarrow> 'db kv" where
  "with_pools s sl fr op = s\<lparr>slabs := sl, dslab_free := fr, nr_free_dslab := total_size fr,
     ops_pool := op, ops_pool_size := total_size op\<rparr>"

definition placing :: "'db kv \<Rightarrow> int list \<Rightarrow> nat \<Rightarrow> 'db kv \<times> nat \<Rightarrow> bool" where
  "placing s bs k st \<longleftrightarrow> snd st = nr_mslab s + k \<and>
     (\<exists>fr op. fst st = with_pools s (placed_slabs s bs k) fr op \<and> pools_ok s bs k fr op)"

lemma pools_ok_step:
  assumes p: "pools_ok s bs k fr op" and ch: "block_channel s bs (nr_mslab s + k) < nch s"
  defines "d \<equiv> nr_mslab s + k" and "c \<equiv> block_channel s bs (nr_mslab s + k)"
  shows "pools_ok s bs (Suc k) fr (chan_add c d op)" and "total_size (chan_add c d op) = total_size op + 1"
    and "0 < k \<Longrightarrow> pools_ok s bs (Suc k) (chan_add c d fr) op" and "total_size (chan_add c d fr) = total_size fr + 1"
    and "total_size fr \<le> int k"
proof -
  let ?ch = "block_channel s bs"
  have fr: "chans ?ch (nch s) fr" and op: "chans ?ch (nch s) op" and m: "mset (members fr) + mset (members op) = mset [nr_mslab s..<d]"
    and pos: "0 < k \<longrightarrow> 0 < total_size op"
    using p by (simp_all add: pools_ok_def d_def)
  have c: "c = ?ch d" "?ch d < nch s" using ch by (simp_all add: c_def d_def)
  note af = chans_add [OF fr c(2), folded c(1)] and ao = chans_add [OF op c(2), folded c(1)]
  have m': "mset [nr_mslab s..<nr_mslab s + Suc k] = add_mset d (mset [nr_mslab s..<d])" by (simp add: d_def)
  show tf: "total_size (chan_add c d fr) = total_size fr + 1" and to: "total_size (chan_add c d op) = total_size op + 1"
    using pool.count_add [OF fr c(2)] pool.count_add [OF op c(2)] by (simp_all add: c(1))
  have "0 \<le> total_size op" using total_size_members [OF op] by simp
  then show "pools_ok s bs (Suc k) fr (chan_add c d op)"
    unfolding pools_ok_def m' using fr ao m to by simp
  show "pools_ok s bs (Suc k) (chan_add c d fr) op" if "0 < k"
    unfolding pools_ok_def m' using op af m pos that by simp
  have "size (mset (members fr) + mset (members op)) = k" unfolding m by (simp add: d_def)
  then show "total_size fr \<le> int k" using total_size_members [OF fr] by simp
qed

lemma placed_slabs_step:
  assumes "nr_mslab s + k < length (slabs s)"
  shows "upd_slab (nr_mslab s + k) (\<lambda>sl. sl\<lparr>block_id := bs ! k\<rparr>) (with_pools s (placed_slabs s bs k) fr op) =
    with_pools s (placed_slabs s bs (Suc k)) fr op"
proof -
  let ?d = "nr_mslab s + k"
  have "(placed_slabs s bs k)[?d := (placed_slabs s bs k ! ?d)\<lparr>block_id := bs ! k\<rparr>] = placed_slabs s bs (Suc k)"
  proof (rule nth_equalityI)
    fix i assume "i < length ((placed_slabs s bs k)[?d := (placed_slabs s bs k ! ?d)\<lparr>block_id := bs ! k\<rparr>])"
    then have i: "i < length (slabs s)" by (simp add: placed_slabs_def)
    show "(placed_slabs s bs k)[?d := (placed_slabs s bs k ! ?d)\<lparr>block_id := bs ! k\<rparr>] ! i = placed_slabs s bs (Suc k) ! i"
      using i by (cases "i = ?d") (auto simp: placed_slabs_def)
  qed (simp add: placed_slabs_def)
  then show ?thesis by (simp add: upd_slab_def with_pools_def)
qed

lemma first_block_to_ops:
  assumes p: "pools_ok s bs 0 fr op" and c: "c < nch s"
  shows "lsize (op ! c) = 0"
proof -
  have "mset (members op) = {#}" and "chans (block_channel s bs) (nch s) op" using p unfolding pools_ok_def by auto
  then have m: "members op = []" and a: "c < length op" "slist_ok (op ! c)" using c by (simp_all add: chans_def)
  then have "items (op ! c) = []" using nth_mem [OF a(1)] by (auto simp: members_def)
  then show ?thesis using a by (simp add: slist_ok_def)
qed

lemma place_block_step:
  assumes ok: "ssd_ok R (ssd s)" and len: "length (slabs s) = nr_mslab s + nr_dslab s" "int (nr_dslab s) = nr_blocks (ssd s)"
    and bs: "length bs = nr_dslab s" "0 \<le> bs ! k" "bs ! k < nr_blocks (ssd s)" "k < nr_dslab s"
    and ops: "0 < ops_size" "ops_size < 2 ^ 63" and pl: "placing s bs k st"
  shows "total (\<lambda>_ st'. placing s bs (Suc k) st') (place_block ops_size (get_block (ssd s) (bs ! k)) st)"
proof -
  obtain fr op where st: "st = (with_pools s (placed_slabs s bs k) fr op, nr_mslab s + k)" and p: "pools_ok s bs k fr op"
    using pl by (cases st) (auto simp: placing_def)
  let ?d = "nr_mslab s + k" and ?c = "nat (bs ! k div blocks_per_channel (ssd s))"
  note cl = channel_id_less [OF ok bs(2,3)]
  have c: "?c = block_channel s bs ?d" by (simp add: block_channel_def channel_id_def)
  have ch: "block_channel s bs ?d < nch s" using cl by (simp add: block_channel_def nch_def)
  note step = pools_ok_step [OF p ch, folded c]
  have "nr_mslab s + k < length (slabs s)" using len bs(4) by simp
  note sl = placed_slabs_step [OF this, of bs fr op]
  have empty: "lsize (op ! ?c) < ops_size" if "k = 0"
    using first_block_to_ops [of s bs fr op ?c] p ch c ops that by simp
  have md: "ops_size mod 2 ^ 64 = ops_size" using ops by (intro mod_pos_pos_trivial) auto
  have w: "with_pools s (placed_slabs s bs (Suc k)) fr op \<lparr>ops_pool := chan_add ?c ?d op, ops_pool_size := total_size op + 1\<rparr> =
      with_pools s (placed_slabs s bs (Suc k)) fr (chan_add ?c ?d op)"
    "with_pools s (placed_slabs s bs (Suc k)) fr op \<lparr>dslab_free := chan_add ?c ?d fr, nr_free_dslab := total_size fr + 1\<rparr> =
      with_pools s (placed_slabs s bs (Suc k)) (chan_add ?c ?d fr) op"
    by (simp_all add: with_pools_def step(2,4))
  have fields: "ops_pool (with_pools s x f p) = p" "ops_pool_size (with_pools s x f p) = total_size p"
    "dslab_free (with_pools s x f p) = f" "nr_free_dslab (with_pools s x f p) = total_size f"
    "ssd (with_pools s x f p) = ssd s" "nr_mslab (with_pools s x f p) = nr_mslab s" "nr_dslab (with_pools s x f p) = nr_dslab s" for x f p
    by (simp_all add: with_pools_def)
  have fr0: "0 \<le> total_size fr" using p total_size_members [of _ _ fr] by (auto simp: pools_ok_def)
  have nb: "total_size fr + 1 \<le> nr_blocks (ssd s)" using step(5) bs(4) len(2) by linarith
  have "placing s bs (Suc k) (with_pools s (placed_slabs s bs (Suc k)) fr (chan_add ?c ?d op), Suc ?d)"
    using step(1) by (auto simp: placing_def)
  moreover have "placing s bs (Suc k) (with_pools s (placed_slabs s bs (Suc k)) (chan_add ?c ?d fr) op, Suc ?d)" if "\<not> lsize (op ! ?c) < ops_size"
    using step(3) empty that by (auto simp: placing_def)
  ultimately show ?thesis
    using bs(4) cl(2) md fr0 nb
    by (simp add: place_block_def st get_block_def Let_def sl fields w step(4) channel_id_def)
qed

lemma members_empty [simp]: "members (replicate n slist_init) = []" "total_size (replicate n slist_init) = 0"
  by (simp_all add: members_def total_size_def sum_list_replicate)

lemma chans_empty [simp]: "chans ch n (replicate n slist_init)"
  by (simp add: chans_def)

lemma place_all_total:
  assumes ok: "ssd_ok (rdb E) (ssd s)" and walk: "walk_ok (rdb E) (ssd s) bs" and nb: "nr_blocks (ssd s) < 2 ^ 31"
    and len: "length (slabs s) = nr_mslab s + nr_dslab s" "int (nr_dslab s) = nr_blocks (ssd s)"
    and ops: "0 < float_times_int (ops_rate opt) (blocks_per_channel (ssd s))" "float_times_int (ops_rate opt) (blocks_per_channel (ssd s)) < 2 ^ 63"
    and empty: "dslab_free s = replicate (nch s) slist_init" "ops_pool s = replicate (nch s) slist_init" "nr_free_dslab s = 0" "ops_pool_size s = 0"
  shows "total (\<lambda>_ t. \<exists>fr op. t = (with_pools s (placed_slabs s bs (nr_dslab s)) fr op)\<lparr>max_ops_pool_size := total_size op\<rparr> \<and>
    pools_ok s bs (nr_dslab s) fr op) (place_all E opt s)"
proof -
  let ?ops = "float_times_int (ops_rate opt) (blocks_per_channel (ssd s))"
  have lb: "length bs = nr_dslab s"
  proof -
    have d: "distinct bs" and sb: "set bs = {0..<nr_blocks (ssd s)}" using walk unfolding walk_ok_def by blast+
    show ?thesis using distinct_card [OF d] len(2) unfolding sb by simp
  qed
  have rng: "0 \<le> bs ! k \<and> bs ! k < nr_blocks (ssd s)" if "k < nr_dslab s" for k
    using walk nth_mem [of k bs] lb that by (auto simp: walk_ok_def)
  have 0: "placing s bs 0 (s, nr_mslab s)"
  proof -
    have "with_pools s (placed_slabs s bs 0) (dslab_free s) (ops_pool s) = s"
    proof (rule kv.equality)
      show "slabs (with_pools s (placed_slabs s bs 0) (dslab_free s) (ops_pool s)) = slabs s"
        by (intro nth_equalityI) (auto simp: with_pools_def placed_slabs_def)
    qed (simp_all add: with_pools_def empty)
    moreover have "pools_ok s bs 0 (dslab_free s) (ops_pool s)" using empty by (simp add: pools_ok_def)
    ultimately show ?thesis unfolding placing_def by force
  qed
  have "total (\<lambda>_ st. placing s bs (0 + length bs) st) (for_each (\<lambda>b. place_block ?ops (get_block (ssd s) b)) bs (s, nr_mslab s))"
    by (rule total_for_each [of "placing s bs" 0, OF 0]) (use place_block_step [OF ok len lb _ _ _ ops] rng lb in simp)
  then have "total (\<lambda>_ st. placing s bs (nr_dslab s) st) (iterate_all_blocks (rdb E) (ssd s) (place_block ?ops) (s, nr_mslab s))"
    unfolding iterate_walk [OF ok walk nb] by (simp add: lb)
  then obtain fr op where run: "iterate_all_blocks (rdb E) (ssd s) (place_block ?ops) (s, nr_mslab s) =
      Ret () (with_pools s (placed_slabs s bs (nr_dslab s)) fr op, nr_mslab s + nr_dslab s)" and p: "pools_ok s bs (nr_dslab s) fr op"
    unfolding total_iff placing_def by auto
  have "l \<in> set op \<Longrightarrow> int (length (items l)) = lsize l" for l
    using p by (auto simp: pools_ok_def chans_def in_set_conv_nth slist_ok_def)
  then have "check_ops_pool ((with_pools s (placed_slabs s bs (nr_dslab s)) fr op)\<lparr>max_ops_pool_size := total_size op\<rparr>)"
    by (simp add: check_ops_pool_def with_pools_def list_all_iff total_size_def)
  moreover have "ops_pool_size (with_pools s x fr op) = total_size op" for x by (simp add: with_pools_def)
  ultimately show ?thesis using p by (auto simp: place_all_def run Let_def)
qed

subsection \<open>The invariant of a new cache\<close>

definition fresh_index :: "nat \<Rightarrow> nat \<Rightarrow> index" where
  "fresh_index n tsize = \<lparr>ientries = replicate n \<lparr>ie_digest = replicate 20 0, ie_slab_id = 0, ie_slot_id = 0\<rparr>,
     itable = replicate tsize [], ifree = rev [0..<n], nr_free_index_entry = int n\<rparr>"

lemma fresh_index_ok:
  assumes "0 < tsize"
  shows "index_ok (fresh_index n tsize)" and "index_view (fresh_index n tsize) = Map.empty"
proof -
  show "index_ok (fresh_index n tsize)" using assms by (auto simp: index_ok_def fresh_index_def concat_replicate_trivial)
  show "index_view (fresh_index n tsize) = Map.empty"
    by (auto simp: index_view_def fresh_index_def chain_find_def fun_eq_iff)
qed

text \<open>The state a constructor leaves, field by field.\<close>

definition fresh_kv :: "'db env \<Rightarrow> int list \<Rightarrow> 'db kv \<Rightarrow> bool" where
  "fresh_kv E bs s \<longleftrightarrow>
     ssd_ok (rdb E) (ssd s) \<and> int (slab_size s) = block_size (ssd s) \<and> 44 < slab_size s \<and> slab_size s < 2 ^ 31 \<and>
     0 < nr_mslab s \<and> int (nr_dslab s) = nr_blocks (ssd s) \<and> length (slabs s) = nr_mslab s + nr_dslab s \<and>
     length (slabs s) < 2 ^ 31 \<and> mslab_base s mod slab_size s = 0 \<and>
     (\<forall>i < nr_mslab s. slabs s ! i = fresh_slab i (zero_slab (slab_size s - 44))) \<and>
     (\<forall>i < nr_dslab s. slabs s ! (nr_mslab s + i) = (fresh_slab (nr_mslab s + i) (zero_slab 0))\<lparr>block_id := bs ! i\<rparr>) \<and>
     distinct bs \<and> set bs = {0..<nr_blocks (ssd s)} \<and>
     (\<forall>c < length (slab_class_table s). sc_cid (slab_class_table s ! c) = int c \<and> 0 < sc_slot_size (slab_class_table s ! c) \<and>
        sc_slot_size (slab_class_table s ! c) \<le> slab_size s - 44 \<and> slab_partial (slab_class_table s ! c) = []) \<and>
     length (slab_class_table s) < 2 ^ 31 \<and> (\<exists>n tsize. 0 < tsize \<and> index s = fresh_index n tsize) \<and>
     pools_ok s bs (nr_dslab s) (dslab_free s) (ops_pool s) \<and> dslab_full s = replicate (nch s) slist_init \<and>
     nr_free_dslab s = total_size (dslab_free s) \<and> ops_pool_size s = total_size (ops_pool s) \<and> max_ops_pool_size s = ops_pool_size s \<and>
     mslab_free s = \<lparr>items = rev [0..<nr_mslab s - 1], lsize = int (nr_mslab s - 1)\<rparr> \<and> mslab_full s = slist_init \<and>
     next_ops_pool_remove_channel s = 0 \<and> next_mslab_flush_channel s = 0"

lemma fresh_kv_slab:
  assumes f: "fresh_kv E bs s" and i: "i < length (slabs s)"
  shows "sid (slabs s ! i) = i" "cid (slabs s ! i) = -1" "nr_alloc (slabs s ! i) = 0" "nr_used (slabs s ! i) = 0"
    "slot_size (slabs s ! i) = 0" "nr_slots (slabs s ! i) = 0"
    "block_id (slabs s ! i) = (if i < nr_mslab s then -1 else bs ! (i - nr_mslab s))"
    "i < nr_mslab s \<Longrightarrow> length (data (slabs s ! i)) = slab_size s - 44"
proof -
  consider "i < nr_mslab s" "slabs s ! i = fresh_slab i (zero_slab (slab_size s - 44))" |
    "nr_mslab s \<le> i" "slabs s ! i = (fresh_slab i (zero_slab 0))\<lparr>block_id := bs ! (i - nr_mslab s)\<rparr>"
  proof (cases "i < nr_mslab s")
    case True
    then show ?thesis using that(1) f by (simp add: fresh_kv_def)
  next
    case False
    then have "slabs s ! (nr_mslab s + (i - nr_mslab s)) = (fresh_slab (nr_mslab s + (i - nr_mslab s)) (zero_slab 0))\<lparr>block_id := bs ! (i - nr_mslab s)\<rparr>"
      using f i unfolding fresh_kv_def by (metis add_less_cancel_left le_add_diff_inverse not_less)
    then show ?thesis using that(2) False by simp
  qed
  note this [case_names mem disk]
  then show "sid (slabs s ! i) = i" "cid (slabs s ! i) = -1" "nr_alloc (slabs s ! i) = 0" "nr_used (slabs s ! i) = 0"
    "slot_size (slabs s ! i) = 0" "nr_slots (slabs s ! i) = 0"
    "block_id (slabs s ! i) = (if i < nr_mslab s then -1 else bs ! (i - nr_mslab s))"
    "i < nr_mslab s \<Longrightarrow> length (data (slabs s ! i)) = slab_size s - 44"
    by (cases; simp add: fresh_slab_def slab_reset_def zero_slab_def)+
qed

lemma fresh_kv_data:
  assumes f: "fresh_kv E bs s"
  shows "data_inv E s" and "view s = Map.empty"
proof -
  note sl = fresh_kv_slab [OF f]
  obtain n tsize where ix: "0 < tsize" "index s = fresh_index n tsize" using f unfolding fresh_kv_def by blast
  show v: "view s = Map.empty" using fresh_index_ok(2) [OF ix(1)] ix(2) by simp
  have bs: "distinct bs" "set bs = {0..<nr_blocks (ssd s)}" "length (slabs s) = nr_mslab s + nr_dslab s" "int (nr_dslab s) = nr_blocks (ssd s)"
    using f unfolding fresh_kv_def by blast+
  have lb: "length bs = nr_dslab s" using distinct_card [OF bs(1)] bs(4) unfolding bs(2) by simp
  have rng: "0 \<le> bs ! k \<and> bs ! k < nr_blocks (ssd s)" if "k < nr_dslab s" for k
    using nth_mem [of k bs] lb bs(2) that by auto
  have dsk: "0 \<le> block_id (slabs s ! i) \<and> block_id (slabs s ! i) < nr_blocks (ssd s)" if "nr_mslab s \<le> i" "i < length (slabs s)" for i
    using sl(7) [OF that(2)] rng [of "i - nr_mslab s"] that bs(3) by simp
  have "inj_on (\<lambda>i. block_id (slabs s ! i)) {nr_mslab s..<length (slabs s)}"
  proof (rule inj_onI)
    fix i j assume ij: "i \<in> {nr_mslab s..<length (slabs s)}" "j \<in> {nr_mslab s..<length (slabs s)}" "block_id (slabs s ! i) = block_id (slabs s ! j)"
    then have "bs ! (i - nr_mslab s) = bs ! (j - nr_mslab s)" using sl(7) by simp
    then have "i - nr_mslab s = j - nr_mslab s" using nth_eq_iff_index_eq [OF bs(1)] ij bs(3) lb by auto
    then show "i = j" using ij by auto
  qed
  moreover have mem: "block_id (slabs s ! i) = -1" "length (data (slabs s ! i)) = slab_size s - 44" if "i < nr_mslab s" for i
    using sl(7,8) [of i] bs(3) that by simp_all
  ultimately have "geom E s"
    using f sl(1) dsk unfolding geom_def fresh_kv_def by simp
  moreover have "slabs_ok E s"
    using sl by (simp add: slabs_ok_def hdr_ok_def backed_def slots_fit_def)
  moreover have "index_ok (index s)" using fresh_index_ok(1) [OF ix(1)] ix(2) by simp
  moreover have "points_ok E s" using v by (simp add: points_ok_def)
  moreover have "used_ok s" using sl(4) v by (simp add: used_ok_def live_def)
  ultimately show "data_inv E s" by (simp add: data_inv_def)
qed

lemma chans_cong: "chans ch n ls \<Longrightarrow> (\<And>d. d \<in> set (members ls) \<Longrightarrow> ch' d = ch d) \<Longrightarrow> chans ch' n ls"
  unfolding chans_def members_def by (auto simp: in_set_conv_nth) (metis nth_mem)

lemma count_upt: "count (mset [a..<b]) x \<le> 1"
  using distinct_count_atmost_1 [of "[a..<b]"] by (simp split: if_splits)

lemma fresh_kv_inv:
  assumes f: "fresh_kv E bs s"
  shows "kv_inv E s" and "cache E s = Map.empty"
proof -
  note sl = fresh_kv_slab [OF f] and data = fresh_kv_data [OF f]
  show "cache E s = Map.empty" using data(2) by (intro ext) (simp add: cache_def)
  have g: "geom E s" by (rule data_invD(1) [OF data(1)])
  have len: "length (slabs s) = nr_mslab s + nr_dslab s" and p: "pools_ok s bs (nr_dslab s) (dslab_free s) (ops_pool s)"
    and full: "dslab_full s = replicate (nch s) slist_init" and nm: "0 < nr_mslab s"
    and cnt: "nr_free_dslab s = total_size (dslab_free s)" "ops_pool_size s = total_size (ops_pool s)" "max_ops_pool_size s = ops_pool_size s"
    and mfree: "mslab_free s = \<lparr>items = rev [0..<nr_mslab s - 1], lsize = int (nr_mslab s - 1)\<rparr>" "mslab_full s = slist_init"
    and ptr: "next_ops_pool_remove_channel s = 0" "next_mslab_flush_channel s = 0"
    and part: "\<forall>c < length (slab_class_table s). slab_partial (slab_class_table s ! c) = []"
    using f by (simp_all add: fresh_kv_def)
  have m: "mset (members (dslab_free s)) + mset (members (ops_pool s)) = mset [nr_mslab s..<nr_mslab s + nr_dslab s]"
    using p by (simp add: pools_ok_def)
  have ms: "set (members (dslab_free s)) \<union> set (members (ops_pool s)) = {nr_mslab s..<nr_mslab s + nr_dslab s}"
    using arg_cong [OF m, of set_mset] by simp
  have ch: "slab_channel s d = block_channel s bs d" if "d \<in> set (members (dslab_free s)) \<union> set (members (ops_pool s))" for d
    using that sl(7) [of d] len unfolding ms by (simp add: slab_channel_def block_channel_def)
  have cl: "chan_lists s (dslab_free s)" "chan_lists s (ops_pool s)"
    using p chans_cong [of "block_channel s bs" "nch s" _ "slab_channel s"] ch by (simp_all add: pools_ok_def)
  have pl: "placed [] s = mset [nr_mslab s..<nr_mslab s + nr_dslab s]" using m full by (simp add: placed_def on_lists_def)
  have "count (placed [] s) d \<le> 1" for d
    unfolding pl by (rule count_upt)
  moreover have "is_dslab s d" if "d \<in># placed [] s" for d using that len unfolding pl by (simp add: is_dslab_def)
  moreover have "nr_alloc (slabs s ! d) = 0 \<and> cid (slabs s ! d) = -1"
    if "d \<in> set (members (dslab_free s)) \<union> set (members (ops_pool s))" for d
    using that sl(2,3) [of d] len unfolding ms by simp
  ultimately have di: "disk_inv [] {} s"
    using cl full cnt unfolding disk_inv_def by simp
  have ps: "partials s = []" using part by (auto simp: partials_def in_set_conv_nth)
  have ml: "mem_lists s = mset [0..<nr_mslab s - 1]" using mfree ps by (simp add: mem_lists_def)
  have "count (mem_lists s) x \<le> 1" for x
    unfolding ml by (rule count_upt)
  moreover have "\<forall>x \<in># mem_lists s. x < nr_mslab s - 1" unfolding ml by simp
  ultimately have mi: "mem_inv [] s"
    using mfree sl(3) len nm part unfolding mem_inv_def by (simp add: slist_ok_def)
  have "0 < nr_dslab s" using g by (simp add: geom_def ssd_ok_def) (metis mult_pos_pos of_nat_0_less_iff)
  then have "ops_in_range s" using p cnt by (simp add: ops_in_range_def pools_ok_def)
  moreover have "ptrs_ok s" using ptr nch_pos [OF g] by (simp add: ptrs_ok_def)
  moreover have "live s (gc_buffer s) = {}" using data(2) by (simp add: live_def)
  ultimately show "kv_inv E s" using data(1) di mi by (simp add: kv_inv_def)
qed

subsection \<open>The constructor\<close>

text \<open>Options and memory with which a cache can be built on the device \<open>d\<close>.\<close>

definition init_ok :: "'db env \<Rightarrow> host \<Rightarrow> 'db ssd \<Rightarrow> options \<Rightarrow> bool" where
  "init_ok E h d opt \<longleftrightarrow> ssd_ok (rdb E) d \<and> 44 < block_size d \<and> block_size d < 2 ^ 31 \<and>
     block_size d \<le> slab_mem_budget opt \<and> int (nat (slab_mem_budget opt) div nat (block_size d)) + nr_blocks d < 2 ^ 31 \<and>
     (\<forall>n. mmap_slabs h n \<noteq> None) \<and> (\<forall>n. mmap_index h n) \<and> 0 < index_table_size opt \<and>
     0 \<le> index_mem_budget opt \<and> index_mem_budget opt < 2 ^ 31 \<and> length (class_sizes opt) < 2 ^ 31 \<and>
     (\<forall>z \<in> set (class_sizes opt). 0 < z \<and> z \<le> nat (block_size d) - 44) \<and>
     (\<Sum>z \<leftarrow> class_sizes opt. nat (block_size d) div z) \<le> nat (index_mem_budget opt) div 48 \<and>
     0 < float_times_int (ops_rate opt) (blocks_per_channel d) \<and> float_times_int (ops_rate opt) (blocks_per_channel d) < 2 ^ 63"

definition blank_lists :: "'db kv \<Rightarrow> bool" where
  "blank_lists s \<longleftrightarrow> mslab_free s = slist_init \<and> mslab_full s = slist_init \<and> nr_free_dslab s = 0 \<and> ops_pool_size s = 0 \<and>
     next_ops_pool_remove_channel s = 0 \<and> next_mslab_flush_channel s = 0"

definition class_table_ok :: "nat \<Rightarrow> slab_class list \<Rightarrow> bool" where
  "class_table_ok sz tab \<longleftrightarrow> length tab < 2 ^ 31 \<and> (\<forall>c < length tab. sc_cid (tab ! c) = int c \<and> 0 < sc_slot_size (tab ! c) \<and>
     sc_slot_size (tab ! c) \<le> sz - 44 \<and> slab_partial (tab ! c) = [])"

lemma fresh_upto_nth:
  assumes f: "fresh_upto nm (map_slabs p s) (nr_mslab s + nr_dslab s) t" and k: "k < nr_mslab s + nr_dslab s"
  shows "slabs t ! k = fresh_slab k (zero_slab (if k < nr_mslab s then slab_size s - 44 else 0))"
  using f k by (simp add: fresh_upto_def map_slabs_def Let_def nth_append slab_header_size_def)

text \<open>A state whose geometry is set, before the mapping of the slabs.\<close>

definition sized :: "'db env \<Rightarrow> options \<Rightarrow> 'db kv \<Rightarrow> bool" where
  "sized E opt s \<longleftrightarrow> ssd_ok (rdb E) (ssd s) \<and> int (slab_size s) = block_size (ssd s) \<and> 44 < slab_size s \<and> slab_size s < 2 ^ 31 \<and>
     0 < nr_mslab s \<and> int (nr_dslab s) = nr_blocks (ssd s) \<and> nr_mslab s + nr_dslab s < 2 ^ 31 \<and> blank_lists s \<and>
     0 < float_times_int (ops_rate opt) (blocks_per_channel (ssd s)) \<and> float_times_int (ops_rate opt) (blocks_per_channel (ssd s)) < 2 ^ 63"

definition unclassed :: "'db env \<Rightarrow> int list \<Rightarrow> 'db kv \<Rightarrow> bool" where
  "unclassed E bs t \<longleftrightarrow> (\<forall>tab ix. class_table_ok (slab_size t) tab \<and> (\<exists>n tsize. 0 < tsize \<and> ix = fresh_index n tsize) \<longrightarrow>
     fresh_kv E bs (t\<lparr>slab_class_table := tab, index := ix\<rparr>))"

definition same_flags :: "'db kv \<Rightarrow> 'db kv \<Rightarrow> bool" where
  "same_flags s t \<longleftrightarrow> ssd t = ssd s \<and> slab_size t = slab_size s \<and> nr_mslab t = nr_mslab s \<and> nr_dslab t = nr_dslab s \<and>
     enable_background_flush t = enable_background_flush s \<and> enable_background_gc t = enable_background_gc s \<and>
     index_locked t = index_locked s \<and> shutdown t = shutdown s"

lemma map_slabs_fields:
  assumes "blank_lists s"
  shows "same_flags s (map_slabs p s)" "length (slabs (map_slabs p s)) = nr_mslab s + nr_dslab s"
    "dslab_free (map_slabs p s) = replicate (nch s) slist_init" "ops_pool (map_slabs p s) = replicate (nch s) slist_init"
    "dslab_full (map_slabs p s) = replicate (nch s) slist_init" "blank_lists (map_slabs p s)"
    "mslab_base (map_slabs p s) = align_ptr_up p (slab_size s)"
  using assms by (simp_all add: map_slabs_def Let_def blank_lists_def nch_def same_flags_def)

lemma placed_unclassed:
  assumes z: "sized E opt s" and bs: "distinct bs" "set bs = {0..<nr_blocks (ssd s)}"
    and fr: "fresh_upto (nr_mslab s) (map_slabs p s) (nr_mslab s + nr_dslab s) t"
    and p: "pools_ok t bs (nr_dslab s) f op"
    and x: "x = (with_pools t (placed_slabs t bs (nr_dslab s)) f op)\<lparr>max_ops_pool_size := total_size op\<rparr>"
  shows "same_flags s x" and "unclassed E bs x"
proof -
  have blank: "blank_lists s" using z by (simp add: sized_def)
  note m = map_slabs_fields [OF blank, of p]
  note teq = fr [unfolded fresh_upto_def m(2)]
  have t: "same_flags s t" "length (slabs t) = nr_mslab s + nr_dslab s"
    using m(1) unfolding teq same_flags_def by simp_all
  show fl: "same_flags s x" using t(1) by (simp add: x with_pools_def same_flags_def)
  have sl: "slabs x ! k = (let y = fresh_slab k (zero_slab (if k < nr_mslab s then slab_size s - 44 else 0))
      in if k < nr_mslab s then y else y\<lparr>block_id := bs ! (k - nr_mslab s)\<rparr>)" if "k < nr_mslab s + nr_dslab s" for k
    using fresh_upto_nth [OF fr that] that t by (simp add: x with_pools_def placed_slabs_def Let_def same_flags_def)
  have xf: "length (slabs x) = nr_mslab s + nr_dslab s" "mslab_base x = align_ptr_up p (slab_size s)" "dslab_free x = f" "ops_pool x = op"
    "nr_free_dslab x = total_size f" "ops_pool_size x = total_size op" "max_ops_pool_size x = total_size op"
    "dslab_full x = replicate (nch s) slist_init" "mslab_full x = slist_init"
    "next_ops_pool_remove_channel x = 0" "next_mslab_flush_channel x = 0"
    "mslab_free x = \<lparr>items = rev [0..<nr_mslab s - 1], lsize = int (nr_mslab s - 1)\<rparr>"
    using t m(5-7) by (simp_all add: x with_pools_def placed_slabs_def) (simp_all add: teq blank_lists_def)
  have "fresh_kv E bs (x\<lparr>slab_class_table := tab, index := ix\<rparr>)"
    if tab: "class_table_ok (slab_size x) tab" and ix: "\<exists>n tsize. 0 < tsize \<and> ix = fresh_index n tsize" for tab ix
  proof -
    let ?y = "x\<lparr>slab_class_table := tab, index := ix\<rparr>"
    have y: "block_channel ?y bs = block_channel t bs" "nch ?y = nch t" "nch ?y = nch s" "nr_mslab t = nr_mslab s"
      using t(1) fl by (simp_all add: block_channel_def nch_def fun_eq_iff same_flags_def)
    have "pools_ok ?y bs (nr_dslab s) f op"
      using p fl y(4) unfolding pools_ok_def y(1,2) by (simp add: same_flags_def)
    moreover have "align_ptr_up p (slab_size s) mod slab_size s = 0" using z by (intro align_ptr_up_spec) (simp add: sized_def)
    ultimately show ?thesis
      using z bs tab ix sl fl unfolding fresh_kv_def by (simp add: xf y(3) class_table_ok_def sized_def same_flags_def) (simp add: nch_def)
  qed
  then show "unclassed E bs x" by (simp add: unclassed_def)
qed

lemma slab_loops_total:
  assumes z: "sized E opt s" and walk: "walk_ok (rdb E) (ssd s) bs"
  shows "total (\<lambda>_ t. same_flags s t \<and> unclassed E bs t)
    (seq (for_each init_slab [0..<nr_mslab s + nr_dslab s] (map_slabs p s)) (\<lambda>_ s. place_all E opt s))"
proof -
  have blank: "blank_lists s" and n: "0 < nr_mslab s" "nr_mslab s < 2 ^ 64" using z by (simp_all add: sized_def)
  note m = map_slabs_fields [OF blank, of p]
  have nm: "nr_mslab (map_slabs p s) = nr_mslab s" "nr_dslab (map_slabs p s) = nr_dslab s" using m(1) by (simp_all add: same_flags_def)
  obtain u t where run: "for_each init_slab [0..<nr_mslab s + nr_dslab s] (map_slabs p s) = Ret u t"
    and fr: "fresh_upto (nr_mslab s) (map_slabs p s) (nr_mslab s + nr_dslab s) t"
    using init_slabs_total [of "map_slabs p s"] n m(2,6) unfolding nm total_iff blank_lists_def by blast
  note teq = fr [unfolded fresh_upto_def m(2)]
  have t: "same_flags s t" "length (slabs t) = nr_mslab s + nr_dslab s" "dslab_free t = replicate (nch s) slist_init"
    "ops_pool t = replicate (nch s) slist_init" "nr_free_dslab t = 0" "ops_pool_size t = 0"
    using m(1,3,4,6) unfolding teq same_flags_def blank_lists_def by simp_all
  have g: "nch t = nch s" "nr_mslab t = nr_mslab s" "nr_dslab t = nr_dslab s" "ssd t = ssd s" using t(1) by (simp_all add: same_flags_def nch_def)
  have "total (\<lambda>_ x. \<exists>f op. x = (with_pools t (placed_slabs t bs (nr_dslab t)) f op)\<lparr>max_ops_pool_size := total_size op\<rparr> \<and>
      pools_ok t bs (nr_dslab t) f op) (place_all E opt t)"
    by (rule place_all_total) (use t g z walk in \<open>simp_all add: sized_def\<close>)
  then obtain v x f op where pl: "place_all E opt t = Ret v x"
    and x: "x = (with_pools t (placed_slabs t bs (nr_dslab s)) f op)\<lparr>max_ops_pool_size := total_size op\<rparr>" "pools_ok t bs (nr_dslab s) f op"
    unfolding total_iff g(3) by blast
  have "distinct bs" "set bs = {0..<nr_blocks (ssd s)}" using walk unfolding walk_ok_def by blast+
  from placed_unclassed [OF z this fr x(2,1)] show ?thesis using run pl by simp
qed

lemma slab_init_total:
  assumes ok: "init_ok E h (ssd s) opt" and walk: "walk_ok (rdb E) (ssd s) bs" and blank: "blank_lists s"
  shows "total (\<lambda>_ t. ssd t = ssd s \<and> enable_background_gc t = enable_background_gc s \<and>
      slab_size t = nat (block_size (ssd s)) \<and> index_locked t = index_locked s \<and> shutdown t = shutdown s \<and> unclassed E bs t)
    (slab_init E h opt s)"
proof -
  let ?sz = "nat (block_size (ssd s))"
  define nm where "nm = nat (slab_mem_budget opt) div ?sz"
  define s1 where "s1 = s\<lparr>slab_size := ?sz, nr_dslab := nat (nr_blocks (ssd s)), nr_mslab := nm\<rparr>"
  have d: "ssd_ok (rdb E) (ssd s)" "44 < ?sz" "int ?sz = block_size (ssd s)" "?sz < 2 ^ 31" "int nm + nr_blocks (ssd s) < 2 ^ 31"
    "?sz \<le> nat (slab_mem_budget opt)"
    using ok by (auto simp: init_ok_def nm_def)
  have nb: "0 < nr_blocks (ssd s)" using d(1) by (simp add: ssd_ok_def)
  have "0 < nm" using d(2,6) by (simp add: nm_def div_greater_zero_iff)
  moreover have "nm + nat (nr_blocks (ssd s)) < 2 ^ 31" using d(5) nb by simp
  ultimately have z: "sized E opt s1" using d nb blank ok by (simp add: sized_def s1_def blank_lists_def init_ok_def)
  obtain p where p: "mmap_slabs h (nm * ?sz + nat (nr_blocks (ssd s)) * sizeof_slab + ?sz) = Some p" using ok unfolding init_ok_def by blast
  have "slab_init E h opt s = seq (for_each init_slab [0..<nr_mslab s1 + nr_dslab s1] (map_slabs p s1)) (\<lambda>_ s. place_all E opt s)"
    using p by (simp add: slab_init_def Let_def s1_def nm_def)
  moreover have "ssd s1 = ssd s" "enable_background_gc s1 = enable_background_gc s" "slab_size s1 = ?sz" "index_locked s1 = index_locked s" "shutdown s1 = shutdown s"
    by (simp_all add: s1_def)
  ultimately show ?thesis using slab_loops_total [OF z, of bs p] walk unfolding total_iff by (auto simp: same_flags_def)
qed

lemma slab_class_init_ok:
  assumes "\<And>z. z \<in> set sizes \<Longrightarrow> 0 < z \<and> z \<le> sz - 44" and "length sizes < 2 ^ 31"
  shows "class_table_ok sz (slab_class_init sz sizes)"
  using assms nth_mem by (auto simp: class_table_ok_def slab_class_init_def)

lemma slots_per_slab_sum: "(\<Sum>sc \<leftarrow> slab_class_init sz sizes. sc_slots_per_slab sc) = (\<Sum>z \<leftarrow> sizes. sz div z)"
proof -
  have "map sc_slots_per_slab (slab_class_init sz sizes) = map (\<lambda>z. sz div z) sizes"
    by (rule nth_equalityI) (simp_all add: slab_class_init_def)
  then show ?thesis by simp
qed

text \<open>The constructor establishes the invariant, with nothing in the cache.\<close>

lemma KVCache_ctor_total:
  assumes ok: "init_ok E h d opt" and walk: "walk_ok (rdb E) d bs"
  shows "total (\<lambda>_ s. kv_inv E s \<and> cache E s = Map.empty \<and> \<not> index_locked s \<and> \<not> shutdown s \<and>
    int (nat (index_mem_budget opt) div 48) = nr_free_index_entry (index s)) (KVCache_ctor E h d opt)"
proof -
  define s0 where "s0 = set_water_marks opt ((kv_blank d opt)\<lparr>enable_background_flush := env_flag (env_var h ''KVCACHE_ENABLE_BACKGROUND_FLUSH'') (opt_background_flush opt),
    enable_background_gc := env_flag (env_var h ''KVCACHE_ENABLE_BACKGROUND_GC'') (opt_background_gc opt)\<rparr>)"
  have s0: "ssd s0 = d" "blank_lists s0" "\<not> index_locked s0" "\<not> shutdown s0"
    by (simp_all add: s0_def set_water_marks_def kv_blank_def Let_def blank_lists_def)
  let ?sz = "nat (block_size d)" and ?sizes = "class_sizes opt" and ?n = "nat (index_mem_budget opt) div 48"
  let ?tab = "slab_class_init ?sz ?sizes" and ?ix = "fresh_index ?n (nat (index_table_size opt))"
  obtain u t where t: "slab_init E h opt s0 = Ret u t" "ssd t = d" "\<not> index_locked t" "\<not> shutdown t"
    and fr: "unclassed E bs t" "slab_size t = ?sz"
    using slab_init_total [of E h s0 opt bs] ok walk s0 unfolding total_iff by auto
  have tab: "class_table_ok ?sz ?tab" using ok by (intro slab_class_init_ok) (auto simp: init_ok_def)
  have pos: "0 < nat (index_table_size opt)" "0 \<le> index_table_size opt" "index_mem_budget opt mod 2 ^ 64 = index_mem_budget opt" "?n < (\<Sum>z \<leftarrow> ?sizes. ?sz div z) \<longleftrightarrow> False" "mmap_index h k" for k
    using ok by (auto simp: init_ok_def)
  let ?s = "t\<lparr>slab_class_table := ?tab, index := ?ix\<rparr>"
  have "fresh_kv E bs ?s" using fr(1) tab pos(1) unfolding unclassed_def fr(2) by blast
  note inv = fresh_kv_inv [OF this]
  have "fold (\<lambda>i l. i # l) [0..<n] [] = rev [0..<n]" for n by (simp add: fold_Cons_rev)
  then have ii: "index_init h opt (t\<lparr>slab_class_table := ?tab\<rparr>) = Ret () ?s"
    using pos by (simp add: index_init_def Let_def sizeof_index_entry_def slots_per_slab_sum fresh_index_def)
  have "KVCache_ctor E h d opt = (if enable_background_gc ?s then slab_gc E ?s else Ret () ?s)"
    using t ii by (simp add: KVCache_ctor_def Let_def s0_def kv_blank_def)
  moreover have "cache E (?s\<lparr>slab_gc_thread_started := True\<rparr>) = cache E ?s" by (rule same_data_view(4)) simp
  ultimately show ?thesis
    using inv started_inv(2) [OF inv(1), of True] t(3,4) by (simp add: slab_gc_def) (simp add: fresh_index_def)
qed

end
