(* ===== verification/KV_Trace.thy ===== *)
theory KV_Trace
  imports KV_Live KV_Init
begin

text \<open>
  The life of a cache: client calls, rounds of the flush thread and rounds of the collector
  thread, in any order. A step is an operation that runs to its end; a \<^verbatim>\<open>Put\<close> that blocks for a
  free memory slab has only started the flush thread, and continues as a \<^verbatim>\<open>Put\<close> from the
  beginning once it is woken, so it appears as the step that starts the thread and a later \<open>Put\<close>.
  The specification is a map to which every successful \<^verbatim>\<open>Put\<close> adds its binding and from which every
  \<^verbatim>\<open>Delete\<close> removes one: the contents of the cache are always part of that map.
\<close>

subsection \<open>Runs of a step relation\<close>

inductive runs :: "('s \<Rightarrow> 'e \<Rightarrow> 's \<Rightarrow> bool) \<Rightarrow> 's \<Rightarrow> 'e list \<Rightarrow> 's \<Rightarrow> bool" for step where
  runs_Nil: "runs step s [] s"
| runs_snoc: "runs step s es t \<Longrightarrow> step t e u \<Longrightarrow> runs step s (es @ [e]) u"

text \<open>A system whose contents shrink at will but only grow by what an event puts in.\<close>

locale lossy_map =
  fixes step :: "'s \<Rightarrow> 'e \<Rightarrow> 's \<Rightarrow> bool"
    and ok :: "'s \<Rightarrow> bool"
    and contents :: "'s \<Rightarrow> 'k \<Rightarrow> 'v option"
    and effect :: "'e \<Rightarrow> ('k \<Rightarrow> 'v option) \<Rightarrow> 'k \<Rightarrow> 'v option"
  assumes step_ok: "ok s \<Longrightarrow> step s e t \<Longrightarrow> ok t"
    and step_contents: "ok s \<Longrightarrow> step s e t \<Longrightarrow> contents t \<subseteq>\<^sub>m effect e (contents s)"
    and effect_mono: "m \<subseteq>\<^sub>m m' \<Longrightarrow> effect e m \<subseteq>\<^sub>m effect e m'"
begin

lemma runs_ok: "runs step s es t \<Longrightarrow> ok s \<Longrightarrow> ok t"
  by (induction rule: runs.induct) (auto intro: step_ok)

lemma runs_contents:
  assumes "runs step s es t" and "ok s"
  shows "contents t \<subseteq>\<^sub>m fold effect es (contents s)"
  using assms
proof (induction rule: runs.induct)
  case runs_Nil
  then show ?case by (simp add: map_le_refl)
next
  case (runs_snoc s es t e u)
  have "contents u \<subseteq>\<^sub>m effect e (contents t)"
    using step_contents [OF runs_ok [OF runs_snoc.hyps(1) runs_snoc.prems] runs_snoc.hyps(2)] .
  also have "effect e (contents t) \<subseteq>\<^sub>m fold effect (es @ [e]) (contents s)"
    using effect_mono [OF runs_snoc.IH [OF runs_snoc.prems]] by simp
  finally (map_le_trans) show ?case .
qed

text \<open>What is in the contents was put there by an event of the run.\<close>

lemma runs_value:
  assumes "runs step s es t" and "ok s" and "contents t k = Some v"
  shows "fold effect es (contents s) k = Some v"
  using runs_contents [OF assms(1,2)] assms(3) unfolding map_le_def by (metis domI)

end

subsection \<open>Steps of the cache\<close>

datatype event =
    EvPut bytes bytes Status
  | EvGet bytes "Status \<times> bytes option"
  | EvDelete bytes
  | EvFlush
  | EvGC
  | EvWake
  | EvShutdown

inductive kv_step :: "'db env \<Rightarrow> 'db kv \<Rightarrow> event \<Rightarrow> 'db kv \<Rightarrow> bool" for E where
  step_put: "Put E fuel key v s = Ret st t \<Longrightarrow> kv_step E s (EvPut key v st) t"
| step_get: "Get E key s = Ret r t \<Longrightarrow> kv_step E s (EvGet key r) t"
| step_delete: "Delete E key s = Ret u t \<Longrightarrow> kv_step E s (EvDelete key) t"
| step_flush: "slab_flush_thread_started s \<Longrightarrow> do_slab_flush E fuel s = Ret go t \<Longrightarrow> kv_step E s EvFlush t"
| step_gc: "slab_gc_thread_started s \<Longrightarrow> do_slab_gc E s = Ret go t \<Longrightarrow> kv_step E s EvGC t"
| step_wake: "slab_flush E fuel s = Ret u t \<Longrightarrow> kv_step E s EvWake t"
| step_shutdown: "kv_step E s EvShutdown (KVCache_dtor s)"

inductive_cases kv_step_getE: "kv_step E s (EvGet key r) t"

inductive_simps kv_step_delete_simp: "kv_step E s (EvDelete key) t"

text \<open>The effect of an event on the specification.\<close>

fun effect :: "event \<Rightarrow> (bytes \<Rightarrow> bytes option) \<Rightarrow> bytes \<Rightarrow> bytes option" where
  "effect (EvPut key v st) m = (if Status_ok st then m(key \<mapsto> v) else m)"
| "effect (EvDelete key) m = m(key := None)"
| "effect _ m = m"

lemma same_data_shutdown: "same_data s (KVCache_dtor s)"
  by (simp add: same_data_def KVCache_dtor_def)

lemma kv_inv_shutdown:
  assumes "kv_inv E s"
  shows "kv_inv E (KVCache_dtor s)"
proof -
  have "slab_channel (KVCache_dtor s) = slab_channel s" "nch (KVCache_dtor s) = nch s"
    by (simp_all add: KVCache_dtor_def slab_channel_def nch_def fun_eq_iff)
  then show ?thesis
    using assms same_data_inv [OF same_data_shutdown, of E s] same_data_view(5) [OF same_data_shutdown, of s]
    by (simp add: kv_inv_def disk_inv_def mem_inv_def mem_lists_def partials_def placed_def on_lists_def
        is_dslab_def ops_in_range_def ptrs_ok_def gc_buffer_def) (simp add: KVCache_dtor_def)
qed

lemma Get_run:
  assumes "kv_inv E s" and "Get E key s = Ret r t"
  shows "t = s" and "r = (case cache E s key of None \<Rightarrow> (NotFound ''Key not found'', None) | Some v \<Rightarrow> (OK, Some v))"
proof -
  have "data_inv E s" using assms(1) by (simp add: kv_inv_def)
  from get_slice_safe [OF this, of key]
  have "t = s \<and> r = (case cache E s key of None \<Rightarrow> (NotFound ''Key not found'', None) | Some v \<Rightarrow> (OK, Some v))"
    using assms(2) by (cases "get_slice E key s") (auto simp: Get_def split: sum.splits option.splits)
  then show "t = s" "r = (case cache E s key of None \<Rightarrow> (NotFound ''Key not found'', None) | Some v \<Rightarrow> (OK, Some v))" by auto
qed

lemma deleted_le: "deleted E key s t \<Longrightarrow> cache E t \<subseteq>\<^sub>m (cache E s)(key := None)"
  by (auto simp: deleted_def del_map_def map_le_def dom_def split: if_splits)

lemma kv_step_sound:
  assumes hp: "heap_pick_ok E" and inv: "kv_inv E s" and st: "kv_step E s e t"
  shows "kv_inv E t \<and> cache E t \<subseteq>\<^sub>m effect e (cache E s)"
  using st
proof cases
  case (step_put fuel key v st)
  have "if st = OK then stored E key v s t else kv_inv E t \<and> refines E s t \<and> \<not> Status_ok st"
    using Put_safe [OF inv hp, of key v fuel] step_put(2) by (auto split: if_splits)
  then show ?thesis
    using stored_cache(2) [of E key v s t] refines_cache [of E s t] unfolding step_put(1)
    by (cases "st = OK") (auto simp: stored_def)
next
  case (step_get key r)
  then show ?thesis using Get_run [OF inv step_get(2)] inv by (simp add: map_le_refl)
next
  case (step_delete key u)
  have d: "deleted E key s t" using Delete_safe [OF inv, of key] step_delete(2) by simp
  then have "kv_inv E t" by (simp add: deleted_def)
  with deleted_le [OF d] show ?thesis by (simp add: step_delete(1))
next
  case (step_flush fuel go)
  then show ?thesis using do_slab_flush_safe [OF inv hp, of fuel] refines_cache [of E s t] by (simp add: flush_result_def)
next
  case (step_gc go)
  then show ?thesis using do_slab_gc_safe [OF inv hp] refines_cache [of E s t] by (simp add: gc_result_def)
next
  case (step_wake fuel u)
  then show ?thesis using slab_flush_safe [OF inv hp, of fuel] refines_cache [of E s t] by (simp add: flush_result_def)
next
  case step_shutdown
  then show ?thesis using kv_inv_shutdown [OF inv] same_data_view(4) [OF same_data_shutdown, of E s] by (simp add: map_le_refl)
qed

text \<open>The cache is a lossy map.\<close>

interpretation kv: lossy_map "kv_step E" "\<lambda>s. heap_pick_ok E \<and> kv_inv E s" "cache E" effect for E
proof unfold_locales
  fix s t :: "'a kv" and e
  assume "heap_pick_ok E \<and> kv_inv E s" and "kv_step E s e t"
  then show "heap_pick_ok E \<and> kv_inv E t" "cache E t \<subseteq>\<^sub>m effect e (cache E s)" using kv_step_sound by blast+
next
  fix m m' :: "bytes \<Rightarrow> bytes option" and e
  assume "m \<subseteq>\<^sub>m m'"
  then show "effect e m \<subseteq>\<^sub>m effect e m'"
    by (cases e) (auto simp: map_le_def dom_def split: if_splits)
qed

text \<open>A value that \<^verbatim>\<open>Get\<close> returns is the last one that was put under the key, and not deleted since.\<close>

lemma trace_get:
  assumes hp: "heap_pick_ok E" and inv: "kv_inv E s" and run: "runs (kv_step E) s es t"
    and get: "Get E key t = Ret (OK, Some v) u"
  shows "fold effect es (cache E s) key = Some v"
proof -
  have i: "heap_pick_ok E \<and> kv_inv E s" using hp inv by simp
  have "kv_inv E t" using kv.runs_ok [OF run i] by simp
  then have "cache E t key = Some v" using Get_run(2) [OF _ get] by (auto split: option.splits)
  then show ?thesis by (rule kv.runs_value [OF run i])
qed

end
