(* ===== verification/KV_Threads.thy ===== *)
theory KV_Threads
  imports KV_Trace
begin

text \<open>
  The threads of the cache, interleaved between their critical sections. A client that runs
  \<^verbatim>\<open>Put\<close> holds \<^verbatim>\<open>writer_mutex_\<close>, so there is one at a time; the flush thread runs \<^verbatim>\<open>do_slab_flush\<close>. Both
  are cut where they hold none of the mutexes that the others need: the object is in its slot
  but not in the index; a full slab is on no list; the block is written but the index still points
  to memory. Lookups, deletions and rounds of the collector come in between. Each thread has an
  assertion for the point it has reached, which says what it holds, and every step of the others
  leaves alone what it holds.
\<close>

subsection \<open>The steps of Put\<close>

text \<open>Going on after the wait for an index entry: \<^verbatim>\<open>index_mutex_\<close> is held again, the loop tries again.\<close>

definition put_resume :: "'db env \<Rightarrow> nat \<Rightarrow> bytes \<Rightarrow> loc \<Rightarrow> 'db kv \<Rightarrow> (unit, 'db kv) outcome" where
  "put_resume E fuel key l s =
     seq (lock_index s) (\<lambda>_ s. seq (put_new_entry E fuel key l s) (\<lambda>_ s. Ret () (unlock_index s)))"

text \<open>
  Where the client is: outside, inside with \<^verbatim>\<open>writer_mutex_\<close>, waiting for a free memory slab, with the
  object in slot \<open>n\<close> of slab \<open>m\<close>, waiting for an index entry, with the index updated.
\<close>

datatype put_phase =
    PIdle
  | PCalled bytes bytes
  | PWaiting bytes bytes
  | PWritten bytes bytes nat nat
  | PNoEntry bytes bytes nat nat
  | PIndexed nat

fun put_next :: "'db env \<Rightarrow> nat \<Rightarrow> put_phase \<Rightarrow> 'db kv \<Rightarrow> (put_phase \<times> event, 'db kv) outcome" where
  "put_next E fuel PIdle s = Ret (PIdle, EvWake) s"
| "put_next E fuel (PCalled key v) s =
     seq (put_begin E fuel key v s) (\<lambda>r s.
     case r of
       Inl st \<Rightarrow> Ret (PIdle, EvPut key v st) s
     | Inr (m, l) \<Rightarrow> Ret (PWritten key v m (snd l), EvWake) s)"
| "put_next E fuel (PWaiting key v) s =
     seq (wait_slab_flush_until_shutdown s) (\<lambda>go s.
     Ret (if go then (PCalled key v, EvWake)
          else (PIdle, EvPut key v (Shutdown ''KVCache is shutting down''))) s)"
| "put_next E fuel (PWritten key v m n) s =
     seq (put_index E fuel key (m, n) s) (\<lambda>_ s. Ret (PIndexed m, EvPut key v OK) s)"
| "put_next E fuel (PNoEntry key v m n) s =
     seq (put_resume E fuel key (m, n) s) (\<lambda>_ s. Ret (PIndexed m, EvPut key v OK) s)"
| "put_next E fuel (PIndexed m) s =
     seq (retire_full E fuel m s) (\<lambda>_ s. Ret (PIdle, EvWake) s)"

text \<open>Where the client waits when a step blocks.\<close>

fun put_blocked :: "put_phase \<Rightarrow> put_phase" where
  "put_blocked (PCalled key v) = PWaiting key v"
| "put_blocked (PWritten key v m n) = PNoEntry key v m n"
| "put_blocked p = p"

subsection \<open>The steps of the flush thread\<close>

definition flush_take :: "'db kv \<Rightarrow> (nat option, 'db kv) outcome" where
  "flush_take s =
     (if shutdown s then Ret None s
      else case items (mslab_full s) of
        [] \<Rightarrow> Wait ''flush_signal_'' s
      | m # _ \<Rightarrow>
          seq (check (cid (slabs s ! m) \<noteq> -1) ''mslab->cid != -1'' s) (\<lambda>_ s.
          Ret (Some m) (s\<lparr>mslab_full := slist_del m (mslab_full s)\<rparr>)))"

text \<open>A round over the channels, and the start of the collector when there is no free disk slab.\<close>

definition flush_scan :: "'db env \<Rightarrow> 'db kv \<Rightarrow> ((nat \<times> nat) option, 'db kv) outcome" where
  "flush_scan E s =
     seq (take_free_dslab (nat (nr_channels (ssd s))) (next_mslab_flush_channel s) s) (\<lambda>r s.
     case r of
       Some dc \<Rightarrow> Ret (Some dc) s
     | None \<Rightarrow> seq (slab_gc E s) (\<lambda>_ s. Ret None s))"

definition flush_write :: "'db env \<Rightarrow> nat \<Rightarrow> nat \<Rightarrow> nat \<Rightarrow> 'db kv \<Rightarrow> (unit, 'db kv) outcome" where
  "flush_write E m d c s =
     seq (check (int c < nr_channels (ssd s)) ''dslab_channel < nr_channels_'' s) (\<lambda>_ s.
     seq (flush_mslab_to_dslab E m d s) (\<lambda>_ s.
     seq (check (cid (slabs s ! d) = cid (slabs s ! m)) ''dslab->cid == mslab->cid'' s) (\<lambda>_ s.
     check (cid (slabs s ! d) \<noteq> -1) ''dslab->cid != -1'' s)))"

definition flush_index :: "'db env \<Rightarrow> nat \<Rightarrow> nat \<Rightarrow> 'db kv \<Rightarrow> (unit, 'db kv) outcome" where
  "flush_index E m d s =
     seq (lock_index s) (\<lambda>_ s. seq (modify_index_to E m d s) (\<lambda>_ s. Ret () (unlock_index s)))"

definition flush_free :: "nat \<Rightarrow> 'db kv \<Rightarrow> 'db kv" where
  "flush_free m s = (let s = upd_slab m slab_reset s in s\<lparr>mslab_free := slist_add m (mslab_free s)\<rparr>)"

definition flush_full :: "nat \<Rightarrow> nat \<Rightarrow> 'db kv \<Rightarrow> 'db kv" where
  "flush_full d c s = s\<lparr>dslab_full := chan_add c d (dslab_full s), nr_full_dslab := nr_full_dslab s + 1\<rparr>"

datatype flush_phase =
    FIdle
  | FTaken nat
  | FWaiting nat
  | FFound nat nat nat
  | FWritten nat nat nat
  | FMoved nat nat nat
  | FFreed nat nat

fun flush_next :: "'db env \<Rightarrow> flush_phase \<Rightarrow> 'db kv \<Rightarrow> (flush_phase, 'db kv) outcome" where
  "flush_next E FIdle s =
     seq (flush_take s) (\<lambda>r s. Ret (case r of None \<Rightarrow> FIdle | Some m \<Rightarrow> FTaken m) s)"
| "flush_next E (FTaken m) s =
     seq (flush_scan E s) (\<lambda>r s. Ret (case r of None \<Rightarrow> FWaiting m | Some (d, c) \<Rightarrow> FFound m d c) s)"
| "flush_next E (FWaiting m) s =
     seq (wait_slab_gc_until_shutdown s) (\<lambda>go s. Ret (if go then FTaken m else FIdle) s)"
| "flush_next E (FFound m d c) s = seq (flush_write E m d c s) (\<lambda>_ s. Ret (FWritten m d c) s)"
| "flush_next E (FWritten m d c) s = seq (flush_index E m d s) (\<lambda>_ s. Ret (FMoved m d c) s)"
| "flush_next E (FMoved m d c) s = Ret (FFreed d c) (flush_free m s)"
| "flush_next E (FFreed d c) s = Ret FIdle (flush_full d c s)"

text \<open>The steps in a row are \<^verbatim>\<open>do_slab_flush\<close>.\<close>

lemma flush_to_steps:
  "flush_to E m d c s =
     seq (flush_write E m d c s) (\<lambda>_ s. seq (flush_index E m d s) (\<lambda>_ s. Ret True (flush_full d c (flush_free m s))))"
  by (simp add: flush_to_def flush_write_def flush_index_def seq_assoc finish_flush_def flush_full_def flush_free_def Let_def)

lemma find_dslab_steps:
  "find_dslab E (Suc n) s =
     seq (flush_scan E s) (\<lambda>r s.
     case r of
       Some dc \<Rightarrow> Ret (Some dc) s
     | None \<Rightarrow> seq (wait_slab_gc_until_shutdown s) (\<lambda>go s. if \<not> go then Ret None s else find_dslab E n s))"
  by (cases "take_free_dslab (nat (nr_channels (ssd s))) (next_mslab_flush_channel s) s")
    (simp_all add: flush_scan_def seq_assoc split: option.split)

lemma do_slab_flush_steps:
  "do_slab_flush E fuel s =
     seq (flush_take s) (\<lambda>r s.
     case r of
       None \<Rightarrow> Ret False s
     | Some m \<Rightarrow> seq (find_dslab E fuel s) (\<lambda>r s. case r of None \<Rightarrow> Ret False s | Some (d, c) \<Rightarrow> flush_to E m d c s))"
  by (simp add: do_slab_flush_def flush_take_def seq_assoc split: list.split)

subsection \<open>The system\<close>

record 'db sys =
  kv_of :: "'db kv"
  put_at :: put_phase
  flush_at :: flush_phase

inductive sys_step :: "'db env \<Rightarrow> 'db sys \<Rightarrow> event \<Rightarrow> 'db sys \<Rightarrow> bool" for E where
  sys_call: "put_at S = PIdle \<Longrightarrow> sys_step E S EvWake (S\<lparr>put_at := PCalled key v\<rparr>)"
| sys_put: "put_next E fuel (put_at S) (kv_of S) = Ret (p, e) t \<Longrightarrow> sys_step E S e (S\<lparr>kv_of := t, put_at := p\<rparr>)"
| sys_put_wait: "put_next E fuel (put_at S) (kv_of S) = Wait w t \<Longrightarrow>
    sys_step E S EvWake (S\<lparr>kv_of := t, put_at := put_blocked (put_at S)\<rparr>)"
| sys_flush: "slab_flush_thread_started (kv_of S) \<Longrightarrow> flush_next E (flush_at S) (kv_of S) = Ret f t \<Longrightarrow>
    sys_step E S EvFlush (S\<lparr>kv_of := t, flush_at := f\<rparr>)"
| sys_gc: "slab_gc_thread_started (kv_of S) \<Longrightarrow> do_slab_gc E (kv_of S) = Ret go t \<Longrightarrow> sys_step E S EvGC (S\<lparr>kv_of := t\<rparr>)"
| sys_get: "Get E key (kv_of S) = Ret r t \<Longrightarrow> sys_step E S (EvGet key r) (S\<lparr>kv_of := t\<rparr>)"
| sys_delete: "Delete E key (kv_of S) = Ret u t \<Longrightarrow> sys_step E S (EvDelete key) (S\<lparr>kv_of := t\<rparr>)"
| sys_shutdown: "sys_step E S EvShutdown (S\<lparr>kv_of := KVCache_dtor (kv_of S)\<rparr>)"

subsection \<open>What a thread holds\<close>

definition mem_held :: "nat \<Rightarrow> 'db kv \<Rightarrow> bool" where
  "mem_held m s \<longleftrightarrow> m < gc_buffer s \<and> m \<notin># mem_lists s \<and> cid (slabs s ! m) \<noteq> -1"

definition disk_held :: "nat \<Rightarrow> nat \<Rightarrow> 'db kv \<Rightarrow> bool" where
  "disk_held d c s \<longleftrightarrow> is_dslab s d \<and> d \<notin># on_lists s \<and> c = slab_channel s d"

fun flush_ok :: "'db env \<Rightarrow> flush_phase \<Rightarrow> 'db kv \<Rightarrow> bool" where
  "flush_ok E FIdle s = True"
| "flush_ok E (FTaken m) s = mem_held m s"
| "flush_ok E (FWaiting m) s = mem_held m s"
| "flush_ok E (FFound m d c) s = (mem_held m s \<and> disk_held d c s \<and> nr_alloc (slabs s ! d) = 0)"
| "flush_ok E (FWritten m d c) s =
     (mem_held m s \<and> disk_held d c s \<and> mirror E s m d \<and> live s d = {} \<and> cid (slabs s ! d) = cid (slabs s ! m))"
| "flush_ok E (FMoved m d c) s = (mem_held m s \<and> disk_held d c s \<and> live s m = {} \<and> cid (slabs s ! d) \<noteq> -1)"
| "flush_ok E (FFreed d c) s = (disk_held d c s \<and> cid (slabs s ! d) \<noteq> -1)"

definition put_held :: "nat \<Rightarrow> 'db kv \<Rightarrow> bool" where
  "put_held m s \<longleftrightarrow> m < gc_buffer s \<and> cid (slabs s ! m) \<noteq> -1 \<and> (is_full (slabs s ! m) \<longrightarrow> m \<notin># mem_lists s) \<and>
     m \<notin> set (items (mslab_free s)) \<and> m \<notin> set (items (mslab_full s))"

fun put_ok :: "'db env \<Rightarrow> put_phase \<Rightarrow> 'db kv \<Rightarrow> bool" where
  "put_ok E (PWritten key v m n) s = (pending E key v m n s \<and> put_held m s)"
| "put_ok E (PNoEntry key v m n) s = (pending E key v m n s \<and> put_held m s \<and> view s (hk E s key) = None)"
| "put_ok E (PIndexed m) s = put_held m s"
| "put_ok E _ s = True"

fun put_mem :: "put_phase \<Rightarrow> nat set" where
  "put_mem (PWritten key v m n) = {m}"
| "put_mem (PNoEntry key v m n) = {m}"
| "put_mem (PIndexed m) = {m}"
| "put_mem _ = {}"

fun flush_mem :: "flush_phase \<Rightarrow> nat set" where
  "flush_mem (FTaken m) = {m}"
| "flush_mem (FWaiting m) = {m}"
| "flush_mem (FFound m d c) = {m}"
| "flush_mem (FWritten m d c) = {m}"
| "flush_mem (FMoved m d c) = {m}"
| "flush_mem _ = {}"

fun flush_disk :: "flush_phase \<Rightarrow> nat set" where
  "flush_disk (FFound m d c) = {d}"
| "flush_disk (FWritten m d c) = {d}"
| "flush_disk (FMoved m d c) = {d}"
| "flush_disk (FFreed d c) = {d}"
| "flush_disk _ = {}"

text \<open>A step that leaves alone the memory slabs \<open>M\<close> and the disk slabs \<open>D\<close>: what the other threads rely on.\<close>

definition leaves :: "'db env \<Rightarrow> nat set \<Rightarrow> nat set \<Rightarrow> 'db kv \<Rightarrow> 'db kv \<Rightarrow> bool" where
  "leaves E M D s s' \<longleftrightarrow> gc_buffer s' = gc_buffer s \<and> slab_channel s' = slab_channel s \<and> is_dslab s' = is_dslab s \<and>
     length (slabs s') = length (slabs s) \<and>
     (\<forall>i \<in> M \<union> D. kept E i s s') \<and>
     (\<forall>m \<in> M. (m \<in># mem_lists s' \<longrightarrow> m \<in># mem_lists s) \<and>
        (m \<in> set (items (mslab_free s')) \<longrightarrow> m \<in> set (items (mslab_free s))) \<and>
        (m \<in> set (items (mslab_full s')) \<longrightarrow> m \<in> set (items (mslab_full s)))) \<and>
     (\<forall>d \<in> D. d \<in># on_lists s' \<longrightarrow> d \<in># on_lists s)"

lemma kept_content: "kept E i s s' \<Longrightarrow> content E s' (i, j) = content E s (i, j)"
  by (simp add: kept_def content_def slab_slot_def)

lemma flush_stable:
  assumes "flush_ok E f s" and l: "leaves E (flush_mem f) (flush_disk f) s s'" and fin: "\<And>i. finite (live s i)"
  shows "flush_ok E f s'"
proof -
  have mem: "mem_held m s'" if "m \<in> flush_mem f" "mem_held m s" for m
    using that l by (auto simp: leaves_def mem_held_def kept_def)
  have disk: "disk_held d c s'" if "d \<in> flush_disk f" "disk_held d c s" for d c
    using that l by (auto simp: leaves_def disk_held_def)
  have k: "kept E i s s'" if "i \<in> flush_mem f \<union> flush_disk f" for i using l that by (simp add: leaves_def)
  have mir: "mirror E s' m d" if "kept E m s s'" "kept E d s s'" "mirror E s m d" "live s d = {}" for m d
  proof -
    have "card (live s' m) \<le> card (live s m)" by (rule card_mono [OF fin]) (use that in \<open>simp add: kept_def\<close>)
    moreover have "nr_used (slabs s ! d) \<le> nr_used (slabs s' ! d)" using that(2,4) by (auto simp: kept_def slack_def)
    ultimately show ?thesis
      using that kept_content [OF that(1)] kept_content [OF that(2)] by (simp add: mirror_def kept_def)
  qed
  have same: "cid (slabs s' ! i) = cid (slabs s ! i)" "nr_alloc (slabs s' ! i) = nr_alloc (slabs s ! i)"
    "live s i = {} \<Longrightarrow> live s' i = {}" if "i \<in> flush_mem f \<union> flush_disk f" for i
    using k [OF that] by (auto simp: kept_def)
  show ?thesis
    using assms(1) mem disk same k mir by (cases f) simp_all
qed

lemma put_stable:
  assumes "put_ok E p s" and l: "leaves E (put_mem p) D s s'" and "data_inv E s'" and r: "refines E s s'"
  shows "put_ok E p s'"
proof -
  have held: "put_held m s'" if "m \<in> put_mem p" "put_held m s" for m
    using that l by (auto simp: leaves_def put_held_def kept_def is_full_def)
  have pend: "pending E key v m n s'" if "m \<in> put_mem p" "pending E key v m n s" for key v m n
  proof -
    have k: "kept E m s s'" and len: "length (slabs s') = length (slabs s)" using l that by (simp_all add: leaves_def)
    then show ?thesis
      using that assms(3) kept_content [OF k] by (simp add: pending_def kept_def slack_def)
  qed
  have "view s' (hk E s' key) = None" if "view s (hk E s key) = None" for key
    using that r refines_hk [OF r] by (cases "view s' (hk E s key)") (auto dest: refinesD [OF r])
  then show ?thesis using assms(1) held pend by (cases p) auto
qed

subsection \<open>Lookups, deletions and collections\<close>

lemma same_data_kept: "same_data s s' \<Longrightarrow> kept E i s s'"
  using same_data_view(1,5) [of s s'] by (simp add: kept_def slack_def same_data_def)

lemma leavesI:
  assumes "same_place s s'" and "\<And>i. i \<in> M \<union> D \<Longrightarrow> kept E i s s'"
    and "\<And>m. m \<in> M \<Longrightarrow> m \<in># mem_lists s' \<Longrightarrow> m \<in># mem_lists s"
    and "\<And>m. m \<in> M \<Longrightarrow> m \<in> set (items (mslab_free s')) \<Longrightarrow> m \<in> set (items (mslab_free s))"
    and "\<And>m. m \<in> M \<Longrightarrow> m \<in> set (items (mslab_full s')) \<Longrightarrow> m \<in> set (items (mslab_full s))"
    and "\<And>d. d \<in> D \<Longrightarrow> d \<in># on_lists s' \<Longrightarrow> d \<in># on_lists s"
  shows "leaves E M D s s'"
proof -
  have "gc_buffer s' = gc_buffer s" "slab_channel s' = slab_channel s" "is_dslab s' = is_dslab s" "length (slabs s') = length (slabs s)"
    using assms(1) by (simp_all add: same_place_def gc_buffer_def is_dslab_def fun_eq_iff)
  then show ?thesis unfolding leaves_def using assms(2-) by blast
qed

lemma place_leaves:
  assumes "same_place s s'" and "\<And>i. i \<in> M \<union> D \<Longrightarrow> kept E i s s'" and "mslab_free s' = mslab_free s"
    and "mslab_full s' = mslab_full s" and "slab_class_table s' = slab_class_table s"
    and "set_mset (on_lists s') \<subseteq> set_mset (on_lists s)"
  shows "leaves E M D s s'"
  using assms by (intro leavesI) (auto simp: mem_lists_def partials_def)

lemma calm_leaves: "calm s s' \<Longrightarrow> (\<And>i. i \<in> M \<union> D \<Longrightarrow> kept E i s s') \<Longrightarrow> leaves E M D s s'"
  by (rule place_leaves) (auto simp: calm_def same_lists_def on_lists_def)

lemma list_move_leaves: "list_move s s' \<Longrightarrow> set_mset (on_lists s') \<subseteq> set_mset (on_lists s) \<Longrightarrow> leaves E M D s s'"
  by (rule place_leaves) (auto simp: list_move_def intro: same_data_kept)

lemma started_move: "list_move s (s\<lparr>slab_flush_thread_started := a\<rparr>)" "list_move s (s\<lparr>slab_gc_thread_started := b\<rparr>)"
  by (simp_all add: list_move_def same_data_def same_place_def ptrs_ok_def)

lemma gc_leaves:
  assumes inv: "kv_inv E s" and g: "gc_result E s t" and M: "\<And>m. m \<in> M \<Longrightarrow> m < gc_buffer s"
    and D: "\<And>d. d \<in> D \<Longrightarrow> is_dslab s d \<and> d \<notin># on_lists s"
  shows "leaves E M D s t"
proof (rule place_leaves)
  fix i assume i: "i \<in> M \<union> D"
  have "i < length (slabs s) \<and> i \<notin> gc_reach s"
  proof (cases "i \<in> M")
    case True
    then show ?thesis using mem_gc_reach [OF inv M] by blast
  next
    case False
    then have "is_dslab s i" "i \<notin># on_lists s" using D i by auto
    then show ?thesis
      using inv gc_buffer_mem [of E s] by (auto simp: gc_reach_def is_dslab_def kv_inv_def data_inv_def)
  qed
  then show "kept E i s t" using apartD g by (auto simp: gc_result_def)
qed (use g set_mset_mono [of "on_lists t" "on_lists s"] in \<open>auto simp: gc_result_def\<close>)

end
