(* ===== verification/KV_FlushSteps.thy ===== *)
theory KV_FlushSteps
  imports KV_Threads
begin

text \<open>
  The flush thread between other threads: every step keeps the invariant and the contents, brings
  the thread to its next assertion, and leaves alone the slabs a client holds.
\<close>

subsection \<open>The flush thread, step by step\<close>

lemma disk_inv_held: "disk_inv [d] {} s \<longleftrightarrow> disk_inv [] {} s \<and> is_dslab s d \<and> d \<notin># on_lists s"
proof
  assume di: "disk_inv [d] {} s"
  then show "disk_inv [] {} s \<and> is_dslab s d \<and> d \<notin># on_lists s"
    using disk_inv_forget [OF di] disk_invD(10) [OF di] held_unlisted(2-4) [OF di] by (simp add: on_lists_def)
next
  assume "disk_inv [] {} s \<and> is_dslab s d \<and> d \<notin># on_lists s"
  moreover from this have "count (placed [d] s) x \<le> 1" for x
    by (auto simp: disk_inv_def placed_def not_in_iff)
  ultimately show "disk_inv [d] {} s" by (auto simp: disk_inv_def placed_def)
qed

lemma kv_held_one: "kv_held E [d] s \<longleftrightarrow> kv_inv E s \<and> is_dslab s d \<and> d \<notin># on_lists s"
  by (auto simp: kv_held_def kv_inv_def disk_inv_held)

text \<open>The state after a step of the flush thread, for a client that holds the slabs \<open>M\<close>.\<close>

definition flush_went :: "'db env \<Rightarrow> nat set \<Rightarrow> 'db kv \<Rightarrow> flush_phase \<Rightarrow> 'db kv \<Rightarrow> bool" where
  "flush_went E M s f t \<longleftrightarrow> kv_inv E t \<and> keeps E s t \<and> same_place s t \<and> index_locked t = index_locked s \<and>
     flush_ok E f t \<and> leaves E M {} s t \<and> M \<inter> flush_mem f = {}"

lemma flush_take_went:
  assumes inv: "kv_inv E s" and M: "\<And>m. m \<in> M \<Longrightarrow> put_held m s"
  shows "safe (\<lambda>_. True) (\<lambda>f t. flush_went E M s f t) (flush_next E FIdle s)"
proof (cases "shutdown s \<or> items (mslab_full s) = []")
  case True
  have "leaves E M {} s s" by (simp add: leaves_def)
  then show ?thesis using True inv by (auto simp: flush_take_def flush_went_def)
next
  case False
  then obtain m ms where m: "items (mslab_full s) = m # ms" by (cases "items (mslab_full s)") auto
  let ?t = "s\<lparr>mslab_full := slist_del m (mslab_full s)\<rparr>"
  have mem: "m \<in> set (items (mslab_full s))" and mi: "mem_inv [] s" using m inv by (simp_all add: kv_inv_def)
  note un = kv_inv_unlist_full [OF inv mem] and mt = mem_inv_take_full [OF mi mem]
  have k: "kept E i s ?t" for i by (rule same_data_kept) simp
  have "mem_lists s = add_mset m (mem_lists ?t)" using m by (simp add: mem_lists_def partials_def)
  then have "leaves E M {} s ?t"
    using un k m by (auto simp: leaves_def same_place_def on_lists_def is_dslab_def fun_eq_iff)
  moreover have "M \<inter> {m} = {}" using M mem by (auto simp: put_held_def)
  moreover have "mem_held m ?t" using mt un(4) by (simp add: mem_held_def)
  ultimately show ?thesis using False m mt(4) un by (simp add: flush_take_def flush_went_def)
qed

lemma flush_scan_went:
  assumes inv: "kv_inv E s" and bg: "enable_background_gc s" and m: "mem_held m s" "m \<notin> M"
  shows "safe (\<lambda>_. True) (\<lambda>f t. flush_went E M s f t) (flush_next E (FTaken m) s)"
proof -
  have pr: "data_inv E s" "disk_inv [] {} s" "next_mslab_flush_channel s < nch s"
    using inv by (simp_all add: kv_inv_def ptrs_ok_def)
  obtain r t where r: "take_free_dslab (nat (nr_channels (ssd s))) (next_mslab_flush_channel s) s = Ret r t" "took r s t"
    using take_free_dslab_ok [OF pr] by blast
  have lm: "list_move s t" and op: "ops_pool_size t = ops_pool_size s" using r(2) by (simp_all add: took_def)
  have held: "kv_held E [] s" using inv by (simp add: kv_held_Nil)
  note k = took_found(2) [OF inv r(2)]
  have fr: "same_place s t" "index_locked t = index_locked s" using lm by (simp_all add: list_move_def)
  have mt: "mem_held m t"
    using m lm by (simp add: mem_held_def list_move_def same_data_def gc_buffer_def mem_lists_def partials_def)
  show ?thesis
  proof (cases r)
    case None
    let ?u = "t\<lparr>slab_gc_thread_started := True\<rparr>"
    have "disk_inv [] {} t" and ot: "on_lists t \<subseteq># on_lists s" using r(2) None by (simp_all add: took_def)
    then have t: "kv_inv E t" using kv_held_move [OF held lm _ op, of "[]"] by (simp add: kv_held_Nil)
    have lu: "list_move s ?u" by (rule list_move_trans [OF lm started_move(2)])
    have "leaves E M {} s ?u" by (rule list_move_leaves [OF lu]) (use set_mset_mono [OF ot] in \<open>simp add: on_lists_def\<close>)
    moreover have "mem_held m ?u" using mt by (simp add: mem_held_def mem_lists_def partials_def gc_buffer_def)
    moreover have "enable_background_gc t" using bg fr by (simp add: same_place_def)
    ultimately show ?thesis
      using r None started_inv(2) [OF t] list_move_data(2) [OF lu] lu m(2)
      by (simp add: flush_scan_def slab_gc_def flush_went_def list_move_def)
  next
    case (Some dc)
    obtain d c where dc: "dc = (d, c)" by (cases dc)
    have tk: "disk_inv [d] {} t" "placed [d] t \<subseteq># on_lists s" "c = slab_channel s d" "nr_alloc (slabs s ! d) = 0"
      using r(2) by (simp_all add: took_def Some dc)
    have h: "kv_held E [d] t" by (rule kv_held_move [OF held lm tk(1) op])
    then have t: "kv_inv E t" "is_dslab t d" "d \<notin># on_lists t" by (simp_all add: kv_held_one)
    have "set_mset (on_lists t) \<subseteq> set_mset (on_lists s)"
      using set_mset_mono [OF tk(2)] by (auto simp: placed_def)
    from list_move_leaves [OF lm this] have "leaves E M {} s t" .
    moreover have "disk_held d c t" "nr_alloc (slabs t ! d) = 0"
      using t tk(3,4) fr list_move_data(3) [OF lm] by (simp_all add: disk_held_def same_place_def)
    ultimately show ?thesis
      using r Some dc t mt k fr m(2) by (simp add: flush_scan_def flush_went_def)
  qed
qed

text \<open>Writing the header of a disk slab that is on no list.\<close>

lemma held_frame:
  assumes inv: "kv_inv E s" and data: "data_inv E t" and sp: "same_place s t" and sl: "same_lists s t"
    and d: "is_dslab s d" "d \<notin># on_lists s" and same: "\<And>i. i \<noteq> d \<Longrightarrow> slabs t ! i = slabs s ! i" and lv: "live t = live s"
  shows "kv_inv E t"
proof -
  have di: "disk_inv [] {} s" and mi: "mem_inv [] s" using inv by (simp_all add: kv_inv_def)
  have on: "slabs t ! i = slabs s ! i" if "i \<in># on_lists s" for i using same [of i] d(2) that by (cases "i = d") auto
  have "disk_inv [] {} t"
    by (rule disk_inv_frame [OF di sp sl]) (use on disk_invD(6,7,9) [OF di] in \<open>auto simp: on_lists_def\<close>)
  moreover have "d \<notin># mem_lists s" using mem_lists_dslab [OF mi] d(1) by blast
  then have "mem_inv [] t" by (intro mem_inv_frame [OF mi sp sl]) (use same in metis)
  ultimately show ?thesis
    using inv data sp sl lv by (simp add: kv_inv_def same_place_def same_lists_def ops_in_range_def gc_buffer_def)
qed

lemma flush_write_went:
  assumes inv: "kv_inv E s" and m: "mem_held m s" "m \<notin> M" and d: "disk_held d c s" "nr_alloc (slabs s ! d) = 0"
    and M: "\<And>i. i \<in> M \<Longrightarrow> i < gc_buffer s"
  shows "safe (\<lambda>_. True) (\<lambda>f t. flush_went E M s f t) (flush_next E (FFound m d c) s)"
proof -
  have data: "data_inv E s" using inv by (simp add: kv_inv_def)
  note g = data_invD(1) [OF data]
  have mm: "m < nr_mslab s" using m gc_buffer_mem [OF g] by (simp add: mem_held_def)
  have dd: "nr_mslab s \<le> d" "d < length (slabs s)" "is_dslab s d" "d \<notin># on_lists s" using d by (auto simp: disk_held_def is_dslab_def)
  have c: "int c < nr_channels (ssd s)" using slab_channel_less [OF g dd(3)] d by (simp add: disk_held_def nch_def)
  have went: "flush_went E M s (FWritten m d c) t"
    if q: "data_inv E t \<and> keeps E s t \<and> flushed E m d s t" for t
  proof -
    have f: "flushed E m d s t" using q by blast
    note fm = flushed_mirror [OF f data mm dd(1,2)]
    have kv: "kv_inv E t" by (rule held_frame [OF inv _ fm(3,4) dd(3,4) fm(7,6)]) (use q in simp)
    have "kept E i s t" if "i \<in> M" for i
    proof -
      have "i < length (slabs s)" "i \<noteq> d" using M [OF that] gc_buffer_mem [OF g] dd by auto
      then show ?thesis using fm(6,7,9) by (simp add: kept_def slack_def)
    qed
    then have "leaves E M {} s t"
      by (intro place_leaves [OF fm(3)]) (use fm(4) in \<open>auto simp: same_lists_def on_lists_def\<close>)
    moreover have "mem_held m t" "disk_held d c t"
      using m d fm(3,4,7) mm dd
      by (auto simp: mem_held_def disk_held_def same_place_def same_lists_def gc_buffer_def mem_lists_def partials_def on_lists_def is_dslab_def)
    moreover have "live t d = {}" using live_empty_alloc [OF data d(2)] fm(6) by simp
    moreover have "cid (slabs t ! d) = cid (slabs t ! m)" by (rule flushed_cids(1) [OF f data mm dd(3)])
    ultimately show ?thesis using kv q fm(1,3,5) m(2) by (simp add: flush_went_def)
  qed
  have cids: "cid (slabs t ! d) = cid (slabs t ! m) \<and> cid (slabs t ! d) \<noteq> -1" if "flushed E m d s t" for t
    using flushed_cids [OF that data mm dd(3)] m(1) by (simp add: mem_held_def)
  have "safe (\<lambda>_. True) (\<lambda>_ t. (cid (slabs t ! d) = cid (slabs t ! m) \<and> cid (slabs t ! d) \<noteq> -1) \<and>
      flush_went E M s (FWritten m d c) t) (flush_mslab_to_dslab E m d s)"
    by (rule safe_mono [OF flush_mslab_to_dslab_safe [OF data mm dd(1,2) d(2)]]) (use went cids in blast)+
  then show ?thesis using c by (simp add: flush_write_def)
qed

lemma flush_index_went:
  assumes inv: "kv_inv E s" and f: "flush_ok E (FWritten m d c) s" and M: "m \<notin> M" "\<And>i. i \<in> M \<Longrightarrow> i < gc_buffer s"
  shows "safe (\<lambda>_. True) (\<lambda>f t. flush_went E M s f t) (flush_next E (FWritten m d c) s)"
proof -
  have data: "data_inv E s" using inv by (simp add: kv_inv_def)
  note g = data_invD(1) [OF data]
  have m: "mem_held m s" "m < nr_mslab s" and d: "disk_held d c s" "d < length (slabs s)" "d \<noteq> m" "nr_mslab s \<le> d"
    and mir: "mirror E s m d" "live s d = {}" and ci: "cid (slabs s ! d) = cid (slabs s ! m)"
    using f gc_buffer_mem [OF g] by (auto simp: mem_held_def disk_held_def is_dslab_def)
  have went: "flush_went E M s (FMoved m d c) t" if r: "relocated E m d s t" for t
  proof -
    have calm: "calm s t" and dt: "data_inv E t" and k: "keeps E s t" and lm: "live t m = {}"
      and oth: "\<And>a. a \<noteq> m \<Longrightarrow> a \<noteq> d \<Longrightarrow> live t a = live s a \<and> nr_used (slabs t ! a) = nr_used (slabs s ! a)"
      using r by (auto simp: relocated_def)
    have gm: "gc_buffer s \<noteq> m" "gc_buffer s \<noteq> d" using m d gc_buffer_mem [OF g] by (auto simp: mem_held_def)
    have kv: "kv_inv E t" by (rule kv_inv_calm [OF inv dt calm]) (use oth gm in simp)
    have "kept E i s t" if "i \<in> M" for i
    proof -
      have "i \<noteq> m" "i \<noteq> d" using M that d gc_buffer_mem [OF g] by (auto dest: M(2))
      then show ?thesis using oth by (intro calm_kept [OF calm]) (simp_all add: slack_def)
    qed
    then have "leaves E M {} s t" by (intro calm_leaves [OF calm]) auto
    moreover have "mem_held m t" "disk_held d c t" "cid (slabs t ! d) \<noteq> -1"
      using m d ci calm by (auto simp: mem_held_def disk_held_def calm_def same_place_def same_lists_def gc_buffer_def
          mem_lists_def partials_def on_lists_def is_dslab_def)
    ultimately show ?thesis using kv k lm M(1) calm by (simp add: flush_went_def calm_def)
  qed
  have "safe (\<lambda>s'. data_inv E s' \<and> keeps E s s')
      (\<lambda>_ s1. safe (\<lambda>s'. data_inv E s' \<and> keeps E s s') (\<lambda>_ s2. relocated E m d s (unlock_index s2)) (modify_index_to E m d s1))
      (lock_index s)"
    by (rule modify_locked_safe [OF data m(2) d(2,3) mir])
  then have "safe (\<lambda>_. True) (\<lambda>_ s1. safe (\<lambda>_. True) (\<lambda>_ s2. flush_went E M s (FMoved m d c) (unlock_index s2))
      (modify_index_to E m d s1)) (lock_index s)"
    by (rule safe_mono) (use went in \<open>auto elim: safe_mono\<close>)
  then show ?thesis by (simp add: flush_index_def)
qed

lemma flush_free_went:
  assumes inv: "kv_inv E s" and f: "flush_ok E (FMoved m d c) s" and M: "m \<notin> M"
  shows "safe (\<lambda>_. True) (\<lambda>f t. flush_went E M s f t) (flush_next E (FMoved m d c) s)"
proof -
  have data: "data_inv E s" and di: "disk_inv [] {} s" and mi: "mem_inv [] s" using inv by (simp_all add: kv_inv_def)
  have m: "m < nr_mslab s - 1" "m \<notin># mem_lists s" "m < nr_mslab s" "m < length (slabs s)" and un: "live s m = {}"
    using f data_invD(1) [OF data] by (auto simp: mem_held_def gc_buffer_def geom_def)
  let ?t1 = "upd_slab m slab_reset s" and ?t = "flush_free m s"
  have t: "?t = ?t1\<lparr>mslab_free := slist_add m (mslab_free ?t1)\<rparr>" by (simp add: flush_free_def Let_def)
  have d1: "data_inv E ?t1" "keeps E s ?t1" using upd_unused_slab [OF data m(4) _ un] by simp_all
  have di1: "disk_inv [] {} ?t1" by (rule disk_inv_upd [OF di]) (use disk_inv_mem [OF di m(3)] in auto)
  have mi1: "mem_inv [] ?t1" by (rule mem_inv_upd [OF mi]) (use m(2) in simp_all)
  have mit: "mem_inv [] ?t"
    unfolding t by (rule mem_inv_add_free [OF mi1]) (use m in \<open>simp_all add: mem_lists_def partials_def\<close>)
  have dit: "disk_inv [] {} ?t"
    using di1 by (simp add: t disk_inv_def placed_def on_lists_def is_dslab_def)
  have sd: "same_data ?t1 ?t" by (simp add: t)
  have sp: "same_place s ?t"
    using same_place_upd_slab [of slab_reset s m] by (simp add: t same_place_def ptrs_ok_def)
  have gb: "gc_buffer ?t = gc_buffer s" using sp by (simp add: same_place_def gc_buffer_def)
  have lv: "live ?t = live s" using same_data_view(5) [OF sd] by simp
  have kv: "kv_inv E ?t"
    using inv same_data_inv [OF sd] d1(1) dit mit sp gb lv by (simp add: kv_inv_def same_place_def ops_in_range_def) (simp add: t)
  have kp: "kept E i s ?t" if "i \<noteq> m" for i
    by (rule kept_trans [OF kept_upd_other [OF that] same_data_kept [OF sd]])
  have kM: "kept E i s ?t" if "i \<in> M" for i using kp [of i] that M by blast
  have lists: "mem_lists ?t = add_mset m (mem_lists s)" by (simp add: t mem_lists_def partials_def)
  have "leaves E M {} s ?t"
  proof (rule leavesI [OF sp])
    fix i assume i: "i \<in> M"
    then have im: "i \<noteq> m" using M by blast
    show "i \<in># mem_lists ?t \<Longrightarrow> i \<in># mem_lists s" using im lists by simp
    show "i \<in> set (items (mslab_free ?t)) \<Longrightarrow> i \<in> set (items (mslab_free s))" using im by (simp add: t)
    show "i \<in> set (items (mslab_full ?t)) \<Longrightarrow> i \<in> set (items (mslab_full s))" by (simp add: t)
  qed (use kM in auto)
  moreover have "disk_held d c ?t" "cid (slabs ?t ! d) \<noteq> -1"
    using f m(3) sp by (auto simp: disk_held_def same_place_def is_dslab_def t on_lists_def)
  moreover have "index_locked ?t = index_locked s" by (simp add: t)
  ultimately show ?thesis
    using kv sp keeps_trans [OF d1(2) same_data_keeps [OF sd]] by (simp add: flush_went_def)
qed

lemma flush_full_went:
  assumes inv: "kv_inv E s" and f: "flush_ok E (FFreed d c) s"
  shows "safe (\<lambda>_. True) (\<lambda>f t. flush_went E M s f t) (flush_next E (FFreed d c) s)"
proof -
  let ?t = "flush_full d c s"
  have lm: "list_move s ?t" by (simp add: flush_full_def)
  have "disk_inv [d] {} s" and g: "geom E s"
    using inv f by (simp_all add: disk_inv_held kv_inv_def disk_held_def data_inv_def)
  from give_full [OF g this(1), of "nr_full_dslab s + 1"] have "disk_inv [] {} ?t"
    using f by (simp add: flush_full_def disk_held_def)
  then have "kv_inv E ?t"
    by (intro kv_inv_move [OF inv lm]) (use inv in \<open>simp_all add: flush_full_def kv_inv_def ops_in_range_def\<close>)
  moreover have "leaves E M {} s ?t"
    using lm same_data_kept [of s ?t E]
    by (auto simp: leaves_def list_move_def same_place_def gc_buffer_def is_dslab_def fun_eq_iff mem_lists_def partials_def)
  ultimately show ?thesis
    using lm list_move_data(2) [OF lm] by (simp add: flush_went_def list_move_def)
qed

lemma flush_next_went:
  assumes inv: "kv_inv E s" and bg: "enable_background_gc s" and f: "flush_ok E f s"
    and M: "\<And>m. m \<in> M \<Longrightarrow> put_held m s" and apart: "M \<inter> flush_mem f = {}"
  shows "safe (\<lambda>_. True) (\<lambda>f' t. flush_went E M s f' t) (flush_next E f s)"
proof -
  have lt: "i < gc_buffer s" if "i \<in> M" for i using M [OF that] by (simp add: put_held_def)
  show ?thesis
  proof (cases f)
    case FIdle
    then show ?thesis using flush_take_went [OF inv M] by simp
  next
    case (FTaken m)
    then show ?thesis using flush_scan_went [OF inv bg, of m M] f apart by simp
  next
    case (FWaiting m)
    have "leaves E M {} s s" by (simp add: leaves_def)
    then show ?thesis using FWaiting inv f apart by (simp add: wait_slab_gc_until_shutdown_def flush_went_def)
  next
    case (FFound m d c)
    then show ?thesis using flush_write_went [OF inv, of m M d c] lt f apart by simp
  next
    case (FWritten m d c)
    then show ?thesis using flush_index_went [OF inv, of m d c M] lt f apart by simp
  next
    case (FMoved m d c)
    then show ?thesis using flush_free_went [OF inv, of m d c M] f apart by simp
  next
    case (FFreed d c)
    then show ?thesis using flush_full_went [OF inv, of d c M] f by simp
  qed
qed

end
