(* ===== verification/KV_PutSteps.thy ===== *)
theory KV_PutSteps
  imports KV_Threads
begin

text \<open>
  A client inside \<^verbatim>\<open>Put\<close> between other threads, with the background threads enabled: a step that
  has to wait only starts a thread; a step that returns brings the client to its next assertion
  and leaves alone the slabs the flush thread holds.
\<close>

subsection \<open>Allocating the slot\<close>

text \<open>Before the slot is taken, the slabs that are on no memory list stay as they are.\<close>

definition alloc_from :: "'db env \<Rightarrow> 'db kv \<Rightarrow> 'db kv \<Rightarrow> bool" where
  "alloc_from E s t \<longleftrightarrow> kv_inv E t \<and> keeps E s t \<and> same_place s t \<and> index_locked t = index_locked s \<and>
     on_lists t = on_lists s \<and> mem_lists t = mem_lists s \<and> mslab_full t = mslab_full s \<and>
     set (items (mslab_free t)) \<subseteq> set (items (mslab_free s)) \<and> (\<forall>i. i \<notin># mem_lists s \<longrightarrow> kept E i s t)"

lemma alloc_from_refl: "kv_inv E s \<Longrightarrow> alloc_from E s s"
  by (simp add: alloc_from_def)

lemma upd_class_kept: "kept E i s (upd_class c f s)"
  by (simp add: kept_def slack_def upd_class_def slab_data_def live_def)

lemma take_free_from:
  assumes inv: "kv_inv E s" and m: "items (mslab_free s) = m # ms" and c: "c < length (slab_class_table s)"
  shows "alloc_from E s (take_free_mslab c m s)"
proof -
  let ?t = "take_free_mslab c m s"
  note ok = take_free_mslab_ok [OF inv m c]
  have len: "m < length (slabs s)" and "m \<in># mem_lists s"
    using inv m by (auto simp: kv_inv_def mem_inv_def data_inv_def geom_def mem_lists_def)
  note f = take_free_mslab_fields [OF c len]
  have "kept E i s ?t" if "i \<notin># mem_lists s" for i
  proof -
    have "i \<noteq> m" using that \<open>m \<in># mem_lists s\<close> by blast
    let ?s1 = "s\<lparr>mslab_free := slist_del m (mslab_free s)\<rparr>"
    let ?s2 = "upd_slab m (class_header c s) ?s1"
    have "kept E i s ?s1" by (rule same_data_kept) simp
    then have "kept E i s ?s2" by (rule kept_trans [OF _ kept_upd_other [OF \<open>i \<noteq> m\<close>]])
    then show ?thesis unfolding take_free_mslab_eq by (rule kept_trans [OF _ upd_class_kept])
  qed
  moreover have "on_lists ?t = on_lists s" by (simp add: take_free_mslab_eq on_lists_def upd_class_def)
  moreover have "mem_lists ?t = mem_lists s" using m by (simp add: mem_lists_def f)
  ultimately show ?thesis using ok f m by (simp add: alloc_from_def subset_insertI)
qed

lemma started_from:
  assumes "kv_inv E s"
  shows "alloc_from E s (s\<lparr>slab_flush_thread_started := True\<rparr>)"
  using started_inv(1) [OF assms, of True] list_move_data(2) [OF started_move(1)] same_data_kept [of s "s\<lparr>slab_flush_thread_started := True\<rparr>" E]
  by (simp add: alloc_from_def same_place_def ptrs_ok_def on_lists_def mem_lists_def partials_def same_data_def)

definition alloc_took :: "'db env \<Rightarrow> nat \<Rightarrow> 'db kv \<Rightarrow> Status + nat \<Rightarrow> 'db kv \<Rightarrow> bool" where
  "alloc_took E sz s r t \<longleftrightarrow> (case r of
     Inl st \<Rightarrow> \<not> Status_ok st \<and> alloc_from E s t
   | Inr slot \<Rightarrow> (\<exists>s1 c m ms. alloc_from E s s1 \<and> get_slab_class (slab_class_table s1) sz = Inr c \<and>
       slab_partial (slab_class_table s1 ! c) = m # ms \<and> alloc_partial c m s1 = Ret slot t))"

lemma slot_alloc_took:
  assumes inv: "kv_inv E s" and bg: "enable_background_flush s"
  shows "safe (\<lambda>t. alloc_from E s t) (\<lambda>r t. alloc_took E sz s r t) (slot_alloc E fuel n sz s)"
proof (cases n)
  case 0
  then show ?thesis by simp
next
  case (Suc n)
  note refl = alloc_from_refl [OF inv]
  have part: "safe (\<lambda>t. alloc_from E s t) (\<lambda>r t. alloc_took E sz s r t) (seq (alloc_partial c m s1) (\<lambda>slot s. Ret (Inr slot) s))"
    if f: "alloc_from E s s1" and cl: "get_slab_class (slab_class_table s1) sz = Inr c"
      and m: "slab_partial (slab_class_table s1 ! c) = m # ms" for s1 c m ms
  proof -
    have "kv_inv E s1" using f by (simp add: alloc_from_def)
    from alloc_partial_eq(5) [OF this _ m] get_slab_class_Inr [OF cl] obtain slot t where "alloc_partial c m s1 = Ret slot t" by blast
    then show ?thesis using f cl m by (auto simp: alloc_took_def)
  qed
  show ?thesis
  proof (cases "get_slab_class (slab_class_table s) sz")
    case (Inl st)
    then have "\<not> Status_ok st" by (auto simp: get_slab_class_def Let_def ObjectTooLarge_def Status_ok_def split: if_splits)
    then show ?thesis using Inl Suc refl by (simp add: alloc_took_def)
  next
    case (Inr c)
    have c: "c < length (slab_class_table s)" using get_slab_class_Inr [OF Inr] by simp
    show ?thesis
    proof (cases "slab_partial (slab_class_table s ! c)")
      case (Cons m ms)
      then show ?thesis using part [OF refl Inr] Suc Inr by simp
    next
      case Nil
      show ?thesis
      proof (cases "items (mslab_free s)")
        case (Cons m ms)
        let ?t = "take_free_mslab c m s"
        note ok = take_free_mslab_ok [OF inv Cons c] and fr = take_free_from [OF inv Cons c]
        have cl: "get_slab_class (slab_class_table ?t) sz = Inr c" using get_slab_class_cong [OF ok(6)] Inr by simp
        have "sc_cid (slab_class_table s ! c) = int c"
          using geom_class(4) [of E s "int c"] inv c by (simp add: kv_inv_def data_inv_def)
        then show ?thesis
          using part [OF fr cl ok(5)] Suc Inr Nil Cons cl ok(5) by (cases n) simp_all
      next
        case empty: Nil
        have "\<not> Status_ok (Shutdown ''KVCache is shutting down'')" by (simp add: Shutdown_def Status_ok_def)
        then show ?thesis
          using started_from [OF inv] Suc Inr Nil empty bg
          by (simp add: slab_flush_def wait_slab_flush_until_shutdown_def alloc_took_def)
      qed
    qed
  qed
qed

subsection \<open>The client, step by step\<close>

text \<open>The state after a step of the client, for a flush thread that holds \<open>M\<close> and \<open>D\<close>.\<close>

definition put_went :: "'db env \<Rightarrow> nat set \<Rightarrow> nat set \<Rightarrow> 'db kv \<Rightarrow> put_phase \<Rightarrow> event \<Rightarrow> 'db kv \<Rightarrow> bool" where
  "put_went E M D s p e t \<longleftrightarrow> kv_inv E t \<and> cache E t \<subseteq>\<^sub>m effect e (cache E s) \<and> same_place s t \<and>
     index_locked t = index_locked s \<and> put_ok E p t \<and> leaves E M D s t \<and> put_mem p \<inter> M = {}"

lemma dslab_unlisted: "kv_inv E s \<Longrightarrow> is_dslab s d \<Longrightarrow> d \<notin># mem_lists s"
  using mem_lists_dslab [of "[]" s d] by (simp add: kv_inv_def)

lemma from_leaves:
  assumes f: "alloc_from E s t" and M: "\<And>m. m \<in> M \<Longrightarrow> m \<notin># mem_lists s" and D: "\<And>d. d \<in> D \<Longrightarrow> d \<notin># mem_lists s"
  shows "leaves E M D s t"
proof -
  have sp: "same_place s t" using f by (simp add: alloc_from_def)
  have "kept E i s t" if "i \<in> M \<union> D" for i using f M D that by (auto simp: alloc_from_def)
  then show ?thesis using f by (intro leavesI [OF sp]) (auto simp: alloc_from_def)
qed

lemma from_went:
  assumes f: "alloc_from E s t" and M: "\<And>m. m \<in> M \<Longrightarrow> m \<notin># mem_lists s" and D: "\<And>d. d \<in> D \<Longrightarrow> d \<notin># mem_lists s"
    and p: "put_ok E p t" "put_mem p = {}" and e: "effect e (cache E s) = cache E s"
  shows "put_went E M D s p e t"
proof -
  have "keeps E s t" using f by (simp add: alloc_from_def)
  then show ?thesis
    using keeps_cache [of E s t] from_leaves [OF f M D] f p e by (simp add: put_went_def alloc_from_def map_le_refl)
qed

text \<open>Writing the object into a slot of the first partial slab.\<close>

lemma put_write_went:
  assumes f: "alloc_from E s s1" and cl: "get_slab_class (slab_class_table s1) (slot_size_of key v) = Inr c"
    and m: "slab_partial (slab_class_table s1 ! c) = m # ms"
    and M: "\<And>m. m \<in> M \<Longrightarrow> m \<notin># mem_lists s" and D: "\<And>d. d \<in> D \<Longrightarrow> d \<notin># mem_lists s"
  shows "put_went E M D s (PWritten key v m (nr_alloc (slabs s1 ! m))) EvWake (put_write c m key v s1)"
proof -
  let ?t = "put_write c m key v s1"
  have inv: "kv_inv E s1" and mi: "mem_inv [] s1" and k1: "keeps E s s1" and sp1: "same_place s s1" and ml: "mem_lists s1 = mem_lists s"
    using f by (simp_all add: alloc_from_def kv_inv_def)
  have c: "c < length (slab_class_table s1)" using get_slab_class_Inr [OF cl] by simp
  note w = put_write_pending [OF inv cl m] and ex = partial_exclusive(1,2) [OF mi c m]
  have len: "m < length (slabs s1)" using alloc_partial_eq(2) [OF inv c m] inv by (simp add: kv_inv_def data_inv_def geom_def)
  note pf = put_write_fields [OF len c m, where key = key and v = v]
  have "m \<in># mem_lists s1" using m nth_mem [OF c] by (force simp: mem_lists_def partials_def)
  then have mm: "m \<in># mem_lists s" using ml by simp
  have "set_mset (mem_lists ?t) \<subseteq> set_mset (mem_lists s1)" using pf(11) by (auto split: if_splits)
  then have lists: "set_mset (mem_lists ?t) \<subseteq> set_mset (mem_lists s)" using ml by simp
  have on: "on_lists ?t = on_lists s1" by (simp add: put_write_def Let_def on_lists_def upd_class_def)
  have "kept E i s ?t" if i: "i \<notin># mem_lists s" for i
  proof -
    have "i \<noteq> m" using i mm by blast
    have "kept E i s s1" using f i by (simp add: alloc_from_def)
    moreover have "kept E i s1 (upd_slab m (add_object key v) s1)" by (rule kept_upd_other [OF \<open>i \<noteq> m\<close>])
    ultimately show ?thesis using same_data_kept [OF pf(12)] kept_trans by metis
  qed
  then have kp: "kept E i s ?t" if "i \<in> M \<union> D" for i using M D that by auto
  have sp: "same_place s ?t" by (rule same_place_trans [OF sp1 pf(13)])
  have lf: "set (items (mslab_free s1)) \<subseteq> set (items (mslab_free s))" "mslab_full s1 = mslab_full s" "on_lists s1 = on_lists s"
    using f by (simp_all add: alloc_from_def)
  have "leaves E M D s ?t"
    by (rule leavesI [OF sp kp]) (use lists on pf(4,5) lf in auto)
  moreover have "put_held m ?t" using w(4-6) ex pf(4,5) by (simp add: put_held_def)
  moreover have "m \<notin> M" using M mm by blast
  moreover have "cache E ?t = cache E s" using keeps_cache [OF keeps_trans [OF k1 w(2)]] .
  ultimately show ?thesis
    using w(1,3,8) sp f by (simp add: put_went_def alloc_from_def map_le_refl)
qed

lemma put_begin_went:
  assumes inv: "kv_inv E s" and bg: "enable_background_flush s"
    and M: "\<And>m. m \<in> M \<Longrightarrow> m \<notin># mem_lists s" and D: "\<And>d. d \<in> D \<Longrightarrow> d \<notin># mem_lists s"
  shows "safe (\<lambda>t. put_went E M D s (PWaiting key v) EvWake t) (\<lambda>(p, e) t. put_went E M D s p e t) (put_next E fuel (PCalled key v) s)"
proof (cases "\<exists>slot t. slot_alloc E fuel fuel (slot_size_of key v) s = Ret (Inr slot) t")
  case True
  then obtain slot t where al: "slot_alloc E fuel fuel (slot_size_of key v) s = Ret (Inr slot) t" by blast
  obtain s1 c m ms where f: "alloc_from E s s1" and cl: "get_slab_class (slab_class_table s1) (slot_size_of key v) = Inr c"
    and m: "slab_partial (slab_class_table s1 ! c) = m # ms" and run: "alloc_partial c m s1 = Ret slot t"
    using slot_alloc_took [OF inv bg, of "slot_size_of key v" fuel fuel] al by (auto simp: alloc_took_def)
  have "kv_inv E s1" using f by (simp add: alloc_from_def)
  then show ?thesis using put_begin_Inr [OF _ cl m run al] put_write_went [OF f cl m M D] by simp
next
  case False
  have w: "put_went E M D s (PWaiting key v) EvWake t" if "alloc_from E s t" for t
    by (rule from_went [OF that M D]) simp_all
  have i: "put_went E M D s PIdle (EvPut key v st) t" if "alloc_from E s t" "\<not> Status_ok st" for t st
    by (rule from_went [OF that(1) M D]) (use that(2) in simp_all)
  have "safe (\<lambda>t. alloc_from E s t) (\<lambda>r t. alloc_took E (slot_size_of key v) s r t) (slot_alloc E fuel fuel (slot_size_of key v) s)"
    by (rule slot_alloc_took [OF inv bg])
  then show ?thesis
    using False w i by (cases "slot_alloc E fuel fuel (slot_size_of key v) s") (auto simp: put_begin_def alloc_took_def split: sum.splits)
qed

subsection \<open>Updating the index\<close>

abbreviation wake_both :: "'db kv \<Rightarrow> 'db kv" where
  "wake_both s \<equiv> s\<lparr>slab_flush_thread_started := True, slab_gc_thread_started := True\<rparr>"

lemma wake_both_move: "list_move s (wake_both s)"
  by (rule list_move_trans [OF started_move(1) started_move(2)])

lemma wake_both_inv: "kv_inv E s \<Longrightarrow> kv_inv E (wake_both s)"
  by (intro started_inv)

text \<open>With the background threads the search for an index entry returns one or waits.\<close>

lemma alloc_index_entry_bg:
  assumes ok: "index_ok (index s)" and bg: "enable_background_flush s" "enable_background_gc s"
  shows "alloc_index_entry E fuel (Suc n) s = (case index_entry_alloc (index s) of
     (Some e, ix) \<Rightarrow> Ret e (s\<lparr>index := ix\<rparr>)
   | (None, _) \<Rightarrow> Wait ''gc_finished_signal_'' (unlock_index (wake_both s)))"
  using ok bg by (auto simp: index_entry_alloc_def index_ok_def slab_flush_def slab_gc_def split: list.split)

lemma put_new_entry_wait:
  assumes "index_ok (index s)" and "enable_background_flush s" "enable_background_gc s"
    and "put_new_entry E fuel key l s = Wait w t"
  shows "t = unlock_index (wake_both s)"
  using assms alloc_index_entry_bg [OF assms(1-3), of E fuel "fuel - 1"]
  by (cases fuel) (auto simp: put_new_entry_def Let_def split: option.splits prod.splits sum.splits)

lemma put_index_wait:
  assumes ok: "index_ok (index s)" and bg: "enable_background_flush s" "enable_background_gc s" and free: "\<not> index_locked s"
    and run: "put_index E fuel key l s = Wait w t"
  shows "t = wake_both s" and "view s (hk E s key) = None"
proof -
  let ?s = "s\<lparr>index_locked := True\<rparr>"
  obtain r where r: "get_index_entry (hash E) key (index s) = Inr r"
    using run free by (cases "get_index_entry (hash E) key (index s)") (auto simp: put_index_def lock_index_def index_lookup_def)
  have red: "redirect_entry e l ?s \<noteq> Wait w t" for e
    by (auto simp: redirect_entry_def slab_by_sid_def check_def Let_def)
  have n: "r = None"
    using run free r red by (cases r; cases "redirect_entry (the r) l ?s") (auto simp: put_index_def lock_index_def index_lookup_def)
  then show "view s (hk E s key) = None" using get_index_entry_None [OF ok] r by (simp add: hk_def)
  have "put_new_entry E fuel key l ?s = Wait w t"
    using run free r n by (cases "put_new_entry E fuel key l ?s") (auto simp: put_index_def lock_index_def index_lookup_def)
  then have "t = unlock_index (wake_both ?s)" by (rule put_new_entry_wait [rotated 3]) (use ok bg in simp_all)
  then show "t = wake_both s" using free by (simp add: unlock_index_def)
qed

lemma put_resume_wait:
  assumes ok: "index_ok (index s)" and bg: "enable_background_flush s" "enable_background_gc s" and free: "\<not> index_locked s"
    and run: "put_resume E fuel key l s = Wait w t"
  shows "t = wake_both s"
proof -
  let ?s = "s\<lparr>index_locked := True\<rparr>"
  have "put_new_entry E fuel key l ?s = Wait w t"
    using run free by (cases "put_new_entry E fuel key l ?s") (auto simp: put_resume_def lock_index_def)
  then have "t = unlock_index (wake_both ?s)" by (rule put_new_entry_wait [rotated 3]) (use ok bg in simp_all)
  then show "t = wake_both s" using free by (simp add: unlock_index_def)
qed

text \<open>The loop resumed after a wait does what it would have done at first.\<close>

lemma put_resume_index:
  assumes ok: "index_ok (index s)" and new: "view s (hk E s key) = None" and run: "put_resume E fuel key l s = Ret u t"
  shows "put_index E fuel key l s = Ret u t"
proof -
  have free: "\<not> index_locked s" using run by (auto simp: put_resume_def lock_index_def split: if_splits)
  obtain d where d: "make_digest (hash E) key = Inr d"
    using run by (cases "make_digest (hash E) key") (auto simp: put_resume_def put_new_entry_def seq_Ret_iff)
  then obtain r where r: "get_index_entry (hash E) key (index s) = Inr r" by (simp add: get_index_entry_def)
  then have "r = None" using get_index_entry_Some(1) [OF ok, of "hash E" key] new by (cases r) (auto simp: hk_def)
  then show ?thesis using run r free by (simp add: put_resume_def put_index_def lock_index_def index_lookup_def)
qed

lemma put_resume_no_abort:
  assumes ok: "index_ok (index s)" and bg: "enable_background_flush s" "enable_background_gc s"
  shows "put_resume E fuel key l s \<noteq> Abort w"
proof -
  let ?s = "s\<lparr>index_locked := True\<rparr>"
  have "put_new_entry E fuel key l ?s \<noteq> Abort w"
    using alloc_index_entry_bg [of ?s E fuel "fuel - 1"] ok bg
    by (cases fuel) (auto simp: put_new_entry_def Let_def split: option.splits prod.splits sum.splits)
  then show ?thesis by (cases "put_new_entry E fuel key l ?s") (auto simp: put_resume_def lock_index_def)
qed

lemma put_post_went:
  assumes inv: "kv_inv E s" and held: "put_held m s" and pp: "put_post E key v m s t"
    and M: "m \<notin> M" and D: "\<And>d. d \<in> D \<Longrightarrow> is_dslab s d"
  shows "put_went E M D s (PIndexed m) (EvPut key v OK) t"
proof -
  have m: "m < gc_buffer s" using held by (simp add: put_held_def)
  note i = put_post_inv [OF inv pp m]
  have calm: "calm s t" and kp: "\<And>i. i \<noteq> m \<Longrightarrow> kept E i s t" and ca: "cache E t = put_map E s key v"
    using pp by (simp_all add: put_post_def)
  have "stored E key v s t" using i(1) ca by (auto simp: stored_def intro!: exI [of _ s])
  then have "cache E t \<subseteq>\<^sub>m (cache E s)(key \<mapsto> v)" by (rule stored_cache(2))
  moreover have "leaves E M D s t"
  proof (rule calm_leaves [OF calm])
    fix a assume "a \<in> M \<union> D"
    then have "a \<noteq> m" using M D [of a] m gc_buffer_mem [of E s] inv by (auto simp: is_dslab_def kv_inv_def data_inv_def)
    then show "kept E a s t" by (rule kp)
  qed
  moreover have "put_held m t"
    using held i calm by (simp add: put_held_def calm_def same_lists_def)
  ultimately show ?thesis using i(1,6) M calm by (simp add: put_went_def calm_def)
qed

lemma wake_went:
  assumes inv: "kv_inv E s" and p: "put_ok E p s" "put_mem p \<inter> M = {}"
  shows "put_went E M D s p EvWake (wake_both s)"
proof -
  have lm: "list_move s (wake_both s)" by (rule wake_both_move)
  have kv: "kv_inv E (wake_both s)" by (rule wake_both_inv [OF inv])
  have lv: "leaves E X Y s (wake_both s)" for X Y by (rule list_move_leaves [OF lm]) (simp add: on_lists_def)
  have k: "keeps E s (wake_both s)" by (rule list_move_data(2) [OF lm])
  have "put_ok E p (wake_both s)"
    by (rule put_stable [OF p(1) lv _ keeps_refines [OF k]]) (use kv in \<open>simp add: kv_inv_def\<close>)
  then show ?thesis using kv lv lm p(2) keeps_cache [OF k] by (simp add: put_went_def list_move_def map_le_refl)
qed

lemma retire_went:
  assumes inv: "kv_inv E s" and bg: "enable_background_flush s" and held: "put_held m s" and M: "m \<notin> M"
  shows "total (\<lambda>_ t. put_went E M D s PIdle EvWake t) (retire_full E fuel m s)"
proof (cases "is_full (slabs s ! m)")
  case True
  let ?t = "s\<lparr>mslab_full := slist_add m (mslab_full s), slab_flush_thread_started := True\<rparr>"
  have run: "retire_full E fuel m s = Ret () ?t" using True bg by (simp add: retire_full_def slab_flush_def Let_def)
  have "total (\<lambda>_ s'. kv_inv E s' \<and> keeps E s s' \<and> index_locked s' = index_locked s) (retire_full E fuel m s)"
    by (rule retire_full_ok [OF inv]) (use held in \<open>simp_all add: put_held_def\<close>)
  then have t: "kv_inv E ?t" "keeps E s ?t" by (simp_all add: run)
  have sp: "same_place s ?t" by (simp add: same_place_def ptrs_ok_def)
  have "kept E i s ?t" for i by (rule same_data_kept) (simp add: same_data_def)
  then have "leaves E M D s ?t"
    using M by (intro leavesI [OF sp]) (auto simp: mem_lists_def partials_def on_lists_def)
  then show ?thesis unfolding run using t sp keeps_cache [OF t(2)] by (simp add: put_went_def map_le_refl)
next
  case False
  have "leaves E M D s s" by (simp add: leaves_def)
  then show ?thesis using False inv by (simp add: retire_full_def put_went_def map_le_refl)
qed

lemma put_written_went:
  assumes inv: "kv_inv E s" and hp: "heap_pick_ok E" and free: "\<not> index_locked s"
    and bg: "enable_background_flush s" "enable_background_gc s"
    and p: "pending E key v m n s" "put_held m s" and M: "m \<notin> M" and D: "\<And>d. d \<in> D \<Longrightarrow> is_dslab s d"
  shows "case put_next E fuel (PWritten key v m n) s of Ret (p, e) t \<Rightarrow> put_went E M D s p e t
    | Wait w t \<Rightarrow> put_went E M D s (PNoEntry key v m n) EvWake t | Abort w \<Rightarrow> False | _ \<Rightarrow> True"
proof -
  have ok: "index_ok (index s)" using inv by (simp add: kv_inv_def data_inv_def)
  have "put_went E M D s (PNoEntry key v m n) EvWake t" if "put_index E fuel key (m, n) s = Wait w t" for w t
    using put_index_wait [OF ok bg free that] wake_went [OF inv, of "PNoEntry key v m n" M D] p M by simp
  then show ?thesis
    using put_index_safe [OF inv hp p(1), of fuel] put_post_went [OF inv p(2) _ M D]
    by (cases "put_index E fuel key (m, n) s") auto
qed

lemma put_no_entry_went:
  assumes inv: "kv_inv E s" and hp: "heap_pick_ok E" and free: "\<not> index_locked s"
    and bg: "enable_background_flush s" "enable_background_gc s"
    and p: "put_ok E (PNoEntry key v m n) s" and M: "m \<notin> M" and D: "\<And>d. d \<in> D \<Longrightarrow> is_dslab s d"
  shows "case put_next E fuel (PNoEntry key v m n) s of Ret (p, e) t \<Rightarrow> put_went E M D s p e t
    | Wait w t \<Rightarrow> put_went E M D s (PNoEntry key v m n) EvWake t | Abort w \<Rightarrow> False | _ \<Rightarrow> True"
proof -
  have ok: "index_ok (index s)" using inv by (simp add: kv_inv_def data_inv_def)
  have h: "pending E key v m n s" "put_held m s" and new: "view s (hk E s key) = None" using p by simp_all
  have "put_went E M D s (PNoEntry key v m n) EvWake t" if "put_resume E fuel key (m, n) s = Wait w t" for w t
    using put_resume_wait [OF ok bg free that] wake_went [OF inv p, of M D] M by simp
  moreover have "put_went E M D s (PIndexed m) (EvPut key v OK) t" if "put_resume E fuel key (m, n) s = Ret u t" for u t
    using put_index_safe [OF inv hp h(1), of fuel] put_resume_index [OF ok new that] put_post_went [OF inv h(2) _ M D, of key v t] by simp
  ultimately show ?thesis
    using put_resume_no_abort [OF ok bg] by (cases "put_resume E fuel key (m, n) s") auto
qed

text \<open>Every step of the client: no assertion of the code fails, and the flush thread is not disturbed.\<close>

lemma put_next_went:
  assumes inv: "kv_inv E s" and hp: "heap_pick_ok E" and free: "\<not> index_locked s"
    and bg: "enable_background_flush s" "enable_background_gc s" and p: "put_ok E p s" and apart: "put_mem p \<inter> M = {}"
    and M: "\<And>m. m \<in> M \<Longrightarrow> m \<notin># mem_lists s" and D: "\<And>d. d \<in> D \<Longrightarrow> is_dslab s d"
  shows "case put_next E fuel p s of Ret (p', e) t \<Rightarrow> put_went E M D s p' e t
    | Wait w t \<Rightarrow> put_went E M D s (put_blocked p) EvWake t | Abort w \<Rightarrow> False | _ \<Rightarrow> True"
proof (cases p)
  case PIdle
  have "leaves E M D s s" by (simp add: leaves_def)
  then show ?thesis using PIdle inv by (simp add: put_went_def map_le_refl)
next
  case (PCalled key v)
  have "d \<notin># mem_lists s" if "d \<in> D" for d by (rule dslab_unlisted [OF inv D [OF that]])
  then have "safe (\<lambda>t. put_went E M D s (PWaiting key v) EvWake t) (\<lambda>(p, e) t. put_went E M D s p e t) (put_next E fuel (PCalled key v) s)"
    by (intro put_begin_went [OF inv bg(1) M])
  then show ?thesis
    unfolding PCalled by (cases "put_next E fuel (PCalled key v) s") (auto split: prod.splits simp del: put_next.simps)
next
  case (PWaiting key v)
  have "leaves E M D s s" by (simp add: leaves_def)
  then show ?thesis using PWaiting inv bg by (simp add: put_went_def map_le_refl wait_slab_flush_until_shutdown_def)
next
  case (PWritten key v m n)
  show ?thesis using put_written_went [OF inv hp free bg, of key v m n M D fuel] p apart D unfolding PWritten put_blocked.simps by simp
next
  case (PNoEntry key v m n)
  show ?thesis using put_no_entry_went [OF inv hp free bg, of key v m n M D fuel] p apart D unfolding PNoEntry put_blocked.simps by simp
next
  case (PIndexed m)
  show ?thesis using retire_went [OF inv bg(1), of m M D fuel] p apart unfolding PIndexed put_blocked.simps by (auto simp: total_iff)
qed

end
