(* ===== verification/KV_System.thy ===== *)
theory KV_System
  imports KV_FlushSteps KV_PutSteps
begin

text \<open>
  The interleaved system as a whole: the invariant of the cache, the assertions of the client and
  of the flush thread, and the slabs they hold, which are never the same. Every step of every
  thread keeps all of it, so no run of the system fails an assertion of the code, and the contents
  follow the specification of \<open>KV_Trace\<close>.
\<close>

definition sys_ok :: "'db env \<Rightarrow> 'db sys \<Rightarrow> bool" where
  "sys_ok E S \<longleftrightarrow> kv_inv E (kv_of S) \<and> \<not> index_locked (kv_of S) \<and>
     enable_background_flush (kv_of S) \<and> enable_background_gc (kv_of S) \<and>
     put_ok E (put_at S) (kv_of S) \<and> flush_ok E (flush_at S) (kv_of S) \<and>
     put_mem (put_at S) \<inter> flush_mem (flush_at S) = {}"

definition sys_start :: "'db kv \<Rightarrow> 'db sys" where
  "sys_start s = \<lparr>kv_of = s, put_at = PIdle, flush_at = FIdle\<rparr>"

lemma sys_start_ok:
  "kv_inv E s \<Longrightarrow> \<not> index_locked s \<Longrightarrow> enable_background_flush s \<Longrightarrow> enable_background_gc s \<Longrightarrow> sys_ok E (sys_start s)"
  by (simp add: sys_ok_def sys_start_def)

subsection \<open>What the threads hold\<close>

lemma put_mem_held: "put_ok E p s \<Longrightarrow> m \<in> put_mem p \<Longrightarrow> put_held m s"
  by (cases p) auto

lemma flush_mem_held: "flush_ok E f s \<Longrightarrow> m \<in> flush_mem f \<Longrightarrow> mem_held m s"
  by (cases f) auto

lemma flush_disk_held: "flush_ok E f s \<Longrightarrow> d \<in> flush_disk f \<Longrightarrow> is_dslab s d \<and> d \<notin># on_lists s"
  by (cases f) (auto simp: disk_held_def)

text \<open>A step that is not the client's nor the flush thread's.\<close>

lemma sys_other:
  assumes S: "sys_ok E S" and inv: "kv_inv E t" and r: "refines E (kv_of S) t" and lk: "\<not> index_locked t"
    and bg: "enable_background_flush t" "enable_background_gc t"
    and l: "leaves E (put_mem (put_at S) \<union> flush_mem (flush_at S)) (flush_disk (flush_at S)) (kv_of S) t"
  shows "sys_ok E (S\<lparr>kv_of := t\<rparr>)"
proof -
  have data: "data_inv E (kv_of S)" "data_inv E t" using S inv by (simp_all add: sys_ok_def kv_inv_def)
  have "leaves E (put_mem (put_at S)) {} (kv_of S) t" "leaves E (flush_mem (flush_at S)) (flush_disk (flush_at S)) (kv_of S) t"
    using l by (auto simp: leaves_def)
  then have "put_ok E (put_at S) t" "flush_ok E (flush_at S) t"
    using S put_stable [OF _ _ data(2) r] flush_stable [OF _ _ finite_live [OF data(1)]] by (simp_all add: sys_ok_def)
  then show ?thesis using S inv lk bg by (simp add: sys_ok_def)
qed

lemma sys_flush_ok:
  assumes S: "sys_ok E S" and run: "flush_next E (flush_at S) (kv_of S) = Ret f t"
  shows "sys_ok E (S\<lparr>kv_of := t, flush_at := f\<rparr>) \<and> cache E t = cache E (kv_of S)"
proof -
  let ?s = "kv_of S" and ?M = "put_mem (put_at S)"
  have "safe (\<lambda>_. True) (\<lambda>f' t. flush_went E ?M ?s f' t) (flush_next E (flush_at S) ?s)"
    by (rule flush_next_went) (use S in \<open>auto simp: sys_ok_def dest: put_mem_held\<close>)
  then have w: "flush_went E ?M ?s f t" using run by simp
  then have kp: "keeps E ?s t" and sp: "same_place ?s t" and inv: "kv_inv E t" by (simp_all add: flush_went_def)
  have "data_inv E t" using inv by (simp add: kv_inv_def)
  moreover have "leaves E ?M {} ?s t" using w by (simp add: flush_went_def)
  ultimately have "put_ok E (put_at S) t" using S put_stable [OF _ _ _ keeps_refines [OF kp]] by (simp add: sys_ok_def)
  then show ?thesis using w S sp keeps_cache [OF kp] by (simp add: sys_ok_def flush_went_def same_place_def)
qed

lemma sys_put_ok:
  assumes S: "sys_ok E S" and w: "put_went E (flush_mem (flush_at S)) (flush_disk (flush_at S)) (kv_of S) p e t"
  shows "sys_ok E (S\<lparr>kv_of := t, put_at := p\<rparr>) \<and> cache E t \<subseteq>\<^sub>m effect e (cache E (kv_of S))"
proof -
  have "flush_ok E (flush_at S) t"
    by (rule flush_stable [where s = "kv_of S"])
      (use S w finite_live [of E "kv_of S"] in \<open>auto simp: sys_ok_def put_went_def kv_inv_def\<close>)
  then show ?thesis using w S by (auto simp: sys_ok_def put_went_def same_place_def)
qed

lemma sys_put_next:
  assumes hp: "heap_pick_ok E" and S: "sys_ok E S"
  shows "case put_next E fuel (put_at S) (kv_of S) of
      Ret (p, e) t \<Rightarrow> put_went E (flush_mem (flush_at S)) (flush_disk (flush_at S)) (kv_of S) p e t
    | Wait w t \<Rightarrow> put_went E (flush_mem (flush_at S)) (flush_disk (flush_at S)) (kv_of S) (put_blocked (put_at S)) EvWake t
    | Abort w \<Rightarrow> False | _ \<Rightarrow> True"
  by (rule put_next_went [OF _ hp])
    (use S in \<open>auto simp: sys_ok_def mem_held_def dest: flush_mem_held flush_disk_held\<close>)

lemma sys_gc_ok:
  assumes hp: "heap_pick_ok E" and S: "sys_ok E S" and run: "do_slab_gc E (kv_of S) = Ret go t"
  shows "sys_ok E (S\<lparr>kv_of := t\<rparr>) \<and> cache E t \<subseteq>\<^sub>m cache E (kv_of S)"
proof -
  have inv: "kv_inv E (kv_of S)" using S by (simp add: sys_ok_def)
  have g: "gc_result E (kv_of S) t" using do_slab_gc_safe [OF inv hp] run by simp
  have held: "m < gc_buffer (kv_of S)" if "m \<in> put_mem (put_at S) \<union> flush_mem (flush_at S)" for m
    using S that by (auto simp: sys_ok_def mem_held_def put_held_def dest: put_mem_held flush_mem_held)
  have "leaves E (put_mem (put_at S) \<union> flush_mem (flush_at S)) (flush_disk (flush_at S)) (kv_of S) t"
    by (rule gc_leaves [OF inv g held]) (use S in \<open>auto simp: sys_ok_def dest: flush_disk_held\<close>)
  then have "sys_ok E (S\<lparr>kv_of := t\<rparr>)"
    by (intro sys_other [OF S]) (use g S in \<open>auto simp: gc_result_def sys_ok_def same_place_def\<close>)
  then show ?thesis using g refines_cache by (auto simp: gc_result_def)
qed

lemma sys_delete_ok:
  assumes S: "sys_ok E S" and run: "Delete E key (kv_of S) = Ret u t"
  shows "sys_ok E (S\<lparr>kv_of := t\<rparr>) \<and> cache E t \<subseteq>\<^sub>m (cache E (kv_of S))(key := None)"
proof -
  have inv: "kv_inv E (kv_of S)" using S by (simp add: sys_ok_def)
  have d: "deleted E key (kv_of S) t" using Delete_safe [OF inv, of key] run by simp
  then have "leaves E (put_mem (put_at S) \<union> flush_mem (flush_at S)) (flush_disk (flush_at S)) (kv_of S) t"
    by (intro calm_leaves) (simp_all add: deleted_def)
  then have "sys_ok E (S\<lparr>kv_of := t\<rparr>)"
    by (intro sys_other [OF S]) (use d S in \<open>auto simp: deleted_def calm_def sys_ok_def same_place_def\<close>)
  then show ?thesis using deleted_le [OF d] by simp
qed

lemma sys_shutdown_ok:
  assumes S: "sys_ok E S"
  shows "sys_ok E (S\<lparr>kv_of := KVCache_dtor (kv_of S)\<rparr>) \<and> cache E (KVCache_dtor (kv_of S)) = cache E (kv_of S)"
proof -
  let ?s = "kv_of S" and ?t = "KVCache_dtor (kv_of S)"
  have sd: "same_data ?s ?t" by (rule same_data_shutdown)
  have "leaves E (put_mem (put_at S) \<union> flush_mem (flush_at S)) (flush_disk (flush_at S)) ?s ?t"
    using same_data_kept [OF sd]
    by (auto simp: leaves_def KVCache_dtor_def gc_buffer_def slab_channel_def is_dslab_def mem_lists_def partials_def on_lists_def fun_eq_iff)
  then have "sys_ok E (S\<lparr>kv_of := ?t\<rparr>)"
    by (intro sys_other [OF S] kv_inv_shutdown keeps_refines [OF same_data_keeps [OF sd]])
      (use S in \<open>auto simp: sys_ok_def KVCache_dtor_def\<close>)
  then show ?thesis using same_data_view(4) [OF sd] by simp
qed

subsection \<open>Every interleaving\<close>

lemma sys_step_ok:
  assumes hp: "heap_pick_ok E" and S: "sys_ok E S" and step: "sys_step E S e T"
  shows "sys_ok E T \<and> cache E (kv_of T) \<subseteq>\<^sub>m effect e (cache E (kv_of S))"
  using step
proof cases
  case (sys_call key v)
  then show ?thesis using S by (simp add: sys_ok_def map_le_refl)
next
  case (sys_put fuel p t)
  then show ?thesis using sys_put_next [OF hp S, of fuel] sys_put_ok [OF S] by simp
next
  case (sys_put_wait fuel w t)
  then show ?thesis using sys_put_next [OF hp S, of fuel] sys_put_ok [OF S, of "put_blocked (put_at S)" EvWake t] by simp
next
  case (sys_flush f t)
  then show ?thesis using sys_flush_ok [OF S] by (simp add: map_le_refl)
next
  case (sys_gc go t)
  then show ?thesis using sys_gc_ok [OF hp S] by simp
next
  case (sys_get key r t)
  have "kv_inv E (kv_of S)" using S by (simp add: sys_ok_def)
  then have "t = kv_of S" using Get_run(1) sys_get(3) by blast
  then show ?thesis using sys_get S by (simp add: map_le_refl)
next
  case (sys_delete key u t)
  then show ?thesis using sys_delete_ok [OF S] by simp
next
  case sys_shutdown
  then show ?thesis using sys_shutdown_ok [OF S] by (simp add: map_le_refl)
qed

interpretation sys: lossy_map "sys_step E" "\<lambda>S. heap_pick_ok E \<and> sys_ok E S" "\<lambda>S. cache E (kv_of S)" effect for E
proof unfold_locales
  fix S T :: "'a sys" and e
  assume "heap_pick_ok E \<and> sys_ok E S" and "sys_step E S e T"
  then show "heap_pick_ok E \<and> sys_ok E T" "cache E (kv_of T) \<subseteq>\<^sub>m effect e (cache E (kv_of S))" using sys_step_ok by blast+
qed (rule kv.effect_mono)

text \<open>No thread ever fails an assertion of the code.\<close>

lemma sys_no_abort:
  assumes hp: "heap_pick_ok E" and S: "sys_ok E S"
  shows "put_next E fuel (put_at S) (kv_of S) \<noteq> Abort w" "flush_next E (flush_at S) (kv_of S) \<noteq> Abort w"
    "do_slab_gc E (kv_of S) \<noteq> Abort w" "Get E key (kv_of S) \<noteq> Abort w" "Delete E key (kv_of S) \<noteq> Abort w"
proof -
  have inv: "kv_inv E (kv_of S)" using S by (simp add: sys_ok_def)
  show "put_next E fuel (put_at S) (kv_of S) \<noteq> Abort w" using sys_put_next [OF hp S, of fuel] by auto
  have "safe (\<lambda>_. True) (\<lambda>f' t. flush_went E (put_mem (put_at S)) (kv_of S) f' t) (flush_next E (flush_at S) (kv_of S))"
    by (rule flush_next_went) (use S in \<open>auto simp: sys_ok_def dest: put_mem_held\<close>)
  then show "flush_next E (flush_at S) (kv_of S) \<noteq> Abort w" by auto
  show "do_slab_gc E (kv_of S) \<noteq> Abort w" using do_slab_gc_safe [OF inv hp] by auto
  have "data_inv E (kv_of S)" using inv by (simp add: kv_inv_def)
  from get_slice_safe [OF this, of key] show "Get E key (kv_of S) \<noteq> Abort w"
    by (cases "get_slice E key (kv_of S)") (auto simp: Get_def split: sum.splits)
  show "Delete E key (kv_of S) \<noteq> Abort w" using Delete_safe [OF inv, of key] by auto
qed

subsection \<open>Steps in a row\<close>

text \<open>A thread that runs alone and does not block: the steps of one call end where the whole call ends.\<close>

definition flush_alone :: "'db env \<Rightarrow> flush_phase \<times> 'db kv \<Rightarrow> flush_phase \<times> 'db kv \<Rightarrow> bool" where
  "flush_alone E x y \<longleftrightarrow> flush_next E (fst x) (snd x) = Ret (fst y) (snd y)"

definition put_alone :: "'db env \<Rightarrow> nat \<Rightarrow> put_phase \<times> 'db kv \<Rightarrow> event \<Rightarrow> put_phase \<times> 'db kv \<Rightarrow> bool" where
  "put_alone E fuel x e y \<longleftrightarrow> put_next E fuel (fst x) (snd x) = Ret (fst y, e) (snd y)"

lemma flush_aloneI: "flush_next E f s = Ret f' s' \<Longrightarrow> (flush_alone E)\<^sup>*\<^sup>* (f', s') y \<Longrightarrow> (flush_alone E)\<^sup>*\<^sup>* (f, s) y"
  by (rule converse_rtranclp_into_rtranclp) (simp_all add: flush_alone_def)

lemma find_dslab_alone:
  assumes "find_dslab E fuel s = Ret r t"
  shows "(flush_alone E)\<^sup>*\<^sup>* (FTaken m, s) (case r of None \<Rightarrow> FIdle | Some (d, c) \<Rightarrow> FFound m d c, t)"
  using assms
proof (induction fuel arbitrary: s)
  case (Suc n)
  obtain r1 s1 where scan: "flush_scan E s = Ret r1 s1"
    and rest: "(case r1 of Some dc \<Rightarrow> Ret (Some dc) s1
      | None \<Rightarrow> seq (wait_slab_gc_until_shutdown s1) (\<lambda>go s. if \<not> go then Ret None s else find_dslab E n s)) = Ret r t"
    using Suc.prems unfolding find_dslab_steps seq_Ret_iff by blast
  show ?case
  proof (cases r1)
    case None
    obtain go s2 where w: "wait_slab_gc_until_shutdown s1 = Ret go s2" and "(if \<not> go then Ret None s2 else find_dslab E n s2) = Ret r t"
      using rest unfolding None by (auto simp: seq_Ret_iff)
    then have "(flush_alone E)\<^sup>*\<^sup>* (if go then FTaken m else FIdle, s2) (case r of None \<Rightarrow> FIdle | Some (d, c) \<Rightarrow> FFound m d c, t)"
      using Suc.IH by (auto split: if_splits)
    then have "(flush_alone E)\<^sup>*\<^sup>* (FWaiting m, s1) (case r of None \<Rightarrow> FIdle | Some (d, c) \<Rightarrow> FFound m d c, t)"
      by (rule flush_aloneI [rotated]) (simp add: w)
    then show ?thesis by (rule flush_aloneI [rotated]) (simp add: scan None)
  next
    case (Some dc)
    then show ?thesis
      using rest scan by (cases dc) (rule r_into_rtranclp, auto simp: flush_alone_def)
  qed
qed simp

lemma flush_to_alone:
  assumes "flush_to E m d c s = Ret go t"
  shows "(flush_alone E)\<^sup>*\<^sup>* (FFound m d c, s) (FIdle, t)"
proof -
  obtain u1 s1 u2 s2 where "flush_write E m d c s = Ret u1 s1" "flush_index E m d s1 = Ret u2 s2" and "t = flush_full d c (flush_free m s2)"
    using assms unfolding flush_to_steps seq_Ret_iff by auto
  then have "flush_alone E (FFound m d c, s) (FWritten m d c, s1)" "flush_alone E (FWritten m d c, s1) (FMoved m d c, s2)"
    "flush_alone E (FMoved m d c, s2) (FFreed d c, flush_free m s2)" "flush_alone E (FFreed d c, flush_free m s2) (FIdle, t)"
    by (simp_all add: flush_alone_def)
  then show ?thesis by (meson converse_rtranclp_into_rtranclp rtranclp.rtrancl_refl)
qed

lemma do_slab_flush_alone:
  assumes "do_slab_flush E fuel s = Ret go t"
  shows "(flush_alone E)\<^sup>*\<^sup>* (FIdle, s) (FIdle, t)"
proof -
  obtain r s1 where take: "flush_take s = Ret r s1"
    and rest: "(case r of None \<Rightarrow> Ret False s1 | Some m \<Rightarrow> seq (find_dslab E fuel s1)
      (\<lambda>r s. case r of None \<Rightarrow> Ret False s | Some (d, c) \<Rightarrow> flush_to E m d c s)) = Ret go t"
    using assms unfolding do_slab_flush_steps seq_Ret_iff by blast
  show ?thesis
  proof (cases r)
    case None
    then show ?thesis using rest take by (intro r_into_rtranclp) (simp add: flush_alone_def)
  next
    case (Some m)
    obtain r2 s2 where find: "find_dslab E fuel s1 = Ret r2 s2"
      and fin: "(case r2 of None \<Rightarrow> Ret False s2 | Some (d, c) \<Rightarrow> flush_to E m d c s2) = Ret go t"
      using rest unfolding Some by (auto simp: seq_Ret_iff)
    have "(flush_alone E)\<^sup>*\<^sup>* (case r2 of None \<Rightarrow> FIdle | Some (d, c) \<Rightarrow> FFound m d c, s2) (FIdle, t)"
      using fin flush_to_alone by (auto split: option.splits prod.splits)
    with find_dslab_alone [OF find, of m] have "(flush_alone E)\<^sup>*\<^sup>* (FTaken m, s1) (FIdle, t)" by (rule rtranclp_trans)
    then show ?thesis by (rule flush_aloneI [rotated]) (simp add: take Some)
  qed
qed

text \<open>The slab number that \<^verbatim>\<open>Put\<close> enters into the index is the one of the slab it has written to.\<close>

lemma put_begin_loc:
  assumes inv: "kv_inv E s" and bg: "enable_background_flush s" and run: "put_begin E fuel key v s = Ret (Inr (m, l)) t"
  shows "l = (m, snd l)"
proof -
  have "put_went E {} {} s (PWritten key v m (snd l)) EvWake t"
    using put_begin_went [OF inv bg, of "{}" "{}" key v fuel] run by simp
  then have "data_inv E t" "m < length (slabs t)" by (simp_all add: put_went_def pending_def)
  then have "sid (slabs t ! m) = m" by (rule data_inv_slab(4))
  moreover have "fst l = sid (slabs t ! m)"
  proof -
    obtain r u where "slot_alloc E fuel fuel (slot_size_of key v) s = Ret r u" using run unfolding put_begin_def seq_Ret_iff by blast
    then show ?thesis using run by (cases r) (auto simp: put_begin_def seq_Ret_iff Let_def check_def split: if_splits)
  qed
  ultimately show ?thesis by (cases l) simp
qed

lemma Put_alone:
  assumes inv: "kv_inv E s" and bg: "enable_background_flush s" and run: "Put E fuel key v s = Ret st t"
  shows "\<exists>es. runs (put_alone E fuel) (PCalled key v, s) es (PIdle, t) \<and> filter (\<lambda>e. e \<noteq> EvWake) es = [EvPut key v st]"
proof -
  obtain r s1 where beg: "put_begin E fuel key v s = Ret r s1"
    and rest: "(case r of Inl st \<Rightarrow> Ret st s1 | Inr (m, l) \<Rightarrow>
      seq (put_index E fuel key l s1) (\<lambda>_ s. seq (retire_full E fuel m s) (\<lambda>_ s. Ret OK s))) = Ret st t"
    using run unfolding Put_steps seq_Ret_iff by blast
  show ?thesis
  proof (cases r)
    case (Inl st')
    have "runs (put_alone E fuel) (PCalled key v, s) ([] @ [EvPut key v st]) (PIdle, t)"
      by (rule runs_snoc [OF runs_Nil]) (use rest beg Inl in \<open>simp add: put_alone_def\<close>)
    then show ?thesis by (intro exI [of _ "[EvPut key v st]"]) simp
  next
    case (Inr ml)
    obtain m l where ml: "ml = (m, l)" by (cases ml)
    have l: "l = (m, snd l)" using put_begin_loc [OF inv bg] beg Inr ml by blast
    obtain u2 s2 u3 where "put_index E fuel key (m, snd l) s1 = Ret u2 s2" "retire_full E fuel m s2 = Ret u3 t" "st = OK"
      using rest l unfolding Inr ml by (auto simp: seq_Ret_iff)
    then have "runs (put_alone E fuel) (PCalled key v, s) ((([] @ [EvWake]) @ [EvPut key v st]) @ [EvWake]) (PIdle, t)"
      using beg Inr ml by (intro runs_snoc [OF runs_snoc [OF runs_snoc [OF runs_Nil,
        where u = "(PWritten key v m (snd l), s1)"], where u = "(PIndexed m, s2)"]]) (simp_all add: put_alone_def)
    then show ?thesis by (intro exI [of _ "[EvWake, EvPut key v st, EvWake]"]) simp
  qed
qed

subsection \<open>Shutdown\<close>

text \<open>
  A client that waits for an index entry is not woken by shutdown: its condition does not look at
  \<^verbatim>\<open>shutdown_\<close>, and both background threads leave their loops without a round.
\<close>

definition stranded :: "'db env \<Rightarrow> put_phase \<Rightarrow> 'db sys \<Rightarrow> bool" where
  "stranded E p S \<longleftrightarrow> kv_inv E (kv_of S) \<and> shutdown (kv_of S) \<and> nr_free_index_entry (index (kv_of S)) = 0 \<and>
     \<not> index_locked (kv_of S) \<and> enable_background_flush (kv_of S) \<and> enable_background_gc (kv_of S) \<and>
     put_at S = p \<and> flush_at S = FIdle"

lemma put_resume_stuck:
  assumes ok: "index_ok (index s)" and bg: "enable_background_flush s" "enable_background_gc s" and free: "\<not> index_locked s"
    and none: "nr_free_index_entry (index s) = 0"
  shows "put_resume E (Suc fuel) key l s = Wait ''gc_finished_signal_'' (wake_both s)" and "put_resume E fuel key l s \<noteq> Ret u t"
proof -
  let ?s = "s\<lparr>index_locked := True\<rparr>"
  have "index_entry_alloc (index ?s) = (None, index s)" using none ok by (simp add: index_entry_alloc_def index_ok_def)
  then have "alloc_index_entry E (Suc n) (Suc n) ?s = Wait ''gc_finished_signal_'' (unlock_index (wake_both ?s))" for n
    by (subst alloc_index_entry_bg) (use ok bg in simp_all)
  then show *: "put_resume E (Suc fuel) key l s = Wait ''gc_finished_signal_'' (wake_both s)" for fuel
    using free by (simp add: put_resume_def put_new_entry_def lock_index_def unlock_index_def del: alloc_index_entry.simps)
  show "put_resume E fuel key l s \<noteq> Ret u t"
  proof (cases fuel)
    case 0
    then show ?thesis by (simp add: put_resume_def put_new_entry_def lock_index_def)
  qed (simp add: *)
qed

lemma stranded_step:
  assumes st: "stranded E (PNoEntry key v m n) S" and step: "sys_step E S e T" and e: "\<And>k. e \<noteq> EvDelete k"
  shows "stranded E (PNoEntry key v m n) T"
proof -
  let ?s = "kv_of S"
  have inv: "kv_inv E ?s" and ok: "index_ok (index ?s)" and sh: "shutdown ?s"
    using st by (simp_all add: stranded_def kv_inv_def data_inv_def)
  have stuck: "put_resume E fuel key (m, n) ?s \<noteq> Ret u t" "put_resume E fuel key (m, n) ?s = Wait w t \<Longrightarrow> t = wake_both ?s" for fuel u t w
    using st by (auto simp: stranded_def put_resume_stuck(2) [OF ok] dest: put_resume_wait [OF ok])
  show ?thesis
    using step
  proof cases
    case (sys_put fuel p t)
    then show ?thesis using st stuck(1) by (auto simp: stranded_def seq_Ret_iff)
  next
    case (sys_put_wait fuel w t)
    then have "put_resume E fuel key (m, n) ?s = Wait w t"
      using st by (cases "put_resume E fuel key (m, n) ?s") (auto simp: stranded_def)
    then have "t = wake_both ?s" by (rule stuck(2))
    then show ?thesis using st sys_put_wait wake_both_inv [OF inv] by (simp add: stranded_def)
  next
    case (sys_get k r t)
    then have "t = ?s" using Get_run(1) [OF inv] by blast
    then show ?thesis using st sys_get by (simp add: stranded_def)
  next
    case sys_shutdown
    then show ?thesis using st kv_inv_shutdown [OF inv] by (simp add: stranded_def) (simp add: KVCache_dtor_def)
  qed (use st e sh shutdown_ends(2) [OF sh] in \<open>auto simp: stranded_def flush_take_def\<close>)
qed

lemma stranded_runs:
  assumes "runs (sys_step E) S es T" and "stranded E (PNoEntry key v m n) S" and "\<And>k. EvDelete k \<notin> set es"
  shows "stranded E (PNoEntry key v m n) T"
  using assms by (induction rule: runs.induct) (auto intro: stranded_step)

subsection \<open>Progress\<close>

text \<open>What no step of the flush thread changes.\<close>

definition steady :: "'db kv \<Rightarrow> 'db kv \<Rightarrow> bool" where
  "steady s s' \<longleftrightarrow> slab_flush_thread_started s' = slab_flush_thread_started s \<and> slab_class_table s' = slab_class_table s \<and>
     nr_free_index_entry (index s') = nr_free_index_entry (index s) \<and> enable_background_gc s' = enable_background_gc s"

lemma steady_refl [simp]: "steady s s"
  by (simp add: steady_def)

lemma upd_slab_steady [simp]: "steady s (upd_slab i f s)"
  by (simp add: steady_def upd_slab_def)

lemma upd_slab_started [simp]: "slab_flush_thread_started (upd_slab i f s) = slab_flush_thread_started s"
  by (simp add: upd_slab_def)

lemma modify_index_to_steady:
  assumes "modify_index_to E m d s = Ret u s'"
  shows "steady s s'"
proof -
  let ?f = "modify_slot E (slabs s ! m) d"
  obtain s1 n where v: "visit_slots ?f [0..<nr_alloc (slabs s ! m)] (s, 0) = Ret () (s1, n)" and s': "steady s1 s'"
    using assms by (cases "visit_slots ?f [0..<nr_alloc (slabs s ! m)] (s, 0)")
      (auto simp: modify_index_to_def for_each_slot_def steady_def)
  have "steady (fst (s, 0 :: int)) (fst (s1, n))"
    by (rule visit_slots_rel [where R = "\<lambda>a b. steady (fst a) (fst b)", OF _ _ _ v])
      (auto simp: modify_slot_def steady_def set_entry_loc_def split: sum.splits option.splits if_splits)
  then show ?thesis using s' by (simp add: steady_def)
qed

lemma take_free_dslab_steady: "take_free_dslab n b s = Ret r s' \<Longrightarrow> steady s s'"
  by (induction n b s rule: take_free_dslab.induct)
    (auto simp: steady_def Let_def seq_Ret_iff split: list.splits if_splits)

lemma flush_scan_steady:
  assumes "flush_scan E s = Ret r t" and "enable_background_gc s"
  shows "steady s t"
proof -
  obtain r1 s1 where s1: "take_free_dslab (nat (nr_channels (ssd s))) (next_mslab_flush_channel s) s = Ret r1 s1"
    and rest: "(case r1 of Some dc \<Rightarrow> Ret (Some dc) s1 | None \<Rightarrow> seq (slab_gc E s1) (\<lambda>_ s. Ret None s)) = Ret r t"
    using assms(1) unfolding flush_scan_def seq_Ret_iff by blast
  show ?thesis
    using take_free_dslab_steady [OF s1] rest assms(2) by (cases r1) (auto simp: slab_gc_def steady_def)
qed

lemma flush_next_steady:
  assumes run: "flush_next E f s = Ret f' t" and bg: "enable_background_gc s"
  shows "steady s t"
proof (cases f)
  case FIdle
  then show ?thesis using run by (auto simp: seq_Ret_iff flush_take_def steady_def split: if_splits list.splits)
next
  case (FTaken m)
  then show ?thesis using run flush_scan_steady [OF _ bg] by (auto simp: seq_Ret_iff)
next
  case (FWaiting m)
  then show ?thesis using run by (auto simp: seq_Ret_iff wait_slab_gc_until_shutdown_def split: if_splits)
next
  case (FFound m d c)
  then show ?thesis
    using run by (auto simp: seq_Ret_iff flush_write_def flush_mslab_to_dslab_def steady_def Let_def split: prod.splits if_splits)
next
  case (FWritten m d c)
  obtain s1 where "modify_index_to E m d (s\<lparr>index_locked := True\<rparr>) = Ret () s1" "t = unlock_index s1"
    using run FWritten by (auto simp: seq_Ret_iff flush_index_def lock_index_def split: if_splits)
  then show ?thesis using modify_index_to_steady [of E m d] by (fastforce simp: steady_def unlock_index_def)
qed (use run in \<open>auto simp: flush_free_def flush_full_def steady_def Let_def\<close>)

lemma runs_append: "runs step t es' u \<Longrightarrow> runs step s es t \<Longrightarrow> runs step s (es @ es') u"
  by (induction rule: runs.induct) (auto simp flip: append_assoc intro: runs.intros)

text \<open>A thread that runs alone runs in the system.\<close>

lemma flush_alone_sys:
  assumes "(flush_alone E)\<^sup>*\<^sup>* x y" and "x = (flush_at S, kv_of S)" and "slab_flush_thread_started (kv_of S)" and "enable_background_gc (kv_of S)"
  shows "\<exists>es. runs (sys_step E) S es (S\<lparr>kv_of := snd y, flush_at := fst y\<rparr>) \<and> set es \<subseteq> {EvFlush} \<and> steady (kv_of S) (snd y)"
  using assms
proof (induction rule: rtranclp_induct)
  case base
  then show ?case by (intro exI [of _ "[]"]) (simp add: runs_Nil)
next
  case (step y z)
  obtain es where es: "runs (sys_step E) S es (S\<lparr>kv_of := snd y, flush_at := fst y\<rparr>)" "set es \<subseteq> {EvFlush}" and st: "steady (kv_of S) (snd y)"
    using step by blast
  have run: "flush_next E (fst y) (snd y) = Ret (fst z) (snd z)" using step.hyps(2) by (simp add: flush_alone_def)
  have "steady (snd y) (snd z)" using flush_next_steady [OF run] st step.prems(3) by (simp add: steady_def)
  moreover have "sys_step E (S\<lparr>kv_of := snd y, flush_at := fst y\<rparr>) EvFlush (S\<lparr>kv_of := snd z, flush_at := fst z\<rparr>)"
    using sys_flush [of "S\<lparr>kv_of := snd y, flush_at := fst y\<rparr>" E "fst z" "snd z"] run st step.prems(2) by (simp add: steady_def)
  ultimately show ?case
    using runs_snoc [OF es(1)] es(2) st by (intro exI [of _ "es @ [EvFlush]"]) (auto simp: steady_def)
qed

lemma put_alone_sys:
  assumes "runs (put_alone E fuel) x es y" and "x = (put_at S, kv_of S)"
  shows "runs (sys_step E) S es (S\<lparr>kv_of := snd y, put_at := fst y\<rparr>)"
  using assms
proof (induction rule: runs.induct)
  case runs_Nil
  then show ?case by (simp add: runs.runs_Nil)
next
  case (runs_snoc x es y e z)
  have "sys_step E (S\<lparr>kv_of := snd y, put_at := fst y\<rparr>) e (S\<lparr>kv_of := snd z, put_at := fst z\<rparr>)"
    using sys_put [of E fuel "S\<lparr>kv_of := snd y, put_at := fst y\<rparr>" "fst z" e "snd z"] runs_snoc.hyps(2) by (simp add: put_alone_def)
  then show ?case by (rule runs.runs_snoc [OF runs_snoc.IH [OF runs_snoc.prems]])
qed

text \<open>
  A client that waits for a memory slab can go on: with a full slab to flush and a free disk slab, a
  round of the flush thread frees one, and the \<^verbatim>\<open>Put\<close> then returns OK.
\<close>

lemma waiting_put_returns:
  assumes hp: "heap_pick_ok E" and S: "sys_ok E S" and ev: "evp_ok (hash E)" and w: "writable E (kv_of S)"
    and p: "put_at S = PWaiting key v" and f: "flush_at S = FIdle" "slab_flush_thread_started (kv_of S)"
    and sh: "\<not> shutdown (kv_of S)" and full: "items (mslab_full (kv_of S)) \<noteq> []" and fd: "0 < nr_free_dslab (kv_of S)"
    and fe: "cache E (kv_of S) key \<noteq> None \<or> 0 < nr_free_index_entry (index (kv_of S))"
    and cl: "get_slab_class (slab_class_table (kv_of S)) (slot_size_of key v) = Inr c"
  shows "\<exists>es T. runs (sys_step E) S es T \<and> EvPut key v OK \<in> set es \<and> put_at T = PIdle \<and> cache E (kv_of T) key = Some v"
proof -
  let ?s = "kv_of S"
  have inv: "kv_inv E ?s" and free: "\<not> index_locked ?s" and bg: "enable_background_flush ?s" "enable_background_gc ?s"
    using S by (simp_all add: sys_ok_def)
  obtain m ms where m: "items (mslab_full ?s) = m # ms" using full by (cases "items (mslab_full ?s)") auto
  obtain t where t: "do_slab_flush E (Suc 0) ?s = Ret True t" "items (mslab_free t) = m # items (mslab_free ?s)" "cache E t = cache E ?s"
    using do_slab_flush_returns [OF inv ev free w sh m fd, of 0] unfolding total_iff by auto
  have r: "flush_result E ?s t" using do_slab_flush_safe [OF inv hp, of "Suc 0"] t(1) by simp
  then have it: "kv_inv E t" "\<not> index_locked t" "\<not> shutdown t" "enable_background_flush t" "slab_class_table t = slab_class_table ?s"
    using free sh bg by (simp_all add: flush_result_def same_place_def)
  obtain es1 where es1: "runs (sys_step E) S es1 (S\<lparr>kv_of := t, flush_at := FIdle\<rparr>)" and st: "steady ?s t"
    using flush_alone_sys [OF do_slab_flush_alone [OF t(1)], of S] f bg(2) by auto
  let ?S1 = "S\<lparr>kv_of := t, flush_at := FIdle\<rparr>" and ?S2 = "S\<lparr>kv_of := t, flush_at := FIdle, kv_of := t, put_at := PCalled key v\<rparr>"
  have "put_next E 0 (put_at ?S1) (kv_of ?S1) = Ret (PCalled key v, EvWake) t"
    using it t(2) p by (simp add: wait_slab_flush_until_shutdown_def)
  then have "sys_step E ?S1 EvWake ?S2" by (rule sys_put)
  then have es2: "runs (sys_step E) S (es1 @ [EvWake]) ?S2" by (rule runs_snoc [OF es1])
  have "mem_room t (slot_size_of key v)" using cl it(5) t(2) by (simp add: mem_room_def)
  moreover have "view t (hk E t key) \<noteq> None \<or> 0 < nr_free_index_entry (index t)"
    using st fe unfolding t(3) [symmetric] by (auto simp: steady_def cache_def split: option.splits)
  ultimately obtain u where u: "Put E (Suc (Suc 0)) key v t = Ret OK u" "cache E u = put_map E t key v"
    using Put_returns [OF it(1) hp _ it(2) ev, of key v 0] unfolding total_iff by auto
  obtain es3 where es3: "runs (put_alone E (Suc (Suc 0))) (PCalled key v, t) es3 (PIdle, u)" and
    e3: "filter (\<lambda>e. e \<noteq> EvWake) es3 = [EvPut key v OK]"
    using Put_alone [OF it(1,4) u(1)] by blast
  have "EvPut key v OK \<in> set (filter (\<lambda>e. e \<noteq> EvWake) es3)" unfolding e3 by simp
  then have ev3: "EvPut key v OK \<in> set es3" by simp
  have "runs (sys_step E) ?S2 es3 (?S2\<lparr>kv_of := u, put_at := PIdle\<rparr>)" using put_alone_sys [OF es3, of ?S2] by simp
  with es2 have "runs (sys_step E) S ((es1 @ [EvWake]) @ es3) (?S2\<lparr>kv_of := u, put_at := PIdle\<rparr>)" by (rule runs_append [rotated])
  then show ?thesis
    using ev3 u(2) by (intro exI [of _ "(es1 @ [EvWake]) @ es3"] exI [of _ "?S2\<lparr>kv_of := u, put_at := PIdle\<rparr>"]) (simp add: put_map_def)
qed

end
