(* ===== verification/KV_Readers.thy ===== *)
theory KV_Readers
  imports KV_System
begin

text \<open>
  \<^verbatim>\<open>Get\<close> in two steps. \<^verbatim>\<open>get_slice\<close> returns a \<^verbatim>\<open>string_view\<close>: for a disk slab into the caller's own read
  buffer, for a memory slab into the slab itself. It releases \<^verbatim>\<open>index_mutex_\<close> when it returns, and \<^verbatim>\<open>Get\<close>
  copies the value afterwards. As long as the slab is left alone the copy is the value; when the
  flush thread has freed the slab and a client reuses it in between, the copy is something else.
\<close>

subsection \<open>Slices\<close>

text \<open>A slice of a memory slab (slab, offset in its data, length), or of a buffer of the caller.\<close>

datatype slice = MemSlice nat nat nat | OwnSlice bytes

fun slice_bytes :: "'db kv \<Rightarrow> slice \<Rightarrow> bytes" where
  "slice_bytes s (MemSlice i off n) = bread off n (data (slabs s ! i))"
| "slice_bytes s (OwnSlice v) = v"

text \<open>The lookup, up to the release of the lock.\<close>

definition get_view :: "'db env \<Rightarrow> bytes \<Rightarrow> 'db kv \<Rightarrow> (Status + slice, 'db kv) outcome" where
  "get_view E key s =
     (if index_locked s then Wait ''index_mutex_'' s
      else
        seq (index_lookup E key s) (\<lambda>r s.
        case r of
          None \<Rightarrow> Ret (Inl (NotFound ''Key not found'')) s
        | Some e \<Rightarrow>
            let i = ie_slab_id (ientries (index s) ! e);
                slot = ie_slot_id (ientries (index s) ! e)
            in seq (slab_by_sid i s) (\<lambda>sl s.
               seq (if im_memory sl
                    then seq (check (slot < nr_alloc sl) ''index_entry->slot_id < slab->nr_alloc'' s)
                           (\<lambda>_ s. let off = slab_slot sl slot in
                              Ret (slot_key (data sl) off,
                                   MemSlice i (off + slot_header_size + slot_key_len (data sl) off) (slot_value_len (data sl) off)) s)
                    else seq (read_dslab E sl s) (\<lambda>dslab s.
                           let off = slab_slot dslab slot in
                           Ret (slot_key (data dslab) off, OwnSlice (slot_value (data dslab) off)) s))
                 (\<lambda>(k, v) s.
                    if key \<noteq> k then Ret (Inl (NotFound ''Key not found'')) s
                    else Ret (Inr v) s))))"

text \<open>The copy of the slice into the result.\<close>

definition get_copy :: "Status + slice \<Rightarrow> 'db kv \<Rightarrow> Status \<times> bytes option" where
  "get_copy r s = (case r of Inl st \<Rightarrow> (st, None) | Inr sl \<Rightarrow> (OK, Some (slice_bytes s sl)))"

text \<open>The two steps without anything in between are \<^verbatim>\<open>Get\<close>.\<close>

lemma get_slice_view:
  "get_slice E key s = seq (get_view E key s) (\<lambda>r s. Ret (map_sum id (slice_bytes s) r) s)"
proof (cases "index_lookup E key s")
  case (Ret r t)
  then have t: "t = s" by (auto simp: index_lookup_def split: sum.splits)
  have mem: "slot_value d off = bread (off + slot_header_size + slot_key_len d off) (slot_value_len d off) d" for d off
    by (simp add: slot_value_def)
  show ?thesis
    using Ret unfolding t
    by (cases r)
      (auto simp: get_slice_def get_view_def Let_def slab_by_sid_def check_def slot_kv_def read_dslab_def mem split: sum.splits)
qed (simp_all add: get_slice_def get_view_def)

lemma Get_view: "Get E key s = seq (get_view E key s) (\<lambda>r s. Ret (get_copy r s) s)"
  by (cases "get_view E key s") (auto simp: Get_def get_slice_view get_copy_def split: sum.splits)

text \<open>The copy is right as long as the slab keeps its data.\<close>

lemma slice_kept:
  assumes "\<And>i off n. sl = MemSlice i off n \<Longrightarrow> data (slabs s' ! i) = data (slabs s ! i)"
  shows "slice_bytes s' sl = slice_bytes s sl"
  using assms by (cases sl) simp_all

subsection \<open>A slab that is reused under a reader\<close>

lemma take_free_alloc: "nr_alloc (slabs (take_free_mslab c m s) ! j) = nr_alloc (slabs s ! j)"
  by (cases "m < length (slabs s)"; cases "j = m")
    (simp_all add: take_free_mslab_def upd_class_def upd_slab_def Let_def list_update_beyond)

lemma put_fresh:
  assumes inv: "kv_inv E s" and cl: "get_slab_class (slab_class_table s) (slot_size_of key v) = Inr c"
    and no_partial: "slab_partial (slab_class_table s ! c) = []" and fr: "items (mslab_free s) = m # ms"
  defines "u \<equiv> put_write c m key v (take_free_mslab c m s)"
  shows "put_begin E (Suc (Suc n)) key v s = Ret (Inr (m, (m, 0))) u" and "pending E key v m 0 u" and "m < gc_buffer u"
    and "kv_inv E u" and "index_locked u = index_locked s" and "index u = index s"
proof -
  let ?t = "take_free_mslab c m s"
  have c: "c < length (slab_class_table s)" using get_slab_class_Inr [OF cl] by simp
  note t = take_free_mslab_ok [OF inv fr c]
  have cl': "get_slab_class (slab_class_table ?t) (slot_size_of key v) = Inr c" using get_slab_class_cong [OF t(6)] cl by simp
  have c': "c < length (slab_class_table ?t)" using get_slab_class_Inr [OF cl'] by simp
  have p: "slab_partial (slab_class_table ?t ! c) = [m]" using t(5) no_partial by simp
  obtain slot s' where run: "alloc_partial c m ?t = Ret slot s'" using alloc_partial_eq(5) [OF t(1) c' p] by blast
  have "sc_cid (slab_class_table s ! c) = int c" using geom_class(4) [of E s "int c"] inv c by (simp add: kv_inv_def data_inv_def)
  then have "slot_alloc E (Suc (Suc n)) (Suc (Suc n)) (slot_size_of key v) s = Ret (Inr slot) s'" using cl cl' no_partial fr p run by simp
  note b = put_begin_Inr [OF t(1) cl' p run this]
  have "nr_alloc (slabs s ! m) = 0" using inv fr by (simp add: kv_inv_def mem_inv_def)
  then have "nr_alloc (slabs ?t ! m) = 0" by (simp add: take_free_alloc)
  then show "put_begin E (Suc (Suc n)) key v s = Ret (Inr (m, (m, 0))) u" "pending E key v m 0 u" "m < gc_buffer u"
    using b put_write_pending(3,4) [OF t(1) cl' p] by (simp_all add: u_def)
  show "kv_inv E u" "index_locked u = index_locked s" "index u = index s"
    using put_write_pending(1,7,8) [OF t(1) cl' p] t(4) by (simp_all add: u_def)
      (simp add: take_free_mslab_def upd_class_def Let_def)
qed

text \<open>The first slot of a memory slab.\<close>

lemma first_slot:
  assumes data: "data_inv E s" and m: "m < nr_mslab s" and al: "0 < nr_alloc (slabs s ! m)" and kv: "content E s (m, 0) = (key, val)"
  shows "slot_key (data (slabs s ! m)) 0 = key" and "slot_key_len (data (slabs s ! m)) 0 = length key"
    and "slot_value_len (data (slabs s ! m)) 0 = length val"
    and "slice_bytes s (MemSlice m (slot_header_size + length key) (length val)) = val"
proof -
  note g = data_invD(1) [OF data]
  note mem = geom_mem [OF g m]
  note hdr = data_inv_slab(1) [OF data mem(4)]
  let ?d = "data (slabs s ! m)"
  show k: "slot_key ?d 0 = key"
    using kv mem(3) by (simp add: content_def slab_data_def slot_kv_def slab_slot_def)
  have v: "slot_value ?d 0 = val"
    using kv mem(3) by (simp add: content_def slab_data_def slot_kv_def slab_slot_def)
  have "slot_fits (slot_size (slabs s ! m)) ?d 0"
    using data_inv_slab(3) [OF data mem(4)] al mem(3) by (auto simp: slots_fit_def slab_data_def slab_slot_def)
  moreover have "0 < nr_slots (slabs s ! m)" using hdr al by (simp add: hdr_ok_def)
  then have "slot_size (slabs s ! m) \<le> length ?d"
    using slots_in_slab [OF g hdr] mem(1) by (cases "nr_slots (slabs s ! m)") simp_all
  ultimately show len: "slot_key_len ?d 0 = length key" "slot_value_len ?d 0 = length val"
    using k v by (auto simp: slot_fits_def slot_key_def slot_value_def bread_def)
  show "slice_bytes s (MemSlice m (slot_header_size + length key) (length val)) = val"
    using v len by (simp add: slot_value_def)
qed

text \<open>The slice of an object in the first slot of a memory slab.\<close>

lemma get_view_first:
  assumes inv: "kv_inv E s" and free: "\<not> index_locked s" and ev: "evp_ok (hash E)"
    and v: "view s (hk E s key) = Some (m, 0)" and kv: "content E s (m, 0) = (key, val)" and m: "m < nr_mslab s"
  shows "get_view E key s = Ret (Inr (MemSlice m (slot_header_size + length key) (length val))) s"
    and "slice_bytes s (MemSlice m (slot_header_size + length key) (length val)) = val"
proof -
  have data: "data_inv E s" using inv by (simp add: kv_inv_def)
  note mem = geom_mem [OF data_invD(1) [OF data] m] and pt = data_inv_point [OF data v]
  have al: "0 < nr_alloc (slabs s ! m)" using pt(2) by simp
  note fs = first_slot [OF data m al kv]
  obtain r where r: "get_index_entry (hash E) key (index s) = Inr r" using ev by (simp add: get_index_entry_ok)
  then obtain e where e: "r = Some e"
    using get_index_entry_None [OF data_invD(3) [OF data], of "hash E" key] v by (cases r) (auto simp: hk_def)
  have "entry_loc (index s) e = (m, 0)"
    using get_index_entry_Some(1) [OF data_invD(3) [OF data], of "hash E" key e] r e v by (simp add: hk_def)
  then have "ie_slab_id (ientries (index s) ! e) = m" "ie_slot_id (ientries (index s) ! e) = 0" by (simp_all add: entry_loc_def)
  moreover have "m < nr_mslab s + nr_dslab s" using m by simp
  ultimately show "get_view E key s = Ret (Inr (MemSlice m (slot_header_size + length key) (length val))) s"
    using free r e mem(3) al fs(1-3)
    by (simp add: get_view_def index_lookup_def slab_by_sid_def Let_def slab_slot_def)
  show "slice_bytes s (MemSlice m (slot_header_size + length key) (length val)) = val"
    by (rule fs(4))
qed

text \<open>
  A reader has looked up an object in a full memory slab. The flush thread writes the slab out and
  frees it, a client takes it for an object of the same lengths and writes it: the reader copies
  that object's value, although nothing was put under its own key.
\<close>

lemma stale_slice:
  assumes hp: "heap_pick_ok E" and S: "sys_ok E (sys_start s)" and ev: "evp_ok (hash E)" and w: "writable E s"
    and st: "slab_flush_thread_started s" and sh: "\<not> shutdown s" and fd: "0 < nr_free_dslab s"
    and full: "items (mslab_full s) = m # ms" and v: "view s (hk E s key) = Some (m, 0)" and kv: "content E s (m, 0) = (key, val)"
    and cl: "get_slab_class (slab_class_table s) (slot_size_of key' val') = Inr c"
    and no_partial: "slab_partial (slab_class_table s ! c) = []"
    and len: "length key' = length key" "length val' = length val"
  shows "\<exists>sl es T. get_view E key s = Ret (Inr sl) s \<and> slice_bytes s sl = val \<and> runs (sys_step E) (sys_start s) es T \<and>
    set es \<subseteq> {EvFlush, EvWake} \<and> slice_bytes (kv_of T) sl = val'"
proof -
  let ?sl = "MemSlice m (slot_header_size + length key) (length val)"
  have inv: "kv_inv E s" and free: "\<not> index_locked s" and bg: "enable_background_flush s" "enable_background_gc s"
    using S by (simp_all add: sys_ok_def sys_start_def)
  have m: "m < nr_mslab s" using inv full by (auto simp: kv_inv_def mem_inv_def mem_lists_def)
  note view = get_view_first [OF inv free ev v kv m]
  obtain t where t: "do_slab_flush E (Suc 0) s = Ret True t" "items (mslab_free t) = m # items (mslab_free s)" "kv_inv E t"
    using do_slab_flush_returns [OF inv ev free w sh full fd, of 0] unfolding total_iff by auto
  have r: "flush_result E s t" using do_slab_flush_safe [OF inv hp, of "Suc 0"] t(1) by simp
  then have tab: "slab_class_table t = slab_class_table s" and sp: "same_place s t" by (simp_all add: flush_result_def)
  obtain es where es: "runs (sys_step E) (sys_start s) es (sys_start t)" "set es \<subseteq> {EvFlush}"
    using flush_alone_sys [OF do_slab_flush_alone [OF t(1)], of "sys_start s"] st bg(2) by (auto simp: sys_start_def)
  let ?u = "put_write c m key' val' (take_free_mslab c m t)"
  note f = put_fresh [OF t(3) cl [folded tab] no_partial [folded tab] t(2)]
  have "sys_step E (sys_start t) EvWake ((sys_start t)\<lparr>put_at := PCalled key' val'\<rparr>)" by (rule sys_call) (simp add: sys_start_def)
  moreover have "sys_step E ((sys_start t)\<lparr>put_at := PCalled key' val'\<rparr>) EvWake
      ((sys_start t)\<lparr>put_at := PCalled key' val', kv_of := ?u, put_at := PWritten key' val' m 0\<rparr>)"
    by (rule sys_put [where fuel = "Suc (Suc 0)"]) (simp add: sys_start_def f(1))
  ultimately have run: "runs (sys_step E) (sys_start s) ((es @ [EvWake]) @ [EvWake])
      ((sys_start t)\<lparr>put_at := PCalled key' val', kv_of := ?u, put_at := PWritten key' val' m 0\<rparr>)"
    by (rule runs_snoc [OF runs_snoc [OF es(1)]])
  have "data_inv E ?u" "0 < nr_alloc (slabs ?u ! m)" "content E ?u (m, 0) = (key', val')" 
    using f(2) by (simp_all add: pending_def)
  moreover have "m < nr_mslab ?u" using f(3) by (simp add: gc_buffer_def)
  ultimately have "slice_bytes ?u ?sl = val'" using first_slot(4) [of E ?u m key' val'] len by simp
  then show ?thesis
    using view run es(2) by (intro exI [of _ ?sl] exI [of _ "(es @ [EvWake]) @ [EvWake]"] exI) auto
qed

end
