(* ===== verification/KV_CAPI.thy ===== *)
theory KV_CAPI
  imports KV_Init
begin

text \<open>
  The C interface (\<^verbatim>\<open>src/kvcache_c_api.cpp\<close>): handles around the C++ objects, setters for the
  configuration records, and wrappers that turn statuses and exceptions into return codes and
  error strings. A string argument with its length is a byte sequence; \<open>errptr\<close> says whether the
  caller passed a pointer for the error string, and the string stored there is part of the result.
\<close>

subsection \<open>Handles\<close>

text \<open>A handle holds the pointer to the object, which may be null. \<^verbatim>\<open>new ssd_t()\<close> makes it null.\<close>

record 'db ssd_t =
  ssd_ptr :: "'db ssd option"

record ssd_config_t =
  cfg_of :: config

record kvcache_options_t =
  options_of :: options

subsection \<open>Configuration of a device\<close>

definition ssd_config_create :: ssd_config_t where
  "ssd_config_create = \<lparr>cfg_of = \<lparr>cfg_nr_channels = 0, cfg_block_size = 0, cfg_blocks_per_channel = 0\<rparr>\<rparr>"

definition ssd_config_set_nr_channels :: "int \<Rightarrow> ssd_config_t \<Rightarrow> ssd_config_t" where
  "ssd_config_set_nr_channels n c = c\<lparr>cfg_of := (cfg_of c)\<lparr>cfg_nr_channels := n\<rparr>\<rparr>"

definition ssd_config_set_blocks_per_channel :: "int \<Rightarrow> ssd_config_t \<Rightarrow> ssd_config_t" where
  "ssd_config_set_blocks_per_channel n c = c\<lparr>cfg_of := (cfg_of c)\<lparr>cfg_blocks_per_channel := n\<rparr>\<rparr>"

definition ssd_config_set_block_size :: "int \<Rightarrow> ssd_config_t \<Rightarrow> ssd_config_t" where
  "ssd_config_set_block_size n c = c\<lparr>cfg_of := (cfg_of c)\<lparr>cfg_block_size := n\<rparr>\<rparr>"

subsection \<open>Devices\<close>

definition error_string :: "bool \<Rightarrow> string \<Rightarrow> string option" where
  "error_string errptr msg = (if errptr then Some msg else None)"

text \<open>\<^verbatim>\<open>ssd_create\<close>: the status of \<^verbatim>\<open>SSD::create\<close> is dropped; only an exception makes the result null.\<close>

definition ssd_create :: "'db rocksdb \<Rightarrow> string \<Rightarrow> bytes option \<Rightarrow> 'db ssd \<Rightarrow> ssd_config_t \<Rightarrow> bool \<Rightarrow> 'db \<Rightarrow>
    ('db ssd_t option \<times> string option, 'db) outcome" where
  "ssd_create R path fd u c errptr p =
     (case SSD_create R path fd u (cfg_of c) p of
        Ret (st, d) p \<Rightarrow> Ret (Some \<lparr>ssd_ptr = d\<rparr>, None) p
      | Exc e p \<Rightarrow> Ret (None, error_string errptr e) p
      | Abort m \<Rightarrow> Abort m | Wait w p \<Rightarrow> Wait w p | Hang \<Rightarrow> Hang)"

definition ssd_open :: "'db rocksdb \<Rightarrow> string \<Rightarrow> bytes option \<Rightarrow> 'db ssd \<Rightarrow> bool \<Rightarrow> 'db \<Rightarrow> 'db ssd_t option \<times> string option" where
  "ssd_open R path fd u errptr p =
     (case SSD_path R path p fd u of
        Inl e \<Rightarrow> (None, error_string errptr e)
      | Inr d \<Rightarrow> (Some \<lparr>ssd_ptr = Some d\<rparr>, None))"

subsection \<open>Options\<close>

text \<open>\<open>None\<close>: the null pointer in the handle is dereferenced.\<close>

definition kvcache_options_create :: "'db ssd_t \<Rightarrow> kvcache_options_t option" where
  "kvcache_options_create h = map_option (\<lambda>d. \<lparr>options_of = DefaultOptions d\<rparr>) (ssd_ptr h)"

text \<open>The three sizes are \<^verbatim>\<open>size_t\<close> arguments stored in \<^verbatim>\<open>int\<close> members.\<close>

definition kvcache_options_set_slab_mem_budget :: "nat \<Rightarrow> kvcache_options_t \<Rightarrow> kvcache_options_t" where
  "kvcache_options_set_slab_mem_budget n o' = o'\<lparr>options_of := (options_of o')\<lparr>slab_mem_budget := s32 (int n)\<rparr>\<rparr>"

definition kvcache_options_set_index_mem_budget :: "nat \<Rightarrow> kvcache_options_t \<Rightarrow> kvcache_options_t" where
  "kvcache_options_set_index_mem_budget n o' = o'\<lparr>options_of := (options_of o')\<lparr>index_mem_budget := s32 (int n)\<rparr>\<rparr>"

definition kvcache_options_set_index_table_size :: "nat \<Rightarrow> kvcache_options_t \<Rightarrow> kvcache_options_t" where
  "kvcache_options_set_index_table_size n o' = o'\<lparr>options_of := (options_of o')\<lparr>index_table_size := s32 (int n)\<rparr>\<rparr>"

text \<open>
  \<^verbatim>\<open>memcpy\<close> into the array of \<^verbatim>\<open>kMaxNumSlabClass\<close> elements; \<open>None\<close>: it writes past the end.
\<close>

definition kvcache_options_set_slab_class_size :: "int list \<Rightarrow> nat \<Rightarrow> kvcache_options_t \<Rightarrow> kvcache_options_t option" where
  "kvcache_options_set_slab_class_size sizes n o' =
     (if n \<le> kMaxNumSlabClass
      then Some (o'\<lparr>options_of := (options_of o')\<lparr>slab_class_size := take n sizes @ drop n (slab_class_size (options_of o')),
             nr_slab_class := n\<rparr>\<rparr>)
      else None)"

definition kvcache_options_set_ops_rate :: "fval \<Rightarrow> kvcache_options_t \<Rightarrow> kvcache_options_t" where
  "kvcache_options_set_ops_rate x o' = o'\<lparr>options_of := (options_of o')\<lparr>ops_rate := x\<rparr>\<rparr>"

definition kvcache_options_set_free_block_water_mark_low :: "fval \<Rightarrow> kvcache_options_t \<Rightarrow> kvcache_options_t" where
  "kvcache_options_set_free_block_water_mark_low x o' = o'\<lparr>options_of := (options_of o')\<lparr>opt_water_mark_low := x\<rparr>\<rparr>"

definition kvcache_options_set_free_block_water_mark_high :: "fval \<Rightarrow> kvcache_options_t \<Rightarrow> kvcache_options_t" where
  "kvcache_options_set_free_block_water_mark_high x o' = o'\<lparr>options_of := (options_of o')\<lparr>opt_water_mark_high := x\<rparr>\<rparr>"

definition kvcache_options_set_free_block_slab_water_mark_low_min :: "fval \<Rightarrow> kvcache_options_t \<Rightarrow> kvcache_options_t" where
  "kvcache_options_set_free_block_slab_water_mark_low_min x o' = o'\<lparr>options_of := (options_of o')\<lparr>opt_water_mark_low_min := x\<rparr>\<rparr>"

definition kvcache_options_set_free_block_slab_water_mark_high_max :: "fval \<Rightarrow> kvcache_options_t \<Rightarrow> kvcache_options_t" where
  "kvcache_options_set_free_block_slab_water_mark_high_max x o' = o'\<lparr>options_of := (options_of o')\<lparr>opt_water_mark_high_max := x\<rparr>\<rparr>"

definition kvcache_options_set_enable_background_flush :: "bool \<Rightarrow> kvcache_options_t \<Rightarrow> kvcache_options_t" where
  "kvcache_options_set_enable_background_flush b o' = o'\<lparr>options_of := (options_of o')\<lparr>opt_background_flush := b\<rparr>\<rparr>"

definition kvcache_options_set_enable_background_gc :: "bool \<Rightarrow> kvcache_options_t \<Rightarrow> kvcache_options_t" where
  "kvcache_options_set_enable_background_gc b o' = o'\<lparr>options_of := (options_of o')\<lparr>opt_background_gc := b\<rparr>\<rparr>"

subsection \<open>The cache\<close>

text \<open>The new cache, or null with the error string.\<close>

definition kvcache_create :: "'db env \<Rightarrow> host \<Rightarrow> 'db ssd \<Rightarrow> kvcache_options_t \<Rightarrow> bool \<Rightarrow> (bool \<times> string option, 'db kv) outcome" where
  "kvcache_create E h d o' errptr =
     (case KVCache_ctor E h d (options_of o') of
        Ret _ s \<Rightarrow> Ret (True, None) s
      | Exc e s \<Rightarrow> Ret (False, error_string errptr e) s
      | Abort m \<Rightarrow> Abort m | Wait w s \<Rightarrow> Wait w s | Hang \<Rightarrow> Hang)"

text \<open>The common part of \<^verbatim>\<open>kvcache_get\<close> and \<^verbatim>\<open>kvcache_put\<close>: the return code, the output and the error string.\<close>

definition wrap_status :: "bool \<Rightarrow> (Status \<times> 'v option, 's) outcome \<Rightarrow> (int \<times> 'v option \<times> string option, 's) outcome" where
  "wrap_status errptr m =
     (case m of
        Ret (st, v) s \<Rightarrow> if \<not> Status_ok st then Ret (-1, v, error_string errptr (st_msg st)) s else Ret (0, v, None) s
      | Exc e s \<Rightarrow> Ret (-1, None, error_string errptr e) s
      | Abort a \<Rightarrow> Abort a | Wait w s \<Rightarrow> Wait w s | Hang \<Rightarrow> Hang)"

definition kvcache_get :: "'db env \<Rightarrow> bytes \<Rightarrow> nat \<Rightarrow> bool \<Rightarrow> 'db kv \<Rightarrow> (int \<times> bytes option \<times> string option, 'db kv) outcome" where
  "kvcache_get E key buf_len errptr s = wrap_status errptr (Get_buffer E key buf_len s)"

definition kvcache_put :: "'db env \<Rightarrow> nat \<Rightarrow> bytes \<Rightarrow> bytes \<Rightarrow> bool \<Rightarrow> 'db kv \<Rightarrow> (int \<times> unit option \<times> string option, 'db kv) outcome" where
  "kvcache_put E fuel key value errptr s =
     wrap_status errptr (seq (Put E fuel key value s) (\<lambda>st s. Ret (st, None) s))"

definition kvcache_delete :: "'db env \<Rightarrow> bytes \<Rightarrow> 'db kv \<Rightarrow> (unit, 'db kv) outcome" where
  "kvcache_delete E key s = Delete E key s"

definition kvcache_max_kv_size :: "'db kv \<Rightarrow> nat" where
  "kvcache_max_kv_size s = MaxKVSize (slab_class_table s)"

subsection \<open>Results\<close>

lemma wrap_status_simps [simp]:
  "wrap_status e (Ret (OK, v) s) = Ret (0, v, None) s"
  "wrap_status e (Ret (NotFound m, v) s) = Ret (-1, v, error_string e m) s"
  "wrap_status e (Ret (BufferTooSmall m, v) s) = Ret (-1, v, error_string e m) s"
  "wrap_status e (Ret (ObjectTooLarge m, v) s) = Ret (-1, v, error_string e m) s"
  "wrap_status e (Exc x s) = Ret (-1, None, error_string e x) s"
  by (simp_all add: wrap_status_def) (simp_all add: status_defs)

text \<open>\<^verbatim>\<open>kvcache_get\<close> in full: the value if it fits the buffer, otherwise the message.\<close>

lemma kvcache_get_result:
  assumes "kv_inv E s" and "\<not> index_locked s" and "evp_ok (hash E)"
  shows "kvcache_get E key n errptr s = (case cache E s key of
    None \<Rightarrow> Ret (-1, None, error_string errptr ''Key not found'') s
  | Some v \<Rightarrow> if length v > n then Ret (-1, None, error_string errptr ''Buffer is too small'') s else Ret (0, Some v, None) s)"
  unfolding kvcache_get_def Get_buffer_total [OF assms] by (simp split: option.split)

text \<open>No exception of \<^verbatim>\<open>Get\<close> or \<^verbatim>\<open>Put\<close> crosses the C boundary.\<close>

lemma wrap_status_no_exc: "wrap_status e m \<noteq> Exc x s"
  by (cases m) (auto simp: wrap_status_def split: prod.splits)

text \<open>A failed \<^verbatim>\<open>SSD::create\<close> that returns a status gives a handle with a null pointer and no error string.\<close>

lemma ssd_create_drops_status:
  assumes "SSD_create R path fd u (cfg_of c) p = Ret (Corruption m, None) p'"
  shows "ssd_create R path fd u c errptr p = Ret (Some \<lparr>ssd_ptr = None\<rparr>, None) p'"
  using assms by (simp add: ssd_create_def)

text \<open>A budget of two gigabytes or more does not survive the conversion to \<^verbatim>\<open>int\<close>.\<close>

lemma budget_wraps:
  assumes "2 ^ 31 \<le> n" and "n < 2 ^ 32"
  shows "slab_mem_budget (options_of (kvcache_options_set_slab_mem_budget n o')) < 0"
proof -
  have "(int n + 2 ^ 31) mod 2 ^ 32 = ((int n - 2 ^ 31) + 2 ^ 32) mod 2 ^ 32" by (simp add: add.commute)
  also have "\<dots> = int n - 2 ^ 31" unfolding mod_add_self2 using assms by (intro mod_pos_pos_trivial) auto
  finally show ?thesis using assms by (simp add: kvcache_options_set_slab_mem_budget_def s32_def)
qed

subsection \<open>Properties\<close>

text \<open>
  C40: the C setters take \<^verbatim>\<open>size_t\<close> and store into \<^verbatim>\<open>int\<close>: a memory budget arrives as given exactly
  when it is below 2 GiB. A larger one below 4 GiB becomes negative.
\<close>

theorem budgets_wrap:
  "(slab_mem_budget (options_of (kvcache_options_set_slab_mem_budget n o')) = int n \<longleftrightarrow> n < 2 ^ 31) \<and>
   (index_mem_budget (options_of (kvcache_options_set_index_mem_budget n o')) = int n \<longleftrightarrow> n < 2 ^ 31) \<and>
   (n \<in> {2 ^ 31..<2 ^ 32} = (n < 2 ^ 32 \<and> slab_mem_budget (options_of (kvcache_options_set_slab_mem_budget n o')) < 0))"
proof -
  have lt: "s32 (int n) < 2 ^ 31" by (simp add: s32_def)
  have id: "s32 (int n) = int n \<longleftrightarrow> n < 2 ^ 31"
  proof
    assume "s32 (int n) = int n"
    then have "int n < int (2 ^ 31)" using lt by simp
    then show "n < 2 ^ 31" unfolding of_nat_less_iff .
  next
    assume "n < 2 ^ 31"
    then have "int n < int (2 ^ 31)" unfolding of_nat_less_iff .
    then show "s32 (int n) = int n" by (intro s32_id) simp_all
  qed
  have "slab_mem_budget (options_of (kvcache_options_set_slab_mem_budget n o')) < 0" if "2 ^ 31 \<le> n" "n < 2 ^ 32"
    using budget_wraps [OF that] .
  moreover have "0 \<le> slab_mem_budget (options_of (kvcache_options_set_slab_mem_budget n o'))" if "n < 2 ^ 31"
    using id that by (simp add: kvcache_options_set_slab_mem_budget_def)
  ultimately show ?thesis
    using id by (auto simp: kvcache_options_set_slab_mem_budget_def kvcache_options_set_index_mem_budget_def)
qed

end
