(* ===== verification/KV_GCLive.thy ===== *)
theory KV_GCLive
  imports KV_Live
begin

text \<open>
  The collector returns. The results about garbage collection say what holds however a run ends;
  here the runs on a raw device are shown to settle: with the index free and the hash functions
  working, nothing throws and nothing blocks, and the two loops that could go on for ever end. With
  the general results this gives that a normal collection returns, and that a quick collection
  returns when there are enough full slabs.
\<close>

subsection \<open>What a run needs\<close>

definition ready :: "'db env \<Rightarrow> 'db kv \<Rightarrow> bool" where
  "ready E s \<longleftrightarrow> evp_ok (hash E) \<and> is_dev (ssd s) \<and> \<not> index_locked s"

lemma ready_place: "ready E s \<Longrightarrow> same_place s s' \<Longrightarrow> index_locked s' = index_locked s \<Longrightarrow> ready E s'"
  by (simp add: ready_def same_place_def)

text \<open>Every block of a raw device reads.\<close>

lemma dev_readable:
  assumes g: "geom E s" and d: "is_dslab s d" and dev: "is_dev (ssd s)"
  shows "\<exists>b. read_block (rdb E) (ssd s) (block_id (slabs s ! d)) = Inr b"
proof -
  have ok: "ssd_ok (rdb E) (ssd s)" using g by (simp add: geom_def)
  have b: "0 \<le> block_id (slabs s ! d)" "block_id (slabs s ! d) < nr_blocks (ssd s)"
    using geom_block [OF g] d by (simp_all add: is_dslab_def)
  note o = block_offset_in_range(2,3) [OF ok dev b]
  have pos: "0 < block_size (ssd s)" using ok by (simp add: ssd_ok_def)
  have "nat (block_offset (ssd s) (block_id (slabs s ! d))) + nat (block_size (ssd s)) \<le> length (dev (ssd s))"
    using o pos by linarith
  then have "int (length (bread (nat (block_offset (ssd s) (block_id (slabs s ! d)))) (nat (block_size (ssd s))) (dev (ssd s)))) =
      block_size (ssd s)" using pos by simp
  then show ?thesis using dev o(1) by (simp add: read_block_def block_read_def get_block_def pread_def)
qed

lemma settles_visit_slots: "(\<And>i s. settles (f i s)) \<Longrightarrow> settles (visit_slots f is s)"
proof (induction "is" arbitrary: s)
  case (Cons i "is")
  then show ?case unfolding visit_slots.simps by (intro settles_seq) simp_all
qed simp

lemma settles_for_each_slot: "(\<And>i s. settles (f i s)) \<Longrightarrow> settles (for_each_slot sl f s)"
  unfolding for_each_slot_def by (rule settles_visit_slots)

lemma settles_lock: "\<not> index_locked s \<Longrightarrow> settles (lock_index s)"
  by (simp add: lock_index_def)

subsection \<open>Quick collection\<close>

lemma settles_del_slot: "evp_ok (hash E) \<Longrightarrow> settles (del_slot E fake i s)"
  by (simp add: del_slot_def del_index_entry_def get_index_entry_ok split: option.split)

lemma read_dslab_ready:
  assumes "data_inv E s" and d: "is_dslab s d" and "ready E s"
  shows "\<exists>fake. read_dslab E (slabs s ! d) s = Ret fake s \<and> block_id fake = block_id (slabs s ! d)"
proof -
  obtain b where "read_block (rdb E) (ssd s) (block_id (slabs s ! d)) = Inr b"
    using dev_readable [OF data_invD(1) [OF assms(1)] d] assms(3) by (auto simp: ready_def)
  then show ?thesis by (simp add: read_dslab_def slab_assign_def)
qed

lemma evict_one_settles:
  assumes inv: "data_inv E s" and d: "is_dslab s d" and r: "ready E s"
  shows "settles (evict_one E d s)"
proof -
  obtain fake where f: "read_dslab E (slabs s ! d) s = Ret fake s" "block_id fake = block_id (slabs s ! d)"
    using read_dslab_ready [OF assms] by blast
  obtain b where "read_block (rdb E) (ssd s) (block_id (slabs s ! d)) = Inr b"
    using dev_readable [OF data_invD(1) [OF inv] d] r by (auto simp: ready_def)
  moreover have "settles (for_each_slot sl (del_slot E sl) t)" for sl t
    by (rule settles_for_each_slot, rule settles_del_slot) (use r in \<open>simp add: ready_def\<close>)
  ultimately have "settles (evict_dslab E fake (s\<lparr>index_locked := True\<rparr>))"
    using f(2) by (simp add: evict_dslab_def Let_def)
  then have "settles (seq (evict_dslab E fake (s\<lparr>index_locked := True\<rparr>))
      (\<lambda>_ s. Ret () (unlock_index (upd_slab d (\<lambda>sl. sl\<lparr>nr_used := 0\<rparr>) s))))"
    by (rule settles_seq) simp
  then show ?thesis using f(1) r by (auto simp: evict_one_def check_def lock_index_def ready_def)
qed

lemma evict_dslabs_settles:
  assumes "data_inv E s" and "\<forall>d \<in> set ds. is_dslab s d" and "ready E s"
  shows "settles (evict_dslabs E ds s)"
  using assms
proof (induction ds arbitrary: s)
  case Nil
  then show ?case by simp
next
  case (Cons d ds)
  have d: "is_dslab s d" using Cons.prems(2) by simp
  show ?case
    unfolding evict_dslabs_Cons
  proof (rule settles_seq)
    show "settles (evict_one E d s)" by (rule evict_one_settles [OF Cons.prems(1) d Cons.prems(3)])
    fix u s' assume "evict_one E d s = Ret u s'"
    then have s': "data_inv E s'" "calm s s'" using evict_one_safe [OF Cons.prems(1) d] by (simp_all add: evicted_def)
    have "ready E s'" using ready_place [OF Cons.prems(3)] s'(2) by (simp add: calm_def)
    then show "settles (evict_dslabs E ds s')"
      using Cons.IH [OF s'(1)] Cons.prems(2) calm_is_dslab [OF s'(2)] by simp
  qed
qed

lemma reclaim_to_free_settles: "settles (reclaim_to_free ds s)"
proof (induction ds arbitrary: s)
  case (Cons d ds)
  then show ?case unfolding reclaim_to_free.simps Let_def by (intro settles_seq) (simp_all add: back_to_free_def)
qed simp

text \<open>With enough full slabs a quick collection returns.\<close>

lemma do_quick_gc_returns:
  assumes inv: "kv_inv E s" and no: "0 \<le> no" "no \<le> max_ops_pool_size s - ops_pool_size s" and r: "ready E s"
    and full: "nf + no \<le> int (length (members (dslab_full s)))"
  shows "total (\<lambda>go s'. go \<and> quick_gc_result E nf no s s') (do_quick_gc E nf no s)"
proof (rule safe_settles [OF do_quick_gc_safe [OF inv no]])
  have di: "disk_inv ([] @ []) {} s" and data: "data_inv E s" using inv by (simp_all add: kv_inv_def)
  note n = nch_pos [OF data_invD(1) [OF data]]
  obtain td s1 where sel: "select_drop (nf + no) [] s = Some (td, s1)" using select_drop_returns [OF di n full] by auto
  have s1: "disk_inv td {} s1" "list_move s s1"
    using select_drop_result [OF sel, of "[]" "{}"] di n by (auto simp: drop_result_def)
  have "settles (evict_dslabs E td s1)"
  proof (rule evict_dslabs_settles)
    show "data_inv E s1" using list_move_data(1) [OF s1(2)] data by simp
    show "\<forall>d \<in> set td. is_dslab s1 d" using disk_invD(10) [OF s1(1)] by blast
    show "ready E s1" using ready_place [OF r] s1(2) by (simp add: list_move_def)
  qed
  then have "settles (seq (evict_dslabs E td s1) (\<lambda>_ s. case reclaim_to_ops no 0 td s of
      (rest, s) \<Rightarrow> seq (reclaim_to_free rest s) (\<lambda>_ s. seq (check (check_ops_pool s) ''check_ops_pool()'' s) (\<lambda>_ s. Ret True s))))"
    by (rule settles_seq) (auto intro!: settles_seq reclaim_to_free_settles split: prod.split)
  then show "settles (do_quick_gc E nf no s)"
    using sel unfolding do_quick_gc_def by (intro settles_seq) auto
qed

subsection \<open>Compaction\<close>

lemma settles_move_slot: "evp_ok (hash E) \<Longrightarrow> settles (move_slot E fake d i s)"
  by (simp add: move_slot_def Let_def index_lookup_def get_index_entry_ok split: option.split outcome.split)

text \<open>Moving objects changes neither the device nor the blocks of the slabs.\<close>

definition same_blocks :: "'db kv \<Rightarrow> 'db kv \<Rightarrow> bool" where
  "same_blocks s s' \<longleftrightarrow> ssd s' = ssd s \<and> (\<forall>i. block_id (slabs s' ! i) = block_id (slabs s ! i))"

lemma same_blocks_refl [simp]: "same_blocks s s"
  by (simp add: same_blocks_def)

lemma same_blocks_trans: "same_blocks s t \<Longrightarrow> same_blocks t u \<Longrightarrow> same_blocks s u"
  by (simp add: same_blocks_def)

lemma same_blocks_upd:
  assumes "block_id (f (slabs s ! i)) = block_id (slabs s ! i)"
  shows "same_blocks s (upd_slab i f s)"
proof -
  have "block_id ((slabs s)[i := f (slabs s ! i)] ! j) = block_id (slabs s ! j)" for j
    using assms by (cases "j = i"; cases "i < length (slabs s)") (simp_all add: list_update_beyond)
  then show ?thesis by (simp add: same_blocks_def upd_slab_def)
qed

lemma move_slot_blocks:
  assumes "move_slot E fake d i s = Ret go s'"
  shows "same_blocks s s'"
proof -
  let ?g = "gc_buffer s"
  have "same_blocks s ((upd_slab ?g (\<lambda>_. b) s)\<lparr>index := ix\<rparr>)" if "block_id b = block_id (slabs s ! ?g)" for b ix
    using same_blocks_upd [of "\<lambda>_. b" s ?g] that by (simp add: same_blocks_def)
  then show ?thesis
    using assms by (auto simp: move_slot_def Let_def index_lookup_def slab_slot_alloc_def seq_Ret_iff
        split: sum.splits option.splits if_splits)
qed

text \<open>The slabs of a batch can be read.\<close>

definition blocks_read :: "'db env \<Rightarrow> nat list \<Rightarrow> 'db kv \<Rightarrow> bool" where
  "blocks_read E ds s \<longleftrightarrow> (\<forall>d \<in> set ds. \<exists>b. read_block (rdb E) (ssd s) (block_id (slabs s ! d)) = Inr b)"

lemma move_dslab_settles:
  assumes ev: "evp_ok (hash E)" and free: "\<not> index_locked s" and b: "blocks_read E [d] s"
  shows "settles (move_dslab E d s)"
    and "move_dslab E d s = Ret u s' \<Longrightarrow> same_blocks s s' \<and> \<not> index_locked s'"
proof -
  obtain fake where rd: "read_dslab E (slabs s ! d) s = Ret fake s"
    using b by (auto simp: blocks_read_def read_dslab_def)
  let ?t = "s\<lparr>index_locked := True\<rparr>" let ?f = "move_slot E fake (sid (slabs s ! d))"
  let ?fin = "\<lambda>s. unlock_index (upd_slab d (\<lambda>sl. sl\<lparr>nr_used := 0\<rparr>) s)"
  have run: "move_dslab E d s = seq (for_each_slot fake ?f ?t) (\<lambda>_ s. Ret () (?fin s))"
    using rd free by (simp add: move_dslab_def lock_index_def)
  have "settles (for_each_slot fake ?f ?t)" by (rule settles_for_each_slot) (rule settles_move_slot [OF ev])
  then show "settles (move_dslab E d s)" unfolding run by (rule settles_seq) simp
  assume "move_dslab E d s = Ret u s'"
  then obtain s1 where s1: "for_each_slot fake ?f ?t = Ret () s1" and s': "s' = ?fin s1"
    unfolding run by (auto simp: seq_Ret_iff)
  have "same_blocks ?t s1"
    by (rule visit_slots_rel [where R = same_blocks, OF _ _ _ s1 [unfolded for_each_slot_def]])
      (rule move_slot_blocks same_blocks_refl same_blocks_trans; assumption)+
  moreover have "same_blocks s1 s'"
    using same_blocks_upd [of "\<lambda>sl. sl\<lparr>nr_used := 0\<rparr>" s1 d] by (simp add: s' same_blocks_def unlock_index_def)
  ultimately show "same_blocks s s' \<and> \<not> index_locked s'" by (simp add: same_blocks_def s' unlock_index_def)
qed

lemma move_dslabs_settles:
  assumes "evp_ok (hash E)" and "\<not> index_locked s" and "blocks_read E ds s"
  shows "settles (move_dslabs E ds sz s)"
  using assms(2,3)
proof (induction ds arbitrary: sz s)
  case (Cons d ds)
  have b: "blocks_read E [d] s" using Cons.prems(2) by (simp add: blocks_read_def)
  have "settles (move_dslabs E ds (sz + nr_used (slabs s ! d)) s')" if "move_dslab E d s = Ret u s'" for u s'
  proof -
    have sb: "same_blocks s s'" "\<not> index_locked s'" using move_dslab_settles(2) [OF assms(1) Cons.prems(1) b that] by auto
    have "blocks_read E ds s'" using Cons.prems(2) sb(1) by (simp add: blocks_read_def same_blocks_def)
    then show ?thesis by (rule Cons.IH [OF sb(2)])
  qed
  then show ?case
    unfolding move_dslabs_Cons
    using settles_seq [OF move_dslab_settles(1) [OF assms(1) Cons.prems(1) b], of "\<lambda>_. move_dslabs E ds (sz + nr_used (slabs s ! d))"]
    by simp
qed simp

lemma gc_dslabs_settles:
  assumes st: "gc_state E fl s" and pos: "0 < ops_pool_size s" and b: "batch_ok td s" and r: "ready E s"
  shows "settles (gc_dslabs E td fl s)"
proof -
  obtain ops fl' s5 where p: "prepared E td ops fl fl' s s5"
    and run: "gc_dslabs E td fl s = gc_rest E td (gc_buffer s) ops fl' s5"
    using gc_dslabs_prepare [OF st pos b] by blast
  have inv5: "data_inv E s5" and sp5: "same_place s s5" and op: "is_dslab s ops" and lk: "index_locked s5 = index_locked s"
    using p by (simp_all add: prepared_def)
  have r5: "ready E s5" by (rule ready_place [OF r sp5 lk])
  have isd: "is_dslab s5 d = is_dslab s d" for d using sp5 by (simp add: is_dslab_def same_place_def)
  have "ops \<in> set (members (ops_pool s))" using p by (simp add: prepared_def)
  note td = batch_slabs(1) [OF st b this]
  have br: "blocks_read E td s5"
    using dev_readable [OF data_invD(1) [OF inv5]] isd td r5 by (auto simp: blocks_read_def ready_def)
  show ?thesis
    unfolding run gc_rest_def
  proof (intro settles_seq)
    show "settles (move_dslabs E td 0 s5)" by (rule move_dslabs_settles [OF _ _ br]) (use r5 in \<open>simp_all add: ready_def\<close>)
    fix u s6 assume "move_dslabs E td 0 s5 = Ret u s6"
    then have s6: "data_inv E s6" "compacting s5 s6" using gc_move_safe [OF st b p] by (simp_all add: slabs_moved_def)
    have r6: "ready E s6" using ready_place [OF r5] s6(2) by (simp add: compacting_def)
    show "settles (check (cid (slabs s6 ! gc_buffer s) \<noteq> -1) ''gc_buffer_->cid != -1'' s6)" by simp
    fix u' s7 assume "check (cid (slabs s6 ! gc_buffer s) \<noteq> -1) ''gc_buffer_->cid != -1'' s6 = Ret u' s7"
    then have s7: "s7 = s6" by simp
    have g6: "geom E s6" by (rule data_invD(1) [OF s6(1)])
    have gb: "gc_buffer s < nr_mslab s6" "is_dslab s6 ops"
      using gc_buffer_mem [OF g6] op sp5 s6(2) by (simp_all add: compacting_def same_place_def gc_buffer_def is_dslab_def)
    have w: "writable E s6" using dev_writable [OF g6] r6 by (simp add: ready_def)
    obtain s8 where s8: "flush_mslab_to_dslab E (gc_buffer s) ops s7 = Ret () s8" "index_locked s8 = index_locked s6"
      using flush_mslab_returns [OF g6 gb w] unfolding s7 by blast
    then show "settles (flush_mslab_to_dslab E (gc_buffer s) ops s7)" by simp
    fix u8 t assume "flush_mslab_to_dslab E (gc_buffer s) ops s7 = Ret u8 t"
    then have t: "t = s8" using s8 by simp
    show "settles (lock_index t)" using t s8(2) r6 by (simp add: ready_def settles_lock)
    show "settles (modify_index_to E (gc_buffer s) ops t')" for t'
      using modify_index_to_returns [of E "gc_buffer s" ops t'] r by (auto simp: ready_def)
  qed simp_all
qed

subsection \<open>Normal collection\<close>

lemma gc_batch_settles:
  assumes st: "gc_state E fl s" and c: "class_ok (td @ rest) s" and r: "ready E s"
    and sum: "td \<noteq> [] \<Longrightarrow> (\<Sum>d \<leftarrow> td. nr_used (slabs s ! d)) \<le> int (nr_slots (slabs s ! hd td))"
  shows "settles (gc_batch E td fl s)"
proof (cases "1 < length td \<and> 0 < ops_pool_size s")
  case True
  then have "td \<noteq> []" by auto
  from class_ok_batch [OF c this sum [OF this]] have "settles (gc_dslabs E td fl s)" using gc_dslabs_settles [OF st _ _ r] True by simp
  then show ?thesis using True by (auto simp: gc_batch_def intro: settles_seq)
next
  case False
  then show ?thesis by (auto simp: gc_batch_def)
qed

lemma gc_class_settles:
  assumes "gc_state E fl s" and "class_ok (td @ cands) s" and "ready E s"
    and "moved = (\<Sum>d \<leftarrow> td. nr_used (slabs s ! d))"
    and "td \<noteq> [] \<Longrightarrow> moved \<le> int (nr_slots (slabs s ! hd td))"
  shows "settles (gc_class E cands td moved fl s)"
  using assms
proof (induction cands arbitrary: td moved)
  case Nil
  then show ?case using gc_batch_settles [of E fl s td "[]"] by simp
next
  case (Cons d cands)
  have batch: "settles (gc_batch E td fl s)"
    using gc_batch_settles [OF Cons.prems(1-3)] Cons.prems(4,5) by simp
  have "settles (gc_class E cands (td @ [d]) (moved + nr_used (slabs s ! d)) fl s)"
    if le: "nr_used (slabs s ! d) + moved \<le> int (nr_slots (slabs s ! d))"
  proof -
    have "d \<in> set (td @ d # cands)" by simp
    then have "nr_slots (slabs s ! d) = nr_slots (slabs s ! hd (td @ [d]))"
      by (rule class_ok_slots(1) [OF Cons.prems(1,2)]) (cases td, auto)
    then show ?thesis using Cons.IH [of "td @ [d]" "moved + nr_used (slabs s ! d)"] Cons.prems le by simp
  qed
  then show ?case using batch by (auto simp: Let_def intro!: settles_seq)
qed

lemma gc_classes_settles:
  assumes "gc_state E fl s" and "classes_ok css s" and "ready E s"
  shows "settles (gc_classes E css fl s)"
  using assms
proof (induction css arbitrary: fl s)
  case (Cons cs css)
  have c: "class_ok ([] @ cs) s" using Cons.prems(2) by (simp add: classes_ok_def)
  show ?case
    unfolding gc_classes.simps
  proof (rule settles_seq)
    show "settles (gc_class E cs [] 0 fl s)" using gc_class_settles [OF Cons.prems(1) c Cons.prems(3)] by simp
    fix r s1 assume run: "gc_class E cs [] 0 fl s = Ret r s1"
    obtain jump fl1 where r: "r = (jump, fl1)" by (cases r) auto
    have p: "gc_progress E (set cs) fl s fl1 s1" using gc_class_safe [OF Cons.prems(1) c] run r by simp
    then have s1: "gc_state E fl1 s1" "ready E s1"
      using ready_place [OF Cons.prems(3)] by (simp_all add: gc_progress_def)
    show "settles ((case r of (jump, fl) \<Rightarrow> \<lambda>s. if jump then Ret fl s else gc_classes E css fl s) s1)"
      using Cons.IH [OF s1(1) classes_ok_progress [OF Cons.prems(2) p] s1(2)] r by simp
  qed
qed simp

text \<open>A normal collection returns.\<close>

lemma normal_gc_returns:
  assumes inv: "kv_inv E s" and hp: "heap_pick_ok E" and r: "ready E s"
  shows "total (\<lambda>go s'. go \<and> normal_gc_result E s s') (normal_gc E s)"
proof (rule safe_settles [OF normal_gc_safe [OF inv hp]])
  define order where "order = (let pq = fold (pq_offer E s) (members (dslab_full s)) [] in pq_drain E s (length pq) pq)"
  let ?fl0 = "replicate (nch s) slist_init"
  have di: "disk_inv [] {} s" and pos: "0 < ops_pool_size s" "ops_pool_size s \<le> max_ops_pool_size s"
    using inv by (simp_all add: kv_inv_def ops_in_range_def)
  note ord = normal_gc_order [OF hp pos(1) di, folded order_def]
  note cs = gc_state_start [OF inv] class_cands_ok [OF di ord]
  have "settles (seq (gc_classes E (class_cands s order) ?fl0 s) (give_back (ops_pool_size s)))"
  proof (rule settles_seq [OF gc_classes_settles [OF cs r]])
    fix fl s1 assume "gc_classes E (class_cands s order) ?fl0 s = Ret fl s1"
    then have p: "gc_progress E (set (concat (class_cands s order))) ?fl0 s fl s1" using gc_classes_safe [OF cs] by simp
    have "\<exists>s'. give_back (ops_pool_size s) fl s1 = Ret True s' \<and> kv_inv E s' \<and> reclaimed E UNIV s1 s' \<and> on_lists s' = placed (members fl) s1"
      by (rule give_back_ok) (use p pos in \<open>simp_all add: gc_progress_def\<close>)
    then show "settles (give_back (ops_pool_size s) fl s1)" by auto
  qed
  moreover have "list_all (\<lambda>d. cid (slabs s ! d) \<noteq> -1) order"
    using ord(2) disk_invD(9) [OF di] by (auto simp: list_all_iff)
  ultimately show "settles (normal_gc E s)"
    using pos(1) by (simp add: normal_gc_def Let_def order_def members_def [symmetric] nch_def)
qed

text \<open>
  A round of the collector with a full slab returns when the index is exhausted (one slab is
  dropped) and when the free slabs are not below the low water mark (nothing is lost).
\<close>

lemma do_slab_gc_returns:
  assumes inv: "kv_inv E s" and hp: "heap_pick_ok E" and r: "ready E s" and run: "\<not> shutdown s"
    and full: "0 < nr_full_dslab s" "members (dslab_full s) \<noteq> []"
    and mark: "nr_free_index_entry (index s) = 0 \<or> water_mark_low s \<le> nr_free_dslab s"
  shows "total (\<lambda>go s'. go \<and> gc_result E s s' \<and> (nr_free_index_entry (index s) \<noteq> 0 \<longrightarrow> cache E s' = cache E s)) (do_slab_gc E s)"
proof -
  have free: "0 \<le> nr_free_dslab s" using inv nr_free_nonneg by (auto simp: kv_inv_def)
  show ?thesis
  proof (cases "nr_free_index_entry (index s) = 0")
    case True
    have "1 + 0 \<le> int (length (members (dslab_full s)))" using full(2) by (cases "members (dslab_full s)") simp_all
    from do_quick_gc_returns [OF inv _ _ r this] have "total (\<lambda>go s'. go \<and> quick_gc_result E 1 0 s s') (do_quick_gc E 1 0 s)"
      using kv_inv_ops [OF inv] by simp
    then have "total (\<lambda>go s'. go \<and> gc_result E s s') (do_quick_gc E 1 0 s)"
      by (rule total_mono) (use quick_gc_result_gc in blast)
    then show ?thesis using True run full(1) free by (simp add: do_slab_gc_def Let_def)
  next
    case False
    have "total (\<lambda>go s'. go \<and> gc_result E s s' \<and> cache E s' = cache E s) (normal_gc E s)"
      by (rule total_mono [OF normal_gc_returns [OF inv hp r]]) (auto simp: normal_gc_result_def dest: keeps_cache)
    then show ?thesis using False mark run full(1) free by (simp add: do_slab_gc_def Let_def)
  qed
qed

end
