(* ===== verification/KV_Example.thy ===== *)
theory KV_Example
  imports KV_Readers KV_CAPI KV_GCLive
begin

text \<open>
  Small concrete instances of what the development leaves open (RocksDB as an association list,
  hash functions, a host that grants every request) and a small cache built on a raw device with
  the constructor. They show that the hypotheses of the general results can be met.
\<close>

subsection \<open>A database\<close>

definition list_db :: "(string \<times> bytes) list rocksdb" where
  "list_db = \<lparr>db_open = (\<lambda>_ l. Some l), db_get = map_of,
     db_put = (\<lambda>l k v. (True, (k, v) # filter (\<lambda>p. fst p \<noteq> k) l)),
     db_seek = (\<lambda>l k. sort (remdups (filter (\<lambda>x. k \<le> x) (map fst l))))\<rparr>"

lemma list_db_laws: "rocksdb_store_laws list_db"
proof -
  have get: "map_of ((k, v) # filter (\<lambda>p. fst p \<noteq> k) l) k' = (if k' = k then Some v else map_of l k')"
    for k v k' and l :: "(string \<times> bytes) list"
    by (induction l) auto
  have "rocksdb_laws list_db" unfolding rocksdb_laws_def list_db_def by (auto simp only: rocksdb.simps get split: if_splits)
  moreover have "x \<in> fst ` set l \<longleftrightarrow> map_of l x \<noteq> None" for x and l :: "(string \<times> bytes) list"
    by (simp add: map_of_eq_None_iff)
  ultimately show ?thesis unfolding rocksdb_store_laws_def by (auto simp: list_db_def)
qed

subsection \<open>A cache\<close>

text \<open>The position of the first greatest element.\<close>

definition first_max :: "int list \<Rightarrow> nat" where
  "first_max ps = length (takeWhile (\<lambda>p. p \<noteq> Max (set ps)) ps)"

definition small_env :: "(string \<times> bytes) list env" where
  "small_env = \<lparr>rdb = list_db, hash = plain_hash, heap_pick = first_max, ndebug = False\<rparr>"

definition small_dev :: "(string \<times> bytes) list ssd" where
  "small_dev = \<lparr>nr_channels = 2, nr_blocks = 10, block_size = 64, blocks_per_channel = 5,
     is_dev = True, dstart = 0, dev = replicate 640 0, db = []\<rparr>"

definition small_host :: host where
  "small_host = \<lparr>env_var = (\<lambda>_. None), mmap_slabs = (\<lambda>_. Some 100), mmap_index = (\<lambda>_. True)\<rparr>"

text \<open>Four memory slabs, one of them the buffer of the collector, and one class of slots of 20 bytes: one object per slab.\<close>

definition small_opt :: options where
  "small_opt = \<lparr>slab_mem_budget = 256, index_mem_budget = 240, index_table_size = 2, ops_rate = (1, -2),
     opt_water_mark_low = (1, -3), opt_water_mark_high = (3, -2), opt_water_mark_low_min = (1, -4),
     opt_water_mark_high_max = (7, -3), opt_background_flush = True, opt_background_gc = True,
     slab_class_size = [20], nr_slab_class = 1\<rparr>"

definition run_state :: "('a, 's) outcome \<Rightarrow> 's \<Rightarrow> 's" where
  "run_state m s = (case m of Ret _ s' \<Rightarrow> s' | _ \<Rightarrow> s)"

definition small_kv :: "(string \<times> bytes) list kv" where
  "small_kv = run_state (KVCache_ctor small_env small_host small_dev small_opt) (kv_blank small_dev small_opt)"

lemma first_max_ok: "heap_pick_ok small_env"
proof -
  have "first_max ps < length ps \<and> (\<forall>p \<in> set ps. p \<le> ps ! first_max ps)" if "ps \<noteq> []" for ps
  proof -
    have m: "Max (set ps) \<in> set ps" using that by simp
    have "takeWhile (\<lambda>p. p \<noteq> Max (set ps)) ps \<noteq> ps" using m unfolding takeWhile_eq_all_conv by blast
    then have "length (takeWhile (\<lambda>p. p \<noteq> Max (set ps)) ps) \<noteq> length ps" by (metis takeWhile_eq_take take_all order_refl)
    then have l: "first_max ps < length ps"
      unfolding first_max_def using length_takeWhile_le [of "\<lambda>p. p \<noteq> Max (set ps)" ps] by simp
    then have "ps ! first_max ps = Max (set ps)"
      unfolding first_max_def using nth_length_takeWhile [of "\<lambda>p. p \<noteq> Max (set ps)" ps] by simp
    then show ?thesis using l by simp
  qed
  then show ?thesis by (simp add: heap_pick_ok_def small_env_def)
qed

lemma small_evp: "evp_ok (hash small_env)"
  by (simp add: evp_ok_def small_env_def plain_hash_def)

lemma small_init: "init_ok small_env small_host small_dev small_opt"
proof -
  have "float_times_int (1, -2) 5 = 1" by code_simp
  then show ?thesis
    by (simp add: init_ok_def ssd_ok_def small_dev_def small_host_def small_opt_def small_env_def class_sizes_def)
qed

lemma small_walk: "walk_ok (rdb small_env) small_dev [0..9]"
proof -
  have "map snd (channel_blocks 2 5) = [0..9]" by code_simp
  moreover have "set [0..9::int] = {0..<10}" by auto
  ultimately show ?thesis by (simp add: walk_ok_def small_dev_def)
qed

lemma small_kv_inv:
  "kv_inv small_env small_kv" "cache small_env small_kv = Map.empty" "\<not> index_locked small_kv" "\<not> shutdown small_kv"
  "nr_free_index_entry (index small_kv) = 5"
  using KVCache_ctor_total [OF small_init small_walk] unfolding total_iff
  by (auto simp: small_kv_def run_state_def small_opt_def)

text \<open>What the constructor builds, evaluated once.\<close>

definition small_summary :: "'db kv \<Rightarrow> bool \<times> bool \<times> nat \<times> nat list \<times> slist \<times> int \<times> bool \<times> nat \<times> nat list \<times> bool \<times> bool \<times> nat list list \<times> nat list \<times> bool" where
  "small_summary s = (mem_room s 20, mem_room s 10, slab_size s, map sc_slot_size (slab_class_table s), mslab_full s,
     nr_free_dslab s, is_dev (ssd s), length (itable (index s)), members (dslab_full s),
     enable_background_flush s, enable_background_gc s,
     map slab_partial (slab_class_table s), items (mslab_free s), list_all (\<lambda>sl. nr_alloc sl = 0) (slabs s))"

lemma small_kv_summary:
  "small_summary small_kv = (True, True, 64, [20], \<lparr>items = [], lsize = 0\<rparr>, 8, True, 2, [], True, True, [[]], [2, 1, 0], True)"
  by code_simp

lemma small_kv_shape:
  "mem_room small_kv 20" "mem_room small_kv 10"
  "slab_size small_kv = 64" "map sc_slot_size (slab_class_table small_kv) = [20]" "mslab_full small_kv = \<lparr>items = [], lsize = 0\<rparr>"
  "nr_free_dslab small_kv = 8" "is_dev (ssd small_kv)" "length (itable (index small_kv)) = 2" "members (dslab_full small_kv) = []"
  "enable_background_flush small_kv" "enable_background_gc small_kv"
  "map slab_partial (slab_class_table small_kv) = [[]]" "items (mslab_free small_kv) = [2, 1, 0]"
  "list_all (\<lambda>sl. nr_alloc sl = 0) (slabs small_kv)"
  using small_kv_summary unfolding small_summary_def prod.inject by blast+

text \<open>The cache after one \<^verbatim>\<open>Put\<close>: its memory slab is full and waits to be flushed.\<close>

definition small_kv1 :: "(string \<times> bytes) list kv" where
  "small_kv1 = run_state (Put small_env 2 [1] [2] small_kv) small_kv"

text \<open>A slab of this class with an object is full.\<close>

lemma small_slab_full:
  assumes "kv_inv E t" and f: "put_frame small_kv t" and "m < gc_buffer t" and "cid (slabs t ! m) \<noteq> -1" and "0 < nr_alloc (slabs t ! m)"
  shows "is_full (slabs t ! m)"
proof -
  have g: "geom E t" and sl: "slabs_ok E t" using assms(1) by (simp_all add: kv_inv_def data_inv_def)
  have "m < length (slabs t)" using g assms(3) by (simp add: geom_def gc_buffer_def)
  then have h: "hdr_ok t (slabs t ! m)" using sl by (simp add: slabs_ok_def)
  have sz: "slab_size t = 64" "map sc_slot_size (slab_class_table t) = [20]"
    using f by (simp_all add: put_frame_def small_kv_shape)
  then obtain sc where "slab_class_table t = [sc]" "sc_slot_size sc = 20" by auto
  then have "nr_slots (slabs t ! m) = 1" using h assms(4) sz by (auto simp: hdr_ok_def)
  moreover have "nr_alloc (slabs t ! m) \<le> nr_slots (slabs t ! m)" using h unfolding hdr_ok_def by blast
  ultimately show ?thesis using assms(5) by (simp add: is_full_def)
qed

lemma small_put:
  "total (\<lambda>st s'. st = OK \<and> kv_inv small_env s' \<and> cache small_env s' = [[1] \<mapsto> [2]] \<and> \<not> index_locked s' \<and>
    put_frame small_kv (s'\<lparr>mslab_full := mslab_full small_kv\<rparr>) \<and> (\<exists>m. items (mslab_full s') = [m]))
    (Put small_env 2 [1] [2] small_kv)"
proof -
  have two: "Suc (Suc 0) = 2" by simp
  have m: "put_map small_env small_kv [1] [2] = [[1] \<mapsto> [2]]"
    using small_kv_inv(2) by (intro ext) (simp add: put_map_def)
  note r = Put_returns_frame [OF small_kv_inv(1) first_max_ok _ small_kv_inv(3) small_evp, of "[1]" "[2]" 0]
  have "mem_room small_kv (slot_size_of [1] [2])" by (simp add: slot_size_of_def small_kv_shape(2))
  then show ?thesis
    using r small_kv_inv(5) unfolding m two total_iff
    by (auto simp: small_slab_full slist_add_def small_kv_shape(5))
qed

lemma small_kv1_inv:
  "Put small_env 2 [1] [2] small_kv = Ret OK small_kv1" "kv_inv small_env small_kv1" "cache small_env small_kv1 = [[1] \<mapsto> [2]]"
  "\<not> index_locked small_kv1" "put_frame small_kv (small_kv1\<lparr>mslab_full := mslab_full small_kv\<rparr>)" "\<exists>m. items (mslab_full small_kv1) = [m]"
  using small_put unfolding total_iff by (auto simp: small_kv1_def run_state_def)

text \<open>The run from the constructor to that state.\<close>

lemma small_ctor: "KVCache_ctor small_env small_host small_dev small_opt = Ret () small_kv"
  using KVCache_ctor_total [OF small_init small_walk] unfolding total_iff by (auto simp: small_kv_def run_state_def)

lemma small_run: "runs (kv_step small_env) small_kv [EvPut [1] [2] OK] small_kv1"
  using runs_snoc [OF runs_Nil [of "kv_step small_env" small_kv], of "EvPut [1] [2] OK" small_kv1] step_put [OF small_kv1_inv(1)]
  by simp

lemma small_kv1_shape: "nr_free_dslab small_kv1 = 8" "\<not> shutdown small_kv1" "is_dev (ssd small_kv1)"
  using small_kv1_inv(5) small_kv_inv(4) by (simp_all add: put_frame_def small_kv_shape)

lemma small_kv1_writable: "writable small_env small_kv1"
  using dev_writable small_kv1_inv(2) small_kv1_shape(3) by (auto simp: kv_inv_def data_inv_def)

text \<open>The cache after the flush of that slab.\<close>

definition small_kv2 :: "(string \<times> bytes) list kv" where
  "small_kv2 = run_state (do_slab_flush small_env 1 small_kv1) small_kv1"

lemma small_kv2_inv:
  "do_slab_flush small_env 1 small_kv1 = Ret True small_kv2" "kv_inv small_env small_kv2" "cache small_env small_kv2 = [[1] \<mapsto> [2]]"
  "one_more_full small_kv1 small_kv2"
proof -
  obtain m where m: "items (mslab_full small_kv1) = [m]" using small_kv1_inv(6) by blast
  have "0 < nr_free_dslab small_kv1" by (simp add: small_kv1_shape(1))
  from do_slab_flush_returns [OF small_kv1_inv(2) small_evp small_kv1_inv(4) small_kv1_writable small_kv1_shape(2) m this, of 0]
  show "do_slab_flush small_env 1 small_kv1 = Ret True small_kv2" "kv_inv small_env small_kv2" "cache small_env small_kv2 = [[1] \<mapsto> [2]]"
    "one_more_full small_kv1 small_kv2"
    unfolding total_iff using small_kv1_inv(3) by (auto simp: small_kv2_def run_state_def)
qed

text \<open>It has a full disk slab, and the collector can run.\<close>

lemma small_kv2_ready: "ready small_env small_kv2" "members (dslab_full small_kv2) \<noteq> []"
proof -
  have "flush_result small_env small_kv1 small_kv2"
    using do_slab_flush_safe [OF small_kv1_inv(2) first_max_ok, of 1] unfolding small_kv2_inv(1) by simp
  then show "ready small_env small_kv2"
    using small_evp small_kv1_shape(3) small_kv1_inv(4) by (simp add: ready_def flush_result_def same_place_def)
  show "members (dslab_full small_kv2) \<noteq> []" using small_kv2_inv(4) by (auto simp: one_more_full_def)
qed

text \<open>The same cache without a single index entry: a \<^verbatim>\<open>Put\<close> there has no entry to take.\<close>

definition small_kv0 :: "(string \<times> bytes) list kv" where
  "small_kv0 = small_kv\<lparr>index := fresh_index 0 2\<rparr>"

lemma small_kv0_inv:
  "kv_inv small_env small_kv0" "view small_kv0 h = None" "nr_free_index_entry (index small_kv0) = 0" "mem_room small_kv0 10"
proof -
  have fi: "index_ok (fresh_index 0 2)" "index_view (fresh_index 0 2) = Map.empty" by (rule fresh_index_ok, simp)+
  note small_kv_shape(8)
  then have dr: "dropped small_kv small_kv0"
    unfolding dropped_def small_kv0_def using fi
    by (intro exI [of _ "fresh_index 0 2"]) (simp, simp add: fresh_index_def)
  have d: "data_inv small_env small_kv" using small_kv_inv(1) by (simp add: kv_inv_def)
  show "kv_inv small_env small_kv0"
    using dropped_inv(1) [OF d dr] calm_index [of small_kv "fresh_index 0 2"] dropped_live [OF dr]
    by (intro kv_inv_calm [OF small_kv_inv(1)]) (simp_all add: small_kv0_def)
  show "view small_kv0 h = None" using fi(2) by (simp add: small_kv0_def)
  show "nr_free_index_entry (index small_kv0) = 0" by (simp add: small_kv0_def fresh_index_def)
  show "mem_room small_kv0 10" using small_kv_shape(2) by (simp add: small_kv0_def mem_room_def split: sum.splits)
qed

text \<open>The flushed cache with its low water mark at zero: a round of the collector there is a normal one.\<close>

definition small_kv3 :: "(string \<times> bytes) list kv" where
  "small_kv3 = small_kv2\<lparr>water_mark_low := 0, nr_full_dslab := 1\<rparr>"

lemma small_kv3_inv:
  "kv_inv small_env small_kv3" "ready small_env small_kv3" "cache small_env small_kv3 = [[1] \<mapsto> [2]]"
  "members (dslab_full small_kv3) \<noteq> []" "\<not> shutdown small_kv3"
proof -
  have lm: "list_move small_kv2 small_kv3" by (simp add: small_kv3_def list_move_def same_data_def same_place_def ptrs_ok_def)
  have "disk_inv [] {} small_kv3"
    using small_kv2_inv(2) by (simp add: kv_inv_def small_kv3_def disk_inv_def placed_def on_lists_def is_dslab_def)
  then show "kv_inv small_env small_kv3"
    by (intro kv_inv_move [OF small_kv2_inv(2) lm])
      (use small_kv2_inv(2) in \<open>simp_all add: kv_inv_def ops_in_range_def small_kv3_def\<close>)
  show "cache small_env small_kv3 = [[1] \<mapsto> [2]]"
    using keeps_cache [OF list_move_data(2) [OF lm, of small_env]] small_kv2_inv(3) by simp
  show "ready small_env small_kv3" "members (dslab_full small_kv3) \<noteq> []"
    using small_kv2_ready by (simp_all add: small_kv3_def ready_def)
  have "flush_result small_env small_kv1 small_kv2"
    using do_slab_flush_safe [OF small_kv1_inv(2) first_max_ok, of 1] unfolding small_kv2_inv(1) by simp
  then show "\<not> shutdown small_kv3" using small_kv1_shape(2) by (simp add: small_kv3_def flush_result_def same_place_def)
qed

subsection \<open>Its threads\<close>

text \<open>A run of the interleaved system: a client calls \<^verbatim>\<open>Put\<close> and runs to its end.\<close>

lemma small_sys_run:
  "\<exists>es. runs (sys_step small_env) (sys_start small_kv) (EvWake # es) (sys_start small_kv1) \<and> EvPut [1] [2] OK \<in> set es"
proof -
  let ?S = "(sys_start small_kv)\<lparr>put_at := PCalled [1] [2]\<rparr>"
  obtain es where es: "runs (put_alone small_env 2) (PCalled [1] [2], small_kv) es (PIdle, small_kv1)"
    and e: "filter (\<lambda>e. e \<noteq> EvWake) es = [EvPut [1] [2] OK]"
    using Put_alone [OF small_kv_inv(1) small_kv_shape(10) small_kv1_inv(1)] by blast
  have "sys_step small_env (sys_start small_kv) EvWake ?S" by (rule sys_call) (simp add: sys_start_def)
  then have "runs (sys_step small_env) (sys_start small_kv) ([] @ [EvWake]) ?S" by (rule runs_snoc [OF runs_Nil])
  moreover have "runs (sys_step small_env) ?S es (sys_start small_kv1)"
    using put_alone_sys [OF es, of ?S] by (simp add: sys_start_def)
  ultimately have "runs (sys_step small_env) (sys_start small_kv) (([] @ [EvWake]) @ es) (sys_start small_kv1)"
    by (rule runs_append [rotated])
  moreover have "EvPut [1] [2] OK \<in> set (filter (\<lambda>e. e \<noteq> EvWake) es)" unfolding e by simp
  ultimately show ?thesis by auto
qed

text \<open>The cache with its full memory slab, while a client waits for a free one.\<close>

definition small_waiting :: "(string \<times> bytes) list sys" where
  "small_waiting = \<lparr>kv_of = small_kv1\<lparr>slab_flush_thread_started := True\<rparr>,
     put_at = PWaiting [1] [3], flush_at = FIdle\<rparr>"

lemma small_sys1_ok: "sys_ok small_env (sys_start small_kv1)"
proof -
  obtain es where es: "runs (sys_step small_env) (sys_start small_kv) (EvWake # es) (sys_start small_kv1)" using small_sys_run by blast
  have "sys_ok small_env (sys_start small_kv)" by (intro sys_start_ok small_kv_inv(1,3) small_kv_shape(10,11))
  then show ?thesis using sys.runs_ok [OF es] first_max_ok by simp
qed

lemma small_waiting_ok: "sys_ok small_env small_waiting"
  using small_sys1_ok started_inv(1) [OF small_kv1_inv(2), of True] by (simp add: sys_ok_def sys_start_def small_waiting_def)

lemma small_waiting_ready:
  "writable small_env (kv_of small_waiting)" "items (mslab_full (kv_of small_waiting)) \<noteq> []" "0 < nr_free_dslab (kv_of small_waiting)"
  "\<not> shutdown (kv_of small_waiting)" "cache small_env (kv_of small_waiting) = [[1] \<mapsto> [2]]"
  "get_slab_class (slab_class_table (kv_of small_waiting)) (slot_size_of [1] [3]) = Inr 0"
proof -
  show "writable small_env (kv_of small_waiting)"
    using small_waiting_ok small_kv1_shape(3) by (intro dev_writable) (auto simp: sys_ok_def kv_inv_def data_inv_def small_waiting_def)
  show "items (mslab_full (kv_of small_waiting)) \<noteq> []" "0 < nr_free_dslab (kv_of small_waiting)" "\<not> shutdown (kv_of small_waiting)"
    using small_kv1_inv(6) small_kv1_shape by (auto simp: small_waiting_def)
  have "cache small_env (kv_of small_waiting) = cache small_env small_kv1" unfolding small_waiting_def by (simp add: same_data_view(4))
  then show "cache small_env (kv_of small_waiting) = [[1] \<mapsto> [2]]" using small_kv1_inv(3) by simp
  have "map sc_slot_size (slab_class_table small_kv1) = [20]" using small_kv1_inv(5) by (simp add: put_frame_def small_kv_shape)
  then obtain sc where "slab_class_table small_kv1 = [sc]" "sc_slot_size sc = 20" by auto
  then show "get_slab_class (slab_class_table (kv_of small_waiting)) (slot_size_of [1] [3]) = Inr 0"
    by (simp add: small_waiting_def get_slab_class_def slot_size_of_def lower_bound.simps)
qed

text \<open>A client that waits for an index entry when the cache shuts down.\<close>

definition small_stranded :: "(string \<times> bytes) list sys" where
  "small_stranded = \<lparr>kv_of = KVCache_dtor small_kv0, put_at = PNoEntry [1] [2] 0 0, flush_at = FIdle\<rparr>"

lemma small_stranded_ok: "stranded small_env (PNoEntry [1] [2] 0 0) small_stranded"
  using kv_inv_shutdown [OF small_kv0_inv(1)] small_kv0_inv(3) small_kv_inv(3) small_kv_shape(10,11)
  by (simp add: stranded_def small_stranded_def) (simp add: KVCache_dtor_def small_kv0_def)

subsection \<open>A slab that is full\<close>

text \<open>The first \<^verbatim>\<open>Put\<close> in detail: the object is in the only slot of memory slab 2, the first of the free list.\<close>

lemma small_class: "slab_class_table small_kv ! 0 = (slab_class_table small_kv ! 0)\<lparr>sc_slot_size := 20, slab_partial := []\<rparr>"
  "length (slab_class_table small_kv) = 1" "get_slab_class (slab_class_table small_kv) (slot_size_of [1] [2]) = Inr 0"
proof -
  obtain sc where t: "slab_class_table small_kv = [sc]" "sc_slot_size sc = 20" "slab_partial sc = []"
    using small_kv_shape(4,12) by (cases "slab_class_table small_kv") auto
  then show "slab_class_table small_kv ! 0 = (slab_class_table small_kv ! 0)\<lparr>sc_slot_size := 20, slab_partial := []\<rparr>"
    "length (slab_class_table small_kv) = 1" by simp_all
  show "get_slab_class (slab_class_table small_kv) (slot_size_of [1] [2]) = Inr 0"
    using t by (simp add: get_slab_class_def slot_size_of_def lower_bound.simps)
qed

lemma small_first_put:
  "items (mslab_full small_kv1) = [2]" "slab_flush_thread_started small_kv1" "slab_partial (slab_class_table small_kv1 ! 0) = []"
  "i < length (slabs small_kv1) \<Longrightarrow> nr_alloc (slabs small_kv1 ! i) = (if i = 2 then 1 else 0)"
proof -
  let ?t = "take_free_mslab 0 2 small_kv"
  let ?u = "put_write 0 2 [1] [2] ?t"
  have part: "slab_partial (slab_class_table small_kv ! 0) = []" "sc_slot_size (slab_class_table small_kv ! 0) = 20"
    by (subst small_class(1), simp)+
  note f = put_fresh [OF small_kv_inv(1) small_class(3) part(1) small_kv_shape(13)]
  have c: "0 < length (slab_class_table small_kv)" using small_class(2) by simp
  note tk = take_free_mslab_ok [OF small_kv_inv(1) small_kv_shape(13) c]
  have len: "2 < length (slabs ?t)" "length (slabs small_kv) = length (slabs ?t)"
    using f(2) tk(3) put_frame_steps by (auto simp: pending_def same_place_def put_write_def upd_class_def upd_slab_def Let_def split: if_splits)
  have al: "nr_alloc (slabs ?t ! j) = 0" if "j < length (slabs ?t)" for j
    using that small_kv_shape(14) len(2) by (simp add: take_free_alloc list_all_length)
  have "2 < length (slabs small_kv)" using len by simp
  then have ns: "nr_slots (slabs ?t ! 2) = 1"
    using part(2) small_kv_shape(3) by (simp add: take_free_mslab_def upd_class_def upd_slab_def Let_def)
  have "slab_partial (slab_class_table ?t ! 0) = [2]" "0 < length (slab_class_table ?t)"
    using tk(5,6) part(1) small_class(2) by (simp_all add: map_eq_imp_length_eq [OF tk(6)])
  note u = put_write_fields [OF len(1) this(2,1), where key = "[1]" and v = "[2]"]
  have u_all: "nr_alloc (slabs ?u ! j) = (if j = 2 then 1 else 0)" if "j < length (slabs ?t)" for j
    using al [OF that] al [OF len(1)] u(1) [of j] by (simp add: add_object_def)
  have u_full: "is_full (slabs ?u ! 2)" using u(1) [of 2] al [OF len(1)] ns by (simp add: is_full_def add_object_def)
  have put: "Put small_env (Suc (Suc 0)) [1] [2] small_kv = Ret OK small_kv1" using small_kv1_inv(1) by (simp add: numeral_2_eq_2)
  obtain a t where t: "put_index small_env (Suc (Suc 0)) [1] (2, 0) ?u = Ret a t" and re: "retire_full small_env (Suc (Suc 0)) 2 t = Ret () small_kv1"
    using put f(1) [of 0] unfolding Put_steps by (auto simp: seq_Ret_iff)
  have iu: "\<not> index_locked ?u" "0 < nr_free_index_entry (index ?u)" using f(5,6) small_kv_inv(3,5) by simp_all
  have "put_post small_env [1] [2] 2 ?u t"
    using put_index_returns [OF f(4) first_max_ok f(2) iu(1) small_evp, of "Suc 0"] iu(2) unfolding t by simp
  then have c: "calm ?u t" by (simp add: put_post_def)
  then have "is_full (slabs t ! 2)" using u_full by (simp add: calm_def is_full_def)
  moreover have "enable_background_flush t" "mslab_full t = \<lparr>items = [], lsize = 0\<rparr>" "slab_class_table t = slab_class_table ?u"
    using c u(5,16) tk(3) small_kv_shape(5,10)
    by (simp_all add: calm_def same_place_def same_lists_def) (simp add: take_free_mslab_def upd_class_def Let_def)
  ultimately have k: "small_kv1 = t\<lparr>mslab_full := slist_add 2 \<lparr>items = [], lsize = 0\<rparr>, slab_flush_thread_started := True\<rparr>"
    and tab: "slab_class_table t = slab_class_table ?u"
    using re by (simp_all add: retire_full_def slab_flush_def Let_def)
  show "items (mslab_full small_kv1) = [2]" "slab_flush_thread_started small_kv1" unfolding k by (simp_all add: slist_add_def)
  show "slab_partial (slab_class_table small_kv1 ! 0) = []" using u(2) [of 0] al [OF len(1)] ns by (simp add: k tab)
  have "length (slabs t) = length (slabs ?t)" using c u(13) by (simp add: calm_def same_place_def)
  then show "i < length (slabs small_kv1) \<Longrightarrow> nr_alloc (slabs small_kv1 ! i) = (if i = 2 then 1 else 0)"
    using c u_all [of i] by (simp add: k calm_def)
qed

text \<open>So the index points to that slot.\<close>

lemma small_kv1_view: "view small_kv1 (hk small_env small_kv1 [1]) = Some (2, 0)" "content small_env small_kv1 (2, 0) = ([1], [2])"
proof -
  have d: "data_inv small_env small_kv1" using small_kv1_inv(2) by (simp add: kv_inv_def)
  have "cache small_env small_kv1 [1] = Some [2]" by (simp add: small_kv1_inv(3))
  then obtain i j where v: "view small_kv1 (hk small_env small_kv1 [1]) = Some (i, j)" and kv: "content small_env small_kv1 (i, j) = ([1], [2])"
    by (cases "view small_kv1 (hk small_env small_kv1 [1])") (auto simp: cache_def prod_eq_iff split: if_splits)
  have "i = 2 \<and> j = 0" using data_inv_point(1,2) [OF d v] small_first_put(4) [of i] by (auto split: if_splits)
  with v kv show "view small_kv1 (hk small_env small_kv1 [1]) = Some (2, 0)" "content small_env small_kv1 (2, 0) = ([1], [2])" by simp_all
qed

end
