(* ===== verification/Spec2Isabelle.thy ===== *)
theory Spec2Isabelle
  imports Intrusive_List KV_Example
begin

text \<open>
  Verification of kvcache, a key-value cache that keeps objects in slabs: new objects go to memory
  slabs, full memory slabs are flushed to the blocks of an SSD, and a collector makes room on the SSD.

  \<^bold>\<open>The program.\<close> A \<^verbatim>\<open>KVCache\<close> (\<^verbatim>\<open>src/kvcache.cpp\<close>, \<^verbatim>\<open>include/kvcache.h\<close>) owns an \<^verbatim>\<open>SSD\<close>
  (\<^verbatim>\<open>src/ssd.cpp\<close>, \<^verbatim>\<open>include/ssd.h\<close>), which is a raw device or a RocksDB database with one key per block.
  Memory slabs and the headers of the disk slabs lie in one mapping; each slab is on at most one
  intrusive list (\<^verbatim>\<open>include/list.h\<close>): free and full memory slabs, the partial slabs of a class, and per
  channel the free disk slabs, the full ones and the over-provisioning pool. An index of hash buckets
  maps the digest of a key to a slab and a slot. \<^verbatim>\<open>Put\<close> writes an object into a partial slab of its class and
  points the index to it; a full slab is queued for the flush thread, which writes it to a free disk
  slab and redirects the index; the collector thread drops full disk slabs (quick collection) or
  compacts several of them into one slab of the pool (normal collection). \<^verbatim>\<open>src/kvcache_c_api.cpp\<close> wraps
  all of it for C.

  \<^bold>\<open>The theories and what they model.\<close>
  \<^item> \<^verbatim>\<open>KV_Prelude\<close>: the outcome of running a member function (return, exception, failed assertion, blocked
    thread, endless loop), sequencing, the predicates \<open>safe\<close>, \<open>total\<close> and \<open>settles\<close>, bytes and
    little-endian integers.
  \<^item> \<^verbatim>\<open>Intrusive_List\<close>: the pointer code of \<^verbatim>\<open>list.h\<close> on a heap; its locale \<open>list_ops\<close> justifies the lists of slab
    numbers the other theories use.
  \<^item> \<^verbatim>\<open>KV_Status\<close>: \<^verbatim>\<open>Status\<close>. \<^verbatim>\<open>KV_Slab\<close>: the byte layout of \<^verbatim>\<open>Slot\<close> and \<^verbatim>\<open>Slab\<close>, header operations, address
    arithmetic. \<^verbatim>\<open>KV_Class\<close>: \<^verbatim>\<open>get_slab_class\<close> (a binary search) and the default table of slot sizes.
    \<^verbatim>\<open>KV_Float\<close>: the products of floating-point options with integers, rounded as IEEE 754 does.
  \<^item> \<^verbatim>\<open>KV_SSD\<close>: reading and writing blocks (locale \<open>block_store\<close>, interpreted for the device), block keys, the
    offset in 32-bit arithmetic. \<^verbatim>\<open>KV_Device\<close>: \<^verbatim>\<open>SSD::create\<close>, the constructors, \<^verbatim>\<open>iterate_all_blocks\<close>.
  \<^item> \<^verbatim>\<open>KV_Index\<close>: buckets, chains, entries and the free list; the index as a map from hash keys to places.
  \<^item> \<^verbatim>\<open>KV_State\<close>: the record \<open>kv\<close> of the members of \<^verbatim>\<open>KVCache\<close> and the environment \<open>env\<close> of what is not in the
    sources. \<^verbatim>\<open>KV_Inv\<close>: the invariant of the data (\<open>data_inv\<close>: every entry points to a slot with its key, disk
    slabs are backed by their blocks) and the contents of the cache as a map (\<open>cache\<close>). \<^verbatim>\<open>KV_Lists\<close>: the
    invariant of the lists and counters; \<open>kv_inv\<close> is the whole invariant between operations.
  \<^item> \<^verbatim>\<open>KV_Move\<close>: \<^verbatim>\<open>flush_mslab_to_dslab\<close>, \<^verbatim>\<open>modify_index_to\<close>, \<^verbatim>\<open>read_dslab\<close>, \<^verbatim>\<open>evict_dslab\<close>. \<^verbatim>\<open>KV_QuickGC\<close>,
    \<^verbatim>\<open>KV_Compact\<close>, \<^verbatim>\<open>KV_NormalGC\<close>, \<^verbatim>\<open>KV_GC\<close>: \<^verbatim>\<open>do_quick_gc\<close>, \<^verbatim>\<open>gc_dslabs\<close>, \<^verbatim>\<open>normal_gc\<close>, \<^verbatim>\<open>do_slab_gc\<close>.
    \<^verbatim>\<open>KV_Flush\<close>: \<^verbatim>\<open>do_slab_flush\<close> and \<^verbatim>\<open>slot_alloc\<close>. \<^verbatim>\<open>KV_Cache\<close>: \<^verbatim>\<open>Get\<close>, \<^verbatim>\<open>Put\<close>, \<^verbatim>\<open>Delete\<close>.
  \<^item> \<^verbatim>\<open>KV_Ops\<close>, \<^verbatim>\<open>KV_Live\<close>, \<^verbatim>\<open>KV_GCLive\<close>: what is certain to return, and when \<^verbatim>\<open>Put\<close> cannot. \<^verbatim>\<open>KV_Init\<close>: options,
    constructor, destructor. \<^verbatim>\<open>KV_Trace\<close>: the life of a cache as a step relation; its locale \<open>lossy_map\<close> is the
    specification, interpreted for the cache and for its threads. \<^verbatim>\<open>KV_CAPI\<close>: the C interface. \<^verbatim>\<open>KV_Example\<close>: a small concrete
    cache built by the constructor, on which the hypotheses of the properties are met.

  \<^item> \<^verbatim>\<open>KV_Threads\<close>: \<^verbatim>\<open>Put\<close> and \<^verbatim>\<open>do_slab_flush\<close> cut into steps (\<open>put_next\<close>, \<open>flush_next\<close>) where the source holds no lock
    that another thread needs, the system of a client inside \<^verbatim>\<open>Put\<close> (\<^verbatim>\<open>writer_mutex_\<close> admits one), the flush thread,
    the collector and other callers as a step relation (\<open>sys_step\<close>), and an assertion for each point a thread
    may have reached: which slab it holds, on which lists that slab is not, what its slots contain.
    \<^verbatim>\<open>KV_Readers\<close>: \<^verbatim>\<open>Get\<close> as a lookup that returns a view of a slab and a later copy, and what a reused slab does to it.
    \<^verbatim>\<open>KV_FlushSteps\<close> and \<^verbatim>\<open>KV_PutSteps\<close>: each step of a thread establishes its next assertion and leaves alone
    (\<open>leaves\<close>) what the other holds. \<^verbatim>\<open>KV_System\<close>: the invariant of the whole, progress, and what shutdown does.

  Members of the class are fields of \<open>kv\<close> without the trailing underscore; slabs are numbered by \<^verbatim>\<open>sid\<close> (memory
  slabs first, the last of them the collector's buffer, then disk slabs); a list is the sequence of its
  slabs, first entry first, with its \<^verbatim>\<open>size_\<close>. Every \<^verbatim>\<open>assert\<close> of the source is a \<open>check\<close> that ends the run
  with \<open>Abort\<close>; exceptions are \<open>Exc\<close> with the state they leave behind. \<^verbatim>\<open>index_mutex_\<close> is a field, because an
  operation that takes it twice blocks for ever.

  \<^bold>\<open>What is shown.\<close> No operation fails an assertion, whatever way it ends, and each keeps the invariant;
  the contents of the cache are always part of the map of successful puts and deletes (refinement);
  \<^verbatim>\<open>Get\<close> is exact; a flush and a normal collection lose nothing and a quick collection only drops
  bindings; the same safety and refinement with \<^verbatim>\<open>Put\<close> and the flush thread interleaved step by step;
  the round trips of slots, slabs, addresses, blocks and keys; which calls return and which
  loops end. Several properties state what the code does where it surprises: the slab a quick
  collection loses, the selection loop that need not end, the \<^verbatim>\<open>Put\<close> that blocks itself or is forgotten at shutdown, the
  \<^verbatim>\<open>Get\<close> that copies from a slab reused under it, the decrement inside an \<^verbatim>\<open>assert\<close>, the offset and the budgets that overflow.

  \<^bold>\<open>Bounds and fuel.\<close> Fields that reach the device or the slots are kept in their 32 bits (\<open>s32\<close>, \<open>le_enc\<close>); counters
  of slabs are bounded by the invariant. \<open>fuel\<close> bounds the rounds of the two retry loops, the one of \<^verbatim>\<open>slot_alloc\<close>
  and the one of \<^verbatim>\<open>do_slab_flush\<close> for a disk slab; out of fuel is \<open>Hang\<close>. Safety holds for every fuel, and
  the results about returning need two rounds for \<^verbatim>\<open>Put\<close> and one for a flush, since the first attempt finds what
  the hypotheses grant. The loops over channels of quick and normal collection are partial functions with
  \<open>None\<close> for not ending.

  \<^bold>\<open>Parameters.\<close> RocksDB, the hash functions and SHA-1, the choice of \<^verbatim>\<open>std::priority_queue\<close> among equal
  elements, \<^verbatim>\<open>mmap\<close> and the environment. What is assumed of them are \<open>rocksdb_laws\<close> and \<open>rocksdb_store_laws\<close>, \<open>evp_ok\<close>,
  \<open>heap_pick_ok\<close> and the fields of \<open>init_ok\<close>.

  \<^bold>\<open>Not modelled.\<close> Finer interleavings: in \<open>KV_Trace\<close> client calls and rounds of the background threads are atomic
  steps; in \<open>KV_Threads\<close> the pieces of \<^verbatim>\<open>Put\<close> and of \<^verbatim>\<open>do_slab_flush\<close> are, but a round of the collector, a lookup and a
  deletion still are one step each, both background threads are enabled, and a thread that throws takes
  no further step. In \<open>KV_Readers\<close> the copy of a looked-up value comes at any
  later time. Other races inside such a step are outside. The destructors
  of \<^verbatim>\<open>SSD\<close> and of the C handles, RocksDB options and the time the collector sleeps have no state here. The
  constructor is taken with the closing brace its text lacks. Negative memory budgets are excluded by
  \<open>init_ok\<close>. Tests and the patch for fatcache are not part of the library.
\<close>

section \<open>The cache as a map\<close>

text \<open>
  C1: refinement. From the constructor on, in every interleaving of client calls, rounds of the
  flush thread and rounds of the collector, the invariant of the cache holds and its contents are
  part of the specification map: the map to which every successful \<^verbatim>\<open>Put\<close> adds its binding and from
  which every \<^verbatim>\<open>Delete\<close> removes one. A value \<^verbatim>\<open>Get\<close> returns is the last value put under that key.
\<close>

theorem trace_correct:
  assumes "heap_pick_ok E" and "init_ok E h d opt" and "walk_ok (rdb E) d bs"
    and "KVCache_ctor E h d opt = Ret u s" and "runs (kv_step E) s es t"
  shows "kv_inv E t \<and> cache E t \<subseteq>\<^sub>m fold effect es Map.empty \<and>
    (\<forall>key v t'. Get E key t = Ret (OK, Some v) t' \<longrightarrow> fold effect es Map.empty key = Some v)"
proof -
  have s: "kv_inv E s" "cache E s = Map.empty" using KVCache_ctor_total [OF assms(2,3)] assms(4) by simp_all
  have i: "heap_pick_ok E \<and> kv_inv E s" using assms(1) s(1) by simp
  have "kv_inv E t" using kv.runs_ok [OF assms(5) i] by simp
  moreover have "cache E t \<subseteq>\<^sub>m fold effect es Map.empty" using kv.runs_contents [OF assms(5) i] unfolding s(2) .
  moreover have "fold effect es Map.empty key = Some v" if "Get E key t = Ret (OK, Some v) t'" for key v t'
    using trace_get [OF assms(1) s(1) assms(5) that] unfolding s(2) .
  ultimately show ?thesis by blast
qed

theorem trace_correct_witness:
  "kv_inv small_env small_kv1 \<and> cache small_env small_kv1 \<subseteq>\<^sub>m [[1] \<mapsto> [2]]"
  using trace_correct [OF first_max_ok small_init small_walk small_ctor small_run] by simp

text \<open>
  C4: round trip. With room in memory and in the index, \<^verbatim>\<open>Put\<close> returns OK, \<^verbatim>\<open>Get\<close> of the key then
  returns the value, and every key with another bucket or digest reads as before.
\<close>

theorem put_get:
  assumes "kv_inv E s" and "heap_pick_ok E" and "mem_room s (slot_size_of key v)"
    and "\<not> index_locked s" and "evp_ok (hash E)"
    and "view s (hk E s key) \<noteq> None \<or> 0 < nr_free_index_entry (index s)"
  shows "\<exists>s'. Put E (Suc (Suc fuel)) key v s = Ret OK s' \<and> kv_inv E s' \<and> Get E key s' = Ret (OK, Some v) s' \<and>
    (\<forall>k r. hk E s k \<noteq> hk E s key \<and> Get E k s = Ret r s \<longrightarrow> Get E k s' = Ret r s')"
proof -
  obtain s' where s': "Put E (Suc (Suc fuel)) key v s = Ret OK s'" "kv_inv E s'" "cache E s' = put_map E s key v" "\<not> index_locked s'"
    using Put_returns [OF assms, of fuel] unfolding total_iff by auto
  have "Get E k s' = Ret r s'" if "hk E s k \<noteq> hk E s key" "Get E k s = Ret r s" for k r
    using that Get_total [OF s'(2,4) assms(5), of k] Get_total [OF assms(1,4,5), of k]
    by (auto simp: s'(3) put_map_def split: option.splits)
  then show ?thesis using s' Get_total [OF s'(2,4) assms(5), of key] by (auto simp: put_map_def)
qed

theorem put_get_witness:
  "\<exists>s'. Put small_env 2 [1] [2] small_kv = Ret OK s' \<and> Get small_env [1] s' = Ret (OK, Some [2]) s'"
  using put_get [OF small_kv_inv(1) first_max_ok _ small_kv_inv(3) small_evp, of "[1]" "[2]" 0] small_kv_inv(5) small_kv_shape(2)
  by (auto simp: slot_size_of_def numeral_2_eq_2)

text \<open>
  C5: \<^verbatim>\<open>Put\<close> never fails an assertion. When it returns OK the key has the value and every other binding
  is one the cache had; any other status is \<^verbatim>\<open>ObjectTooLarge\<close> for an object no class holds, or
  \<^verbatim>\<open>Shutdown\<close>, and then the cache has only lost bindings. When it ends by an exception or waits, the
  stored data is still consistent.
\<close>

theorem put_result:
  assumes "kv_inv E s" and "heap_pick_ok E"
  shows "case Put E fuel key v s of
      Ret st s' \<Rightarrow> kv_inv E s' \<and>
        (if st = OK then cache E s' key = Some v \<and> cache E s' \<subseteq>\<^sub>m (cache E s)(key \<mapsto> v)
         else cache E s' \<subseteq>\<^sub>m cache E s \<and>
           (st = ObjectTooLarge ''Object is too large'' \<and> get_slab_class (slab_class_table s) (slot_size_of key v) = Inl st \<or>
            st = Shutdown ''KVCache is shutting down'' \<and> shutdown s))
    | Exc e s' \<Rightarrow> data_inv E s' \<and> cache E s' \<subseteq>\<^sub>m cache E s
    | Wait w s' \<Rightarrow> data_inv E s' \<and> cache E s' \<subseteq>\<^sub>m cache E s
    | Abort a \<Rightarrow> False
    | Hang \<Rightarrow> True"
proof (cases "Put E fuel key v s")
  case (Ret st s')
  have "if st = OK then stored E key v s s' else kv_inv E s' \<and> refines E s s' \<and>
      (st = ObjectTooLarge ''Object is too large'' \<and> get_slab_class (slab_class_table s) (slot_size_of key v) = Inl st \<or>
       st = Shutdown ''KVCache is shutting down'' \<and> shutdown s)"
    using Put_safe [OF assms, of key v fuel] unfolding Ret by simp
  then show ?thesis
    unfolding Ret using stored_cache [of E key v s s'] refines_cache [of E s s'] by (auto simp: stored_def)
qed (use Put_safe [OF assms, of key v fuel] in \<open>auto simp: gc_exit_def dest: refines_cache\<close>)

theorem put_result_witness:
  "cache small_env small_kv1 [1] = Some [2] \<and> cache small_env small_kv1 \<subseteq>\<^sub>m (cache small_env small_kv)([1] \<mapsto> [2])"
  using put_result [OF small_kv_inv(1) first_max_ok, where fuel = 2 and key = "[1]" and v = "[2]"] unfolding small_kv1_inv(1) by simp

text \<open>
  C18: \<^verbatim>\<open>Get\<close> and \<^verbatim>\<open>Delete\<close> always return when the index is not locked. \<^verbatim>\<open>Get\<close> returns what the cache
  holds, and \<^verbatim>\<open>NotFound\<close> otherwise; the variant with a buffer returns \<^verbatim>\<open>BufferTooSmall\<close> exactly for a
  value that is longer than the buffer.
\<close>

theorem get_exact:
  assumes "kv_inv E s" and "\<not> index_locked s" and "evp_ok (hash E)"
  shows "Get E key s = (case cache E s key of
      None \<Rightarrow> Ret (NotFound ''Key not found'', None) s | Some v \<Rightarrow> Ret (OK, Some v) s) \<and>
    Get_buffer E key n s = (case cache E s key of
      None \<Rightarrow> Ret (NotFound ''Key not found'', None) s
    | Some v \<Rightarrow> if n < length v then Ret (BufferTooSmall ''Buffer is too small'', None) s else Ret (OK, Some v) s)"
  by (intro conjI Get_total [OF assms] Get_buffer_total [OF assms])

theorem get_exact_witness:
  "Get small_env [1] small_kv1 = Ret (OK, Some [2]) small_kv1 \<and> Get small_env [3] small_kv1 = Ret (NotFound ''Key not found'', None) small_kv1"
  using get_exact [OF small_kv1_inv(2,4) small_evp, of "[1]"] get_exact [OF small_kv1_inv(2,4) small_evp, of "[3]"]
  by (simp add: small_kv1_inv(3))

text \<open>
  C19: after \<^verbatim>\<open>Delete\<close> the key is not found, every key with another bucket or digest reads as before, and
  the invariant holds.
\<close>

theorem delete_get:
  assumes "kv_inv E s" and "\<not> index_locked s" and "evp_ok (hash E)"
  shows "\<exists>s'. Delete E key s = Ret () s' \<and> kv_inv E s' \<and> Get E key s' = Ret (NotFound ''Key not found'', None) s' \<and>
    (\<forall>k r. hk E s k \<noteq> hk E s key \<and> Get E k s = Ret r s \<longrightarrow> Get E k s' = Ret r s')"
proof -
  obtain s' where s': "Delete E key s = Ret () s'" "kv_inv E s'" "cache E s' = del_map E s key" "\<not> index_locked s'"
    using Delete_total [OF assms, of key] assms(2) unfolding total_iff by (auto simp: deleted_def calm_def)
  have "Get E k s' = Ret r s'" if "hk E s k \<noteq> hk E s key" "Get E k s = Ret r s" for k r
    using that Get_total [OF s'(2,4) assms(3), of k] Get_total [OF assms, of k]
    by (auto simp: s'(3) del_map_def split: option.splits)
  then show ?thesis using s' Get_total [OF s'(2,4) assms(3), of key] by (auto simp: del_map_def)
qed

theorem delete_get_witness:
  "\<exists>s'. Delete small_env [1] small_kv1 = Ret () s' \<and> Get small_env [1] s' = Ret (NotFound ''Key not found'', None) s'"
  using delete_get [OF small_kv1_inv(2,4) small_evp, of "[1]"] by blast

text \<open>
  C14: for options that fit the device, the constructor returns an empty cache in which the invariant
  holds: every memory slab is free but the collector's buffer, every block of the device has a
  disk slab on the free list or in the pool of its channel, and every index entry is free.
\<close>

theorem constructor_establishes:
  assumes "init_ok E h d opt" and "walk_ok (rdb E) d bs"
  shows "\<exists>s. KVCache_ctor E h d opt = Ret () s \<and> kv_inv E s \<and> cache E s = Map.empty \<and> check_ops_pool s \<and>
    \<not> index_locked s \<and> \<not> shutdown s \<and> nr_free_index_entry (index s) = int (nat (index_mem_budget opt) div 48)"
  using KVCache_ctor_total [OF assms] check_ops_pool_inv unfolding total_iff kv_inv_def by auto

theorem constructor_establishes_witness:
  "\<exists>s. KVCache_ctor small_env small_host small_dev small_opt = Ret () s \<and> kv_inv small_env s \<and> nr_free_index_entry (index s) = 5"
  using constructor_establishes [OF small_init small_walk] by (auto simp: small_opt_def)

section \<open>Threads\<close>

text \<open>
  C2: refinement, with the operations interleaved. A client inside \<^verbatim>\<open>Put\<close> and the flush thread inside
  \<^verbatim>\<open>do_slab_flush\<close> are cut between their critical sections, with lookups, deletions, rounds of
  the collector, other calls and shutdown in between. In every such run from the constructor on, the
  invariant holds, the contents are part of the map of successful puts and deletes, and a value \<^verbatim>\<open>Get\<close>
  returns is the last one put under the key and not deleted since.
\<close>

theorem threads_correct:
  assumes "heap_pick_ok E" and "init_ok E h d opt" and "walk_ok (rdb E) d bs" and "KVCache_ctor E h d opt = Ret u s"
    and "enable_background_flush s" and "enable_background_gc s" and "runs (sys_step E) (sys_start s) es T"
  shows "kv_inv E (kv_of T) \<and> cache E (kv_of T) \<subseteq>\<^sub>m fold effect es Map.empty \<and>
    (\<forall>key v t'. Get E key (kv_of T) = Ret (OK, Some v) t' \<longrightarrow> fold effect es Map.empty key = Some v)"
proof -
  have s: "kv_inv E s" "cache E s = Map.empty" "\<not> index_locked s" using KVCache_ctor_total [OF assms(2,3)] assms(4) by simp_all
  have i: "heap_pick_ok E \<and> sys_ok E (sys_start s)" using assms(1) sys_start_ok [OF s(1,3) assms(5,6)] by simp
  have "kv_inv E (kv_of T)" using sys.runs_ok [OF assms(7) i] by (simp add: sys_ok_def)
  moreover have le: "cache E (kv_of T) \<subseteq>\<^sub>m fold effect es Map.empty"
    using sys.runs_contents [OF assms(7) i] s(2) by (simp add: sys_start_def)
  moreover have "fold effect es Map.empty key = Some v" if "Get E key (kv_of T) = Ret (OK, Some v) t'" for key v t'
    using Get_run(2) [OF calculation(1) that] le by (auto simp: map_le_def dom_def split: option.splits)
  ultimately show ?thesis by blast
qed

theorem threads_correct_witness:
  "\<exists>es. runs (sys_step small_env) (sys_start small_kv) es (sys_start small_kv1) \<and> EvPut [1] [2] OK \<in> set es \<and>
     Get small_env [1] small_kv1 = Ret (OK, Some [2]) small_kv1 \<and> fold effect es Map.empty [1] = Some [2]"
proof -
  obtain es where es: "runs (sys_step small_env) (sys_start small_kv) (EvWake # es) (sys_start small_kv1)" "EvPut [1] [2] OK \<in> set es"
    using small_sys_run by blast
  have "Get small_env [1] small_kv1 = Ret (OK, Some [2]) small_kv1"
    using Get_total [OF small_kv1_inv(2,4) small_evp, of "[1]"] by (simp add: small_kv1_inv(3))
  moreover from this have "fold effect (EvWake # es) Map.empty [1] = Some [2]"
    using threads_correct [OF first_max_ok small_init small_walk small_ctor small_kv_shape(10,11) es(1)] by (simp add: sys_start_def)
  ultimately show ?thesis using es by (intro exI [of _ "EvWake # es"]) simp
qed

text \<open>
  C3: no thread ever fails an assertion of the code: in every state that the interleaved system reaches,
  whichever step comes next (of the client inside \<^verbatim>\<open>Put\<close>, of the flush thread, a round of the
  collector, a lookup or a deletion), it does not abort. The slabs that the client and the flush
  thread hold at that moment are different ones.
\<close>

theorem threads_no_abort:
  assumes "heap_pick_ok E" and "kv_inv E s" and "\<not> index_locked s" and "enable_background_flush s" and "enable_background_gc s"
    and "runs (sys_step E) (sys_start s) es T"
  shows "put_next E fuel (put_at T) (kv_of T) \<noteq> Abort w \<and> flush_next E (flush_at T) (kv_of T) \<noteq> Abort w \<and>
    do_slab_gc E (kv_of T) \<noteq> Abort w \<and> Get E key (kv_of T) \<noteq> Abort w \<and> Delete E key (kv_of T) \<noteq> Abort w \<and>
    put_mem (put_at T) \<inter> flush_mem (flush_at T) = {}"
proof -
  have "heap_pick_ok E \<and> sys_ok E T" by (rule sys.runs_ok [OF assms(6)]) (use assms sys_start_ok in blast)
  then have T: "sys_ok E T" by simp
  show ?thesis using sys_no_abort [OF assms(1) T] T by (simp add: sys_ok_def)
qed

theorem threads_no_abort_witness:
  "flush_next small_env FIdle small_kv1 \<noteq> Abort ''mslab->cid != -1'' \<and>
   do_slab_gc small_env small_kv1 \<noteq> Abort ''nr_free_dslab >= 0''"
proof -
  obtain es where "runs (sys_step small_env) (sys_start small_kv) (EvWake # es) (sys_start small_kv1)" using small_sys_run by blast
  from threads_no_abort [OF first_max_ok small_kv_inv(1,3) small_kv_shape(10,11) this] show ?thesis
    unfolding sys_start_def by (simp del: flush_next.simps)
qed





text \<open>
  C24: shutdown does not wake a client that waits for an index entry. With every entry taken, whatever
  the threads then do short of a \<^verbatim>\<open>Delete\<close>, the client is still waiting: its condition does not look at
  \<^verbatim>\<open>shutdown_\<close>, and neither background thread runs another round that could free an entry.
\<close>

theorem shutdown_strands_put:
  assumes "kv_inv E (kv_of S)" and "shutdown (kv_of S)" and "nr_free_index_entry (index (kv_of S)) = 0"
    and "\<not> index_locked (kv_of S)" and "enable_background_flush (kv_of S)" and "enable_background_gc (kv_of S)"
    and "put_at S = PNoEntry key v m n" and "flush_at S = FIdle"
    and "runs (sys_step E) S es T" and "\<forall>k. EvDelete k \<notin> set es"
  shows "put_at T = PNoEntry key v m n \<and> put_next E (Suc fuel) (put_at T) (kv_of T) = Wait ''gc_finished_signal_'' (wake_both (kv_of T))"
proof -
  have "stranded E (PNoEntry key v m n) S" using assms by (simp add: stranded_def)
  then have T: "stranded E (PNoEntry key v m n) T" by (rule stranded_runs [OF assms(9)]) (use assms(10) in blast)
  then have ok: "index_ok (index (kv_of T))" by (simp add: stranded_def kv_inv_def data_inv_def)
  show ?thesis using T put_resume_stuck(1) [OF ok] by (simp add: stranded_def)
qed

theorem shutdown_strands_put_witness:
  "put_next small_env 1 (put_at small_stranded) (kv_of small_stranded) = Wait ''gc_finished_signal_'' (wake_both (kv_of small_stranded))"
proof -
  have S: "stranded small_env (PNoEntry [1] [2] 0 0) small_stranded" by (rule small_stranded_ok)
  have "runs (sys_step small_env) small_stranded [] small_stranded" by (rule runs_Nil)
  then show ?thesis
    using shutdown_strands_put [where E = small_env and S = small_stranded and key = "[1]" and v = "[2]" and m = 0 and n = 0 and fuel = 0 and es = "[]" and T = small_stranded] S
    unfolding stranded_def One_nat_def by (simp del: put_next.simps)
qed

text \<open>
  C17: a lookup and the copy of its result are not one step. \<^verbatim>\<open>get_slice\<close> returns a view into the memory slab
  and releases the lock before \<^verbatim>\<open>Get\<close> copies the value. When the slab is the next one to flush, the
  steps of the flush thread and of a \<^verbatim>\<open>Put\<close> of another object with a key and a value of the same lengths
  may come in between, and \<^verbatim>\<open>Get\<close> then returns the other object's value with status OK, although
  nothing was put under its key.
\<close>

theorem get_reads_reused_slab:
  assumes "heap_pick_ok E" and "sys_ok E (sys_start s)" and "evp_ok (hash E)" and "writable E s"
    and "slab_flush_thread_started s" and "\<not> shutdown s" and "0 < nr_free_dslab s"
    and "items (mslab_full s) = m # ms" and "view s (hk E s key) = Some (m, 0)" and "content E s (m, 0) = (key, val)"
    and "get_slab_class (slab_class_table s) (slot_size_of key' val') = Inr c" and "slab_partial (slab_class_table s ! c) = []"
    and "length key' = length key" and "length val' = length val"
  shows "\<exists>r es T. get_view E key s = Ret r s \<and> get_copy r s = (OK, Some val) \<and>
    runs (sys_step E) (sys_start s) es T \<and> set es \<subseteq> {EvFlush, EvWake} \<and> get_copy r (kv_of T) = (OK, Some val')"
  using stale_slice [OF assms] by (force simp: get_copy_def)

theorem get_reads_reused_slab_witness:
  "\<exists>r es T. get_view small_env [1] small_kv1 = Ret r small_kv1 \<and> get_copy r small_kv1 = (OK, Some [2]) \<and>
    runs (sys_step small_env) (sys_start small_kv1) es T \<and> set es \<subseteq> {EvFlush, EvWake} \<and> get_copy r (kv_of T) = (OK, Some [6])"
proof -
  have fd: "0 < nr_free_dslab small_kv1" by (simp add: small_kv1_shape(1))
  have "slot_size_of [5] [6] = slot_size_of [1] [3]" by (simp add: slot_size_of_def)
  then have cl: "get_slab_class (slab_class_table small_kv1) (slot_size_of [5] [6]) = Inr 0"
    using small_waiting_ready(6) by (simp add: small_waiting_def)
  from get_reads_reused_slab [OF first_max_ok small_sys1_ok small_evp small_kv1_writable small_first_put(2) small_kv1_shape(2) fd
      small_first_put(1) small_kv1_view cl small_first_put(3)]
  show ?thesis by simp
qed

section \<open>Background work\<close>

text \<open>
  C13: a round of the flush thread with a full memory slab, a free disk slab and a device that
  accepts the write returns; the contents of the cache are unchanged and the memory slab is the
  first of the free list.
\<close>

theorem flush_round:
  assumes "kv_inv E s" and "evp_ok (hash E)" and "\<not> index_locked s" and "writable E s" and "\<not> shutdown s"
    and "items (mslab_full s) = m # ms" and "0 < nr_free_dslab s"
  shows "\<exists>s'. do_slab_flush E (Suc fuel) s = Ret True s' \<and> kv_inv E s' \<and> cache E s' = cache E s \<and>
    items (mslab_free s') = m # items (mslab_free s)"
  using do_slab_flush_returns [OF assms, of fuel] unfolding total_iff by auto

theorem flush_round_witness:
  "\<exists>s'. do_slab_flush small_env 1 small_kv1 = Ret True s' \<and> cache small_env s' = [[1] \<mapsto> [2]]"
proof -
  obtain m where m: "items (mslab_full small_kv1) = m # []" using small_kv1_inv(6) by blast
  have "0 < nr_free_dslab small_kv1" by (simp add: small_kv1_shape(1))
  from flush_round [OF small_kv1_inv(2) small_evp small_kv1_inv(4) small_kv1_writable small_kv1_shape(2) m this, of 0]
  show ?thesis by (auto simp: small_kv1_inv(3))
qed

text \<open>
  C6: the normal collection never fails an assertion and loses nothing: it keeps the invariant, every
  binding of the cache and every disk slab (each stays on exactly one of the lists). Whatever way
  it ends, the data is consistent and no binding is lost.
\<close>

theorem normal_gc_keeps:
  assumes "kv_inv E s" and "heap_pick_ok E"
  shows "case normal_gc E s of
      Ret go s' \<Rightarrow> go \<and> kv_inv E s' \<and> cache E s' = cache E s \<and> on_lists s' = on_lists s
    | Exc e s' \<Rightarrow> data_inv E s' \<and> cache E s' = cache E s
    | Wait w s' \<Rightarrow> data_inv E s' \<and> cache E s' = cache E s
    | Abort a \<Rightarrow> False
    | Hang \<Rightarrow> True"
  using normal_gc_safe [OF assms] by (cases "normal_gc E s") (auto simp: normal_gc_result_def gc_result_def dest: keeps_cache)

theorem normal_gc_keeps_witness:
  "case normal_gc small_env small_kv2 of Ret go s' \<Rightarrow> go \<and> cache small_env s' = [[1] \<mapsto> [2]] | Abort a \<Rightarrow> False | _ \<Rightarrow> True"
  using normal_gc_keeps [OF small_kv2_inv(2) first_max_ok]
  by (cases "normal_gc small_env small_kv2") (auto simp: small_kv2_inv(3))

text \<open>
  C7: what a quick collection does: it never fails an assertion, only drops bindings, adds the asked
  number of slabs to the pool and one slab less than asked to the free list. The missing slab is on
  no list any more.
\<close>

theorem quick_gc_effect:
  assumes "kv_inv E s" and "0 \<le> no" and "no \<le> max_ops_pool_size s - ops_pool_size s" and "0 \<le> nf"
  shows "case do_quick_gc E nf no s of
      Ret go s' \<Rightarrow> go \<and> kv_inv E s' \<and> cache E s' \<subseteq>\<^sub>m cache E s \<and> ops_pool_size s' = ops_pool_size s + no \<and>
        nr_free_dslab s' = nr_free_dslab s + max 0 (nf - 1) \<and>
        int (size (on_lists s')) = int (size (on_lists s)) - (if 0 < nf then 1 else 0)
    | Exc e s' \<Rightarrow> data_inv E s' \<and> cache E s' \<subseteq>\<^sub>m cache E s
    | Wait w s' \<Rightarrow> data_inv E s' \<and> cache E s' \<subseteq>\<^sub>m cache E s
    | Abort a \<Rightarrow> False
    | Hang \<Rightarrow> True"
  using do_quick_gc_safe [OF assms(1-3), of nf] assms(2,4)
  by (cases "do_quick_gc E nf no s") (auto simp: quick_gc_result_def gc_exit_def min_def dest: refines_cache)

theorem quick_gc_effect_witness:
  "case do_quick_gc small_env 1 0 small_kv2 of
     Ret go s' \<Rightarrow> nr_free_dslab s' = nr_free_dslab small_kv2 \<and> int (size (on_lists s')) = int (size (on_lists small_kv2)) - 1
   | Abort a \<Rightarrow> False | _ \<Rightarrow> True"
proof -
  have "0 \<le> max_ops_pool_size small_kv2 - ops_pool_size small_kv2"
    using small_kv2_inv(2) by (simp add: kv_inv_def ops_in_range_def)
  from quick_gc_effect [OF small_kv2_inv(2) order_refl this, of 1] show ?thesis
    by (cases "do_quick_gc small_env 1 0 small_kv2") auto
qed







text \<open>
  C21: the loop that selects slabs to drop ends exactly when there are enough full disk slabs; with too
  few, a quick collection never ends (it holds the lock of the full slabs all the while).
\<close>

theorem select_drop_ends:
  assumes "kv_inv E s"
  shows "(select_drop k [] s = None \<longleftrightarrow> int (length (members (dslab_full s))) < k) \<and>
    (int (length (members (dslab_full s))) < nf + no \<longrightarrow> do_quick_gc E nf no s = Hang)"
proof -
  have di: "disk_inv ([] @ []) {} s" and g: "geom E s" and o: "ops_in_range s" using assms by (simp_all add: kv_inv_def data_inv_def)
  have iff: "select_drop k [] s = None \<longleftrightarrow> int (length (members (dslab_full s))) < k" for k
    using select_drop_returns [OF di nch_pos [OF g], of k] select_drop_None [OF di nch_pos [OF g], of k] by linarith
  have "check_ops_pool s" using check_ops_pool_inv [of "[] @ []" "{}" s] di by simp
  then have "do_quick_gc E nf no s = Hang" if "int (length (members (dslab_full s))) < nf + no"
    using that iff [of "nf + no"] o by (simp add: do_quick_gc_def check_def ops_in_range_def)
  then show ?thesis using iff by blast
qed

theorem select_drop_ends_witness: "do_quick_gc small_env 1 0 small_kv = Hang"
  using select_drop_ends [OF small_kv_inv(1), of 1 1 0] small_kv_shape(9) by simp

text \<open>
  C8: a round of the collector chooses a quick or a normal collection by the number of free disk slabs.
  Whatever it does, it fails no assertion, keeps the invariant and loses bindings at most; and it
  ends the loop of its thread exactly at shutdown.
\<close>

theorem gc_round:
  assumes "kv_inv E s" and "heap_pick_ok E"
  shows "case do_slab_gc E s of
      Ret go s' \<Rightarrow> (go \<longleftrightarrow> \<not> shutdown s) \<and> kv_inv E s' \<and> cache E s' \<subseteq>\<^sub>m cache E s \<and> check_ops_pool s'
    | Exc e s' \<Rightarrow> data_inv E s' \<and> cache E s' \<subseteq>\<^sub>m cache E s
    | Wait w s' \<Rightarrow> data_inv E s' \<and> cache E s' \<subseteq>\<^sub>m cache E s
    | Abort a \<Rightarrow> False
    | Hang \<Rightarrow> True"
proof (cases "do_slab_gc E s")
  case (Ret go s')
  have "gc_result E s s'" using do_slab_gc_safe [OF assms] unfolding Ret by simp
  then show ?thesis
    unfolding Ret using collector_goes_on [OF assms Ret] refines_cache [of E s s'] check_ops_pool_inv [of "[]" "{}" s']
    by (auto simp: gc_result_def kv_inv_def)
qed (use do_slab_gc_safe [OF assms] in \<open>auto simp: gc_exit_def dest: refines_cache\<close>)

theorem gc_round_witness:
  "case do_slab_gc small_env small_kv2 of
     Ret go s' \<Rightarrow> kv_inv small_env s' \<and> cache small_env s' \<subseteq>\<^sub>m [[1] \<mapsto> [2]] | Abort a \<Rightarrow> False | _ \<Rightarrow> True"
  using gc_round [OF small_kv2_inv(2) first_max_ok]
  by (cases "do_slab_gc small_env small_kv2") (auto simp: small_kv2_inv(3))

text \<open>
  C20: the candidates of a normal collection, which the code collects in a bounded priority queue, are
  what sorting all full disk slabs would give: at most three times the size of the pool, none twice,
  in decreasing order of live bytes, and no full slab that is left out has fewer live bytes.
\<close>

theorem gc_candidates:
  assumes "kv_inv E s" and "heap_pick_ok E"
  defines "q \<equiv> fold (pq_offer E s) (members (dslab_full s)) []"
  shows "let order = pq_drain E s (length q) q
    in distinct order \<and> set order \<subseteq> set (members (dslab_full s)) \<and>
       int (length order) = min (3 * ops_pool_size s) (int (length (members (dslab_full s)))) \<and>
       sorted_wrt (\<lambda>x y. gc_priority s y \<le> gc_priority s x) order \<and>
       (\<forall>x \<in> set order. \<forall>y \<in> set (members (dslab_full s)) - set order. gc_priority s x \<le> gc_priority s y)"
proof -
  have di: "disk_inv [] {} s" and pos: "0 < ops_pool_size s" using assms(1) by (simp_all add: kv_inv_def ops_in_range_def)
  note qo = pq_fold_ok [OF assms(2) pos, of "members (dslab_full s)", folded q_def]
  note d = pq_drain_ok [OF assms(2) refl, of s q] and o = normal_gc_order [OF assms(2) pos di, unfolded Let_def, folded q_def]
  obtain out where m: "mset (members (dslab_full s)) = mset q + out"
    and le: "\<forall>x \<in> set q. \<forall>y \<in># out. gc_priority s x \<le> gc_priority s y" using qo unfolding queue_ok_def by blast
  have st: "set (pq_drain E s (length q) q) = set q" using d by (metis set_mset_mset)
  have ln: "length (pq_drain E s (length q) q) = length q" using d by (metis size_mset)
  have "y \<in># out" if "y \<in> set (members (dslab_full s)) - set q" for y
    using that arg_cong [OF m, of set_mset] by auto
  then have "\<forall>x \<in> set q. \<forall>y \<in> set (members (dslab_full s)) - set q. gc_priority s x \<le> gc_priority s y" using le by blast
  then show ?thesis using o d qo unfolding Let_def st ln queue_ok_def by blast
qed

theorem gc_candidates_witness:
  "let q = fold (pq_offer small_env small_kv2) (members (dslab_full small_kv2)) [];
       order = pq_drain small_env small_kv2 (length q) q
   in distinct order \<and> set order \<subseteq> set (members (dslab_full small_kv2))"
  using gc_candidates [OF small_kv2_inv(2) first_max_ok] by (simp add: Let_def)



section \<open>Limits\<close>

text \<open>
  C22: \<^verbatim>\<open>MaxKVSize\<close> is exact. An object whose key and value together are longer is refused with
  \<^verbatim>\<open>ObjectTooLarge\<close> and the cache stays as it is; one that is not longer is never refused that way.
\<close>

theorem put_size_limit:
  assumes "kv_inv E s" and "heap_pick_ok E" and "slab_class_table s \<noteq> []" and "sorted (map sc_slot_size (slab_class_table s))"
    and "8 \<le> sc_slot_size (last (slab_class_table s))"
  shows "if MaxKVSize (slab_class_table s) < length key + length v
    then Put E (Suc fuel) key v s = Ret (ObjectTooLarge ''Object is too large'') s
    else \<forall>m s'. Put E (Suc fuel) key v s \<noteq> Ret (ObjectTooLarge m) s'"
proof -
  let ?t = "slab_class_table s" and ?sz = "slot_size_of key v"
  have last: "sc_slot_size c \<le> sc_slot_size (last ?t)" if "c \<in> set ?t" for c
  proof -
    obtain i where i: "i < length ?t" "c = ?t ! i" using \<open>c \<in> set ?t\<close> by (auto simp: in_set_conv_nth)
    show ?thesis using sorted_nth_mono [OF assms(4), of i "length ?t - 1"] i by (simp add: last_conv_nth [OF assms(3)])
  qed
  have big: "MaxKVSize ?t < length key + length v \<longleftrightarrow> sc_slot_size (last ?t) < ?sz"
    using assms(5) by (auto simp: MaxKVSize_def slot_size_of_def)
  show ?thesis
  proof (cases "get_slab_class ?t ?sz")
    case (Inl st)
    have "sc_slot_size (last ?t) < ?sz" using get_slab_class_Inl [OF assms(4) Inl] assms(3) by simp
    then show ?thesis using big Put_too_large [OF Inl] by simp
  next
    case (Inr c)
    have "?sz \<le> sc_slot_size (last ?t)" using get_slab_class_Inr [OF Inr] last [of "?t ! c"] by simp
    moreover have "Put E (Suc fuel) key v s \<noteq> Ret (ObjectTooLarge m) s'" for m s'
      using Put_safe [OF assms(1,2), of key v "Suc fuel"] Inr by (auto simp: OK_def ObjectTooLarge_def Shutdown_def split: if_splits)
    ultimately show ?thesis using big by simp
  qed
qed

theorem put_size_limit_witness:
  "Put small_env 1 [1, 2, 3, 4, 5, 6, 7] [1, 2, 3, 4, 5, 6] small_kv = Ret (ObjectTooLarge ''Object is too large'') small_kv"
proof -
  obtain sc where t: "slab_class_table small_kv = [sc]" "sc_slot_size sc = 20" using small_kv_shape(4) by auto
  then have "slab_class_table small_kv \<noteq> []" "sorted (map sc_slot_size (slab_class_table small_kv))"
    "8 \<le> sc_slot_size (last (slab_class_table small_kv))" by simp_all
  from put_size_limit [OF small_kv_inv(1) first_max_ok this, of "[1, 2, 3, 4, 5, 6, 7]" "[1, 2, 3, 4, 5, 6]" 0] t show ?thesis
    by (simp add: MaxKVSize_def)
qed

text \<open>
  C23: with every index entry taken, a \<^verbatim>\<open>Put\<close> of a new key never returns by itself, even with room in
  memory. With the background threads it waits for the collector, releasing \<^verbatim>\<open>index_mutex_\<close>; without
  them it runs the flush and the collection itself, which need the \<^verbatim>\<open>index_mutex_\<close> it still holds.
\<close>

theorem put_needs_index_entry:
  assumes "kv_inv E s" and "heap_pick_ok E" and "mem_room s (slot_size_of key v)"
    and "view s (hk E s key) = None" and "nr_free_index_entry (index s) = 0"
  shows "\<nexists>st s'. Put E (Suc (Suc fuel)) key v s = Ret st s'"
  using Put_blocks [OF assms] by blast

theorem put_needs_index_entry_witness: "\<nexists>st s'. Put small_env (Suc (Suc 7)) [1] [2] small_kv0 = Ret st s'"
  by (rule put_needs_index_entry [OF small_kv0_inv(1) first_max_ok]) (simp_all add: slot_size_of_def small_kv0_inv)

text \<open>
  C25: the decrement of the use count in \<^verbatim>\<open>Delete\<close> stands inside an \<^verbatim>\<open>assert\<close>. In a debug build the count
  of the slab goes down by one, in a build with \<^verbatim>\<open>NDEBUG\<close> it does not.
\<close>

theorem delete_use_count:
  assumes "kv_inv E s" and "\<not> index_locked s" and "evp_ok (hash E)" and "view s (hk E s key) = Some (i, j)"
  shows "\<exists>s'. Delete E key s = Ret () s' \<and> nr_used (slabs s' ! i) = nr_used (slabs s ! i) - (if ndebug E then 0 else 1)"
  using Delete_used [OF assms] unfolding total_iff by auto

theorem delete_use_count_witness:
  "\<exists>i s'. Delete small_env [1] small_kv1 = Ret () s' \<and> nr_used (slabs s' ! i) = nr_used (slabs small_kv1 ! i) - 1"
proof -
  have "cache small_env small_kv1 [1] = Some [2]" by (simp add: small_kv1_inv(3))
  then obtain l where l: "view small_kv1 (hk small_env small_kv1 [1]) = Some l" by (auto simp: cache_def split: option.splits)
  have "view small_kv1 (hk small_env small_kv1 [1]) = Some (fst l, snd l)" using l by simp
  from delete_use_count [OF small_kv1_inv(2,4) small_evp this] show ?thesis by (auto simp: small_env_def)
qed

section \<open>The C interface\<close>

text \<open>
  C37: \<^verbatim>\<open>kvcache_get\<close> returns 0 with the value when the cache holds the key and the value fits the buffer,
  and -1 with the matching error string otherwise; it changes nothing.
\<close>

theorem c_get:
  assumes "kv_inv E s" and "\<not> index_locked s" and "evp_ok (hash E)"
  shows "kvcache_get E key n errptr s = (case cache E s key of
      None \<Rightarrow> Ret (-1, None, error_string errptr ''Key not found'') s
    | Some v \<Rightarrow> if n < length v then Ret (-1, None, error_string errptr ''Buffer is too small'') s else Ret (0, Some v, None) s)"
  by (rule kvcache_get_result [OF assms])

theorem c_get_witness:
  "kvcache_get small_env [1] 0 True small_kv1 = Ret (-1, None, Some ''Buffer is too small'') small_kv1 \<and>
   kvcache_get small_env [1] 4 True small_kv1 = Ret (0, Some [2], None) small_kv1"
  using c_get [OF small_kv1_inv(2,4) small_evp, of "[1]" 0 True] c_get [OF small_kv1_inv(2,4) small_evp, of "[1]" 4 True]
  by (simp add: small_kv1_inv(3) error_string_def)

text \<open>
  C38: \<^verbatim>\<open>kvcache_put\<close> throws nothing and returns 0 or -1. After 0 the key has the value; after -1 no
  binding is new, and an error string is set exactly when the caller asked for one.
\<close>

theorem c_put:
  assumes "kv_inv E s" and "heap_pick_ok E"
  shows "case kvcache_put E fuel key v errptr s of
      Ret (rc, out, err) s' \<Rightarrow> data_inv E s' \<and>
        (rc = 0 \<and> err = None \<and> kv_inv E s' \<and> cache E s' key = Some v \<and> cache E s' \<subseteq>\<^sub>m (cache E s)(key \<mapsto> v) \<or>
         rc = -1 \<and> (err \<noteq> None \<longleftrightarrow> errptr) \<and> cache E s' \<subseteq>\<^sub>m cache E s)
    | Exc e s' \<Rightarrow> False
    | Wait w s' \<Rightarrow> data_inv E s' \<and> cache E s' \<subseteq>\<^sub>m cache E s
    | Abort a \<Rightarrow> False
    | Hang \<Rightarrow> True"
proof (cases "Put E fuel key v s")
  case (Ret st s')
  have r: "if st = OK then stored E key v s s' else kv_inv E s' \<and> refines E s s' \<and>
      (st = ObjectTooLarge ''Object is too large'' \<and> get_slab_class (slab_class_table s) (slot_size_of key v) = Inl st \<or>
       st = Shutdown ''KVCache is shutting down'' \<and> shutdown s)"
    using Put_safe [OF assms, of key v fuel] unfolding Ret by simp
  have bad: "\<not> Status_ok (ObjectTooLarge m)" "\<not> Status_ok (Shutdown m)" for m
    by (simp_all add: Status_ok_def ObjectTooLarge_def Shutdown_def)
  show ?thesis
  proof (cases "st = OK")
    case True
    then have "stored E key v s s'" using r by simp
    then show ?thesis
      using stored_cache [of E key v s s'] True Ret by (auto simp: kvcache_put_def stored_def kv_inv_def)
  next
    case False
    then have "kv_inv E s'" "refines E s s'" "\<not> Status_ok st" using r bad by auto
    then show ?thesis using Ret refines_cache [of E s s'] by (simp add: kvcache_put_def wrap_status_def kv_inv_def error_string_def)
  qed
qed (use Put_safe [OF assms, of key v fuel] in \<open>auto simp: kvcache_put_def wrap_status_def gc_exit_def error_string_def dest: refines_cache\<close>)

theorem c_put_witness: "\<exists>s'. kvcache_put small_env 2 [1] [2] True small_kv = Ret (0, None, None) s' \<and> cache small_env s' [1] = Some [2]"
proof -
  have "kvcache_put small_env 2 [1] [2] True small_kv = Ret (0, None, None) small_kv1"
    using small_kv1_inv(1) by (simp add: kvcache_put_def)
  with c_put [OF small_kv_inv(1) first_max_ok, where fuel = 2 and key = "[1]" and v = "[2]" and errptr = True] show ?thesis by simp
qed

section \<open>Devices\<close>

text \<open>
  C28: creating a device in RocksDB under a fresh path returns a device with the geometry of the
  configuration, and walking over its blocks (which parses the keys the database iterates over)
  calls the function once for every block.
\<close>

theorem create_and_walk:
  assumes "rocksdb_store_laws R" and "cfg_ok cfg" and "\<not> prefix ''/dev/'' path"
    and "\<forall>q. db_open R path q \<noteq> None" and "\<forall>d k v. fst (db_put R d k v)"
    and "\<forall>k. prefix kBlockPrefix k \<longrightarrow> db_get R p k = None"
  shows "\<exists>ssd p' bs. SSD_create R path fd u cfg p = Ret (OK, Some ssd) p' \<and> ssd_ok R ssd \<and> has_geometry cfg ssd \<and>
    distinct bs \<and> set bs = {0..<cfg_blocks_per_channel cfg * cfg_nr_channels cfg} \<and>
    (\<forall>func s. iterate_all_blocks R ssd func s = for_each (\<lambda>b. func (get_block ssd b)) bs s)"
proof -
  obtain ssd p' where run: "SSD_create R path fd u cfg p = Ret (OK, Some ssd) p'"
    using create_db_returns [OF assms(1-3)] assms(4,5) by blast
  have c: "ssd_ok R ssd" "has_geometry cfg ssd" "\<exists>bs. walk_ok R ssd bs"
    using create_db [OF assms(1-3) _ run] assms(6) by blast+
  obtain bs where w: "walk_ok R ssd bs" using c(3) by blast
  have nb: "nr_blocks ssd = cfg_blocks_per_channel cfg * cfg_nr_channels cfg" using c(2) by (simp add: has_geometry_def)
  then have "nr_blocks ssd < 2 ^ 31" using assms(2) by (simp add: cfg_ok_def)
  note it = iterate_walk [OF c(1) w this]
  have "distinct bs" "set bs = {0..<cfg_blocks_per_channel cfg * cfg_nr_channels cfg}" using w nb by (simp_all add: walk_ok_def)
  then show ?thesis
    using run c(1,2) by (intro exI [of _ ssd] exI [of _ p'] exI [of _ bs]) (simp add: it)
qed

theorem create_and_walk_witness:
  "\<exists>ssd p' bs. SSD_create list_db ''db'' None small_dev \<lparr>cfg_nr_channels = 2, cfg_block_size = 64, cfg_blocks_per_channel = 3\<rparr> [] =
     Ret (OK, Some ssd) p' \<and> nr_blocks ssd = 6 \<and> set bs = {0..<6} \<and>
     iterate_all_blocks list_db ssd (\<lambda>b s. Ret () (b # s)) [] = for_each (\<lambda>b s. Ret () (get_block ssd b # s)) bs []"
proof -
  let ?c = "\<lparr>cfg_nr_channels = 2, cfg_block_size = 64, cfg_blocks_per_channel = 3\<rparr>"
  have h: "cfg_ok ?c" "\<not> prefix ''/dev/'' ''db''" "\<forall>q. db_open list_db ''db'' q \<noteq> None"
    "\<forall>d k v. fst (db_put list_db d k v)" "\<forall>k. prefix kBlockPrefix k \<longrightarrow> db_get list_db [] k = None"
    by (simp_all add: cfg_ok_def list_db_def)
  obtain ssd p' and bs :: "int list" where r: "SSD_create list_db ''db'' None small_dev ?c [] = Ret (OK, Some ssd) p'" "has_geometry ?c ssd"
    "set bs = {0..<6}" "\<forall>func (s :: block list). iterate_all_blocks list_db ssd func s = for_each (\<lambda>b. func (get_block ssd b)) bs s"
    using create_and_walk [OF list_db_laws h, of None small_dev] by auto
  have "iterate_all_blocks list_db ssd (\<lambda>b s. Ret () (b # s)) [] = for_each (\<lambda>b s. Ret () (get_block ssd b # s)) bs []"
    using r(4) by blast
  then show ?thesis using r(1-3) by (intro exI [of _ ssd] exI [of _ p'] exI [of _ bs]) (simp add: has_geometry_def)
qed

text \<open>
  C29: creating a device on a raw device file gives the geometry of the configuration, and the walk
  visits the blocks in order. The product of the geometry has to fit 31 bits and the file.
\<close>

theorem create_raw:
  assumes "cfg_ok cfg" and "prefix ''/dev/'' path"
    and "cfg_blocks_per_channel cfg * cfg_nr_channels cfg * cfg_block_size cfg \<le> min (2 ^ 31) (int (length bs))"
  shows "\<exists>ssd. SSD_create R path (Some bs) u cfg p = Ret (OK, Some ssd) p \<and> ssd_ok R ssd \<and> has_geometry cfg ssd \<and>
    (\<forall>func s. iterate_all_blocks R ssd func s = for_each (\<lambda>b. func (get_block ssd b)) [0..nr_blocks ssd - 1] s)"
proof -
  obtain ssd where run: "SSD_create R path (Some bs) u cfg p = Ret (OK, Some ssd) p"
    using assms(2) by (simp add: SSD_create_def SSD_path_def)
  have c: "ssd_ok R ssd" "has_geometry cfg ssd" "walk_ok R ssd [0..nr_blocks ssd - 1]"
    using create_dev [OF assms(1,2) run assms(3)] by blast+
  have "nr_blocks ssd < 2 ^ 31" using c(2) assms(1) by (simp add: has_geometry_def cfg_ok_def)
  from iterate_walk [OF c(1,3) this] show ?thesis using run c(1,2) by blast
qed

theorem create_raw_witness:
  "\<exists>ssd. SSD_create list_db ''/dev/sda'' (Some (replicate 640 0)) small_dev
     \<lparr>cfg_nr_channels = 2, cfg_block_size = 64, cfg_blocks_per_channel = 5\<rparr> [] = Ret (OK, Some ssd) [] \<and> nr_blocks ssd = 10"
proof -
  let ?c = "\<lparr>cfg_nr_channels = 2, cfg_block_size = 64, cfg_blocks_per_channel = 5\<rparr>"
  have "cfg_ok ?c" "prefix ''/dev/'' ''/dev/sda''"
    "cfg_blocks_per_channel ?c * cfg_nr_channels ?c * cfg_block_size ?c \<le> min (2 ^ 31) (int (length (replicate 640 (0 :: byte))))"
    by (simp_all add: cfg_ok_def)
  from create_raw [OF this, of list_db small_dev "[]"] show ?thesis by (auto simp: has_geometry_def)
qed

text \<open>
  C34: block keys. The walk parses from the key of a block its number again, and no two blocks share a key.
\<close>

theorem block_key_roundtrip:
  assumes "0 \<le> c" and "c < 2 ^ 31" and "0 \<le> b" and "b < 2 ^ 31"
  shows "parse_block_key (block_key c b) = Some (Inr b) \<and> (\<forall>c' b'. block_key c' b' = block_key c b \<longleftrightarrow> c' = c \<and> b' = b)"
  using parse_block_key_block_key [OF assms] block_key_inj by blast

theorem block_key_roundtrip_witness: "parse_block_key (block_key 12 345) = Some (Inr 345)"
  using block_key_roundtrip [of 12 345] by simp

end
